(* ===== verification/Prelude.thy ===== *)
theory Prelude
  imports Main "HOL-Library.Word" "HOL-Library.Signed_Division"
begin

text \<open>
  Shared vocabulary of the development.

  \<^item> \<open>fault\<close> and \<open>res\<close>: a C++ operation that can trip an \<open>assert\<close>, throw, abort or run into
    undefined behaviour returns a value of type \<open>'a res\<close>, a sum whose left side names the
    fault. \<open>rbind\<close> sequences such operations, \<open>rfold\<close> is the \<open>for\<close> loop over a container, and
    \<open>ok P m\<close> says that \<open>m\<close> returns without a fault and its result satisfies \<open>P\<close>; \<open>safe P m\<close> also
    allows that an allocation fails (\<open>std::bad_alloc\<close>). \<open>Diverges\<close> is a loop that never ends.
  \<^item> \<open>size_t\<close>, \<open>int32\<close>: the implicit conversions of the source between \<open>size_t\<close> (64 bit) and
    \<open>int\<close> (32 bit), written out on HOL integers.
  \<^item> \<open>slice\<close>, \<open>overwrite\<close>, \<open>vec_resize\<close>: reading a range, \<open>std::copy\<close> into a range and
    \<open>std::vector::resize\<close> on lists.
  \<^item> \<open>mem_bytes\<close>, \<open>of_mem\<close>, \<open>bswap\<close>: the bytes of an integer object in memory (little endian, as
    on the x86-64 Linux hosts the library targets), its inverse and the byte swap that the
    \<open>htobe\<close>/\<open>be..toh\<close> family performs there.
\<close>

section \<open>Results with faults\<close>

datatype fault =
    AssertFail
  | OutOfRange
  | LengthError
  | LogicError string
  | UseAfterFree
  | Abort
  | Overflow
  | OutOfMemory
  | Diverges

type_synonym 'a res = "fault + 'a"

definition rbind :: "'a res \<Rightarrow> ('a \<Rightarrow> 'b res) \<Rightarrow> 'b res" where
  "rbind m f = (case m of Inl e \<Rightarrow> Inl e | Inr x \<Rightarrow> f x)"

fun rfold :: "('a \<Rightarrow> 's \<Rightarrow> 's res) \<Rightarrow> 'a list \<Rightarrow> 's \<Rightarrow> 's res" where
  "rfold f [] s = Inr s"
| "rfold f (x # xs) s = rbind (f x s) (rfold f xs)"

definition ok :: "('a \<Rightarrow> bool) \<Rightarrow> 'a res \<Rightarrow> bool" where
  "ok P m \<longleftrightarrow> (case m of Inl e \<Rightarrow> False | Inr x \<Rightarrow> P x)"

definition safe :: "('a \<Rightarrow> bool) \<Rightarrow> 'a res \<Rightarrow> bool" where
  "safe P m \<longleftrightarrow> m = Inl OutOfMemory \<or> ok P m"

section \<open>Machine integers\<close>

definition size_t :: "int \<Rightarrow> int" where
  "size_t x = x mod 2 ^ 64"

definition int32 :: "int \<Rightarrow> int" where
  "int32 x = (x + 2 ^ 31) mod 2 ^ 32 - 2 ^ 31"

definition int64 :: "int \<Rightarrow> int" where
  "int64 x = (x + 2 ^ 63) mod 2 ^ 64 - 2 ^ 63"

section \<open>Byte vectors\<close>

type_synonym byte = "8 word"
type_synonym addr = "64 word"

definition slice :: "nat \<Rightarrow> nat \<Rightarrow> 'a list \<Rightarrow> 'a list" where
  "slice i n xs = take n (drop i xs)"

definition overwrite :: "nat \<Rightarrow> 'a list \<Rightarrow> 'a list \<Rightarrow> 'a list" where
  "overwrite i ys xs = take i xs @ ys @ drop (i + length ys) xs"

definition vec_resize :: "nat \<Rightarrow> 'a \<Rightarrow> 'a list \<Rightarrow> 'a list" where
  "vec_resize n z xs = take n xs @ replicate (n - length xs) z"

section \<open>Integer objects in memory\<close>

definition mem_bytes :: "nat \<Rightarrow> 'a::len word \<Rightarrow> byte list" where
  "mem_bytes n w = map (\<lambda>i. ucast (drop_bit (8 * i) w)) [0..<n]"

fun of_mem :: "byte list \<Rightarrow> 'a::len word" where
  "of_mem [] = 0"
| "of_mem (b # bs) = or (ucast b) (push_bit 8 (of_mem bs))"

definition bswap :: "nat \<Rightarrow> 'a::len word \<Rightarrow> 'a word" where
  "bswap n w = of_mem (rev (mem_bytes n w))"

section \<open>Collections and lemmas\<close>

named_theorems ok_rules \<open>introduction rules for \<open>ok\<close>\<close>
named_theorems vec_simps \<open>slices of overwritten and resized vectors\<close>

subsection \<open>Results\<close>

lemma rbind_Inl [simp]: "rbind (Inl e) f = Inl e"
  by (simp add: rbind_def)

lemma rbind_Inr [simp]: "rbind (Inr x) f = f x"
  by (simp add: rbind_def)

lemma rbind_assoc [simp]: "rbind (rbind m f) g = rbind m (\<lambda>x. rbind (f x) g)"
  by (cases m) simp_all

lemma rbind_eq_Inr: "rbind m f = Inr y \<longleftrightarrow> (\<exists>x. m = Inr x \<and> f x = Inr y)"
  by (cases m) simp_all

lemma rbind_cong: "m = m' \<Longrightarrow> (\<And>x. m' = Inr x \<Longrightarrow> f x = f' x) \<Longrightarrow> rbind m f = rbind m' f'"
  by (cases m') simp_all

lemma ok_Inr [simp]: "ok P (Inr x) = P x"
  by (simp add: ok_def)

lemma ok_Inl [simp]: "\<not> ok P (Inl e)"
  by (simp add: ok_def)

lemma ok_rbind [ok_rules]: "ok P m \<Longrightarrow> (\<And>x. P x \<Longrightarrow> ok Q (f x)) \<Longrightarrow> ok Q (rbind m f)"
  by (cases m) simp_all

lemma ok_mono: "ok P m \<Longrightarrow> (\<And>x. P x \<Longrightarrow> Q x) \<Longrightarrow> ok Q m"
  by (cases m) simp_all

lemma ok_conj: "ok P m \<Longrightarrow> ok Q m \<Longrightarrow> ok (\<lambda>x. P x \<and> Q x) m"
  by (cases m) simp_all

lemma ok_iff: "ok P m \<longleftrightarrow> (\<exists>x. m = Inr x \<and> P x)"
  by (cases m) simp_all

lemma okD: "ok P m \<Longrightarrow> m = Inr x \<Longrightarrow> P x"
  by simp

lemma ok_rfold [ok_rules]:
  assumes "\<And>x s. x \<in> set xs \<Longrightarrow> I s \<Longrightarrow> ok I (f x s)" and "I s"
  shows "ok I (rfold f xs s)"
  using assms
proof (induction xs arbitrary: s)
  case Nil
  then show ?case by simp
next
  case (Cons x xs)
  have "ok I (f x s)" using Cons.prems by simp
  then show ?case
    using Cons.IH Cons.prems(1) by (auto simp: ok_iff)
qed

lemma safe_ok: "ok P m \<Longrightarrow> safe P m"
  by (simp add: safe_def)

lemma safe_Inr [simp]: "safe P (Inr x) = P x"
  by (simp add: safe_def)

lemma safe_mono: "safe P m \<Longrightarrow> (\<And>x. P x \<Longrightarrow> Q x) \<Longrightarrow> safe Q m"
  by (auto simp: safe_def intro: ok_mono)

lemma safe_rbind: "safe P m \<Longrightarrow> (\<And>x. P x \<Longrightarrow> safe Q (f x)) \<Longrightarrow> safe Q (rbind m f)"
  by (cases m) (auto simp: safe_def)

lemma safe_rfold:
  "(\<And>x s. x \<in> set xs \<Longrightarrow> I s \<Longrightarrow> safe I (f x s)) \<Longrightarrow> I s \<Longrightarrow> safe I (rfold f xs s)"
proof (induction xs arbitrary: s)
  case Nil
  then show ?case by simp
next
  case (Cons x xs)
  have "safe I (f x s)" using Cons.prems by simp
  then show ?case
    unfolding rfold.simps by (rule safe_rbind) (use Cons in simp)
qed

lemma rfold_append: "rfold f (xs @ ys) s = rbind (rfold f xs s) (rfold f ys)"
  by (induction xs arbitrary: s) (simp_all cong: rbind_cong)

text \<open>A component with guarded operations: \<open>inv\<close> is its invariant, \<open>step\<close> its operations and \<open>guard\<close> what a
  client has to ensure before each of them. Then no run that respects the guards has a fault.\<close>

fun guards :: "('e \<Rightarrow> 's \<Rightarrow> bool) \<Rightarrow> ('e \<Rightarrow> 's \<Rightarrow> 's res) \<Rightarrow> 'e list \<Rightarrow> 's \<Rightarrow> bool" where
  "guards g f [] s \<longleftrightarrow> True"
| "guards g f (e # es) s \<longleftrightarrow> g e s \<and> (case f e s of Inl _ \<Rightarrow> True | Inr s' \<Rightarrow> guards g f es s')"

lemma guards_append: "guards g f (xs @ ys) s \<longleftrightarrow> guards g f xs s \<and> (case rfold f xs s of Inl _ \<Rightarrow> True | Inr t \<Rightarrow> guards g f ys t)"
  by (induction xs arbitrary: s) (auto split: sum.splits)

lemma guards_weaken: "guards g f es s \<Longrightarrow> (\<And>e s. e \<in> set es \<Longrightarrow> g e s \<Longrightarrow> h e s) \<Longrightarrow> guards h f es s"
  by (induction es arbitrary: s) (auto split: sum.splits)

lemma guards_mono: "guards g f es s \<Longrightarrow> (\<And>e s. g e s \<Longrightarrow> h e s) \<Longrightarrow> guards h f es s"
  by (erule guards_weaken)

locale guarded_machine =
  fixes inv :: "'s \<Rightarrow> bool"
    and guard :: "'e \<Rightarrow> 's \<Rightarrow> bool"
    and step :: "'e \<Rightarrow> 's \<Rightarrow> 's res"
  assumes step_ok: "inv s \<Longrightarrow> guard e s \<Longrightarrow> ok inv (step e s)"
begin

lemma run_ok: "inv s \<Longrightarrow> guards guard step es s \<Longrightarrow> ok inv (rfold step es s)"
proof (induction es arbitrary: s)
  case Nil
  then show ?case by simp
next
  case (Cons e es)
  then obtain t where "step e s = Inr t" "inv t" using step_ok [of s e] by (auto simp: ok_iff)
  then show ?case using Cons by simp
qed

text \<open>A relation between states that every step establishes and that composes holds over a run.\<close>

lemma run_rel:
  assumes "\<And>s e s'. inv s \<Longrightarrow> guard e s \<Longrightarrow> step e s = Inr s' \<Longrightarrow> R s s'"
    and "\<And>s. R s s" and "\<And>s t u. R s t \<Longrightarrow> R t u \<Longrightarrow> R s u"
    and "inv s" and "guards guard step es s"
  shows "ok (R s) (rfold step es s)"
  using assms(4,5)
proof (induction es arbitrary: s)
  case Nil
  then show ?case using assms(2) by simp
next
  case (Cons e es)
  then obtain t where t: "step e s = Inr t" "inv t" using step_ok [of s e] by (auto simp: ok_iff)
  then have "R s t" using assms(1) Cons.prems by auto
  moreover have "ok (R t) (rfold step es t)" using Cons t by simp
  ultimately show ?case using t(1) assms(3) by (auto elim!: ok_mono)
qed

text \<open>Steps that an abstract operation \<open>f\<close> describes: the run is described by running \<open>f\<close>.\<close>

lemma run_simulates:
  assumes "\<And>s e s'. inv s \<Longrightarrow> guard e s \<Longrightarrow> step e s = Inr s' \<Longrightarrow> view s' = f e (view s)"
    and "inv s" and "guards guard step es s"
  shows "ok (\<lambda>s'. view s' = fold f es (view s)) (rfold step es s)"
  using assms(2,3)
proof (induction es arbitrary: s)
  case Nil
  then show ?case by simp
next
  case (Cons e es)
  then obtain t where t: "step e s = Inr t" "inv t" using step_ok [of s e] by (auto simp: ok_iff)
  then have "view t = f e (view s)" using assms(1) Cons.prems by auto
  moreover have "ok (\<lambda>s'. view s' = fold f es (view t)) (rfold step es t)" using Cons t by simp
  ultimately show ?case using t(1) by simp
qed

text \<open>A text that every step extends is extended over a run by what its steps add.\<close>

lemma run_emits:
  assumes "\<And>s e s'. inv s \<Longrightarrow> guard e s \<Longrightarrow> step e s = Inr s' \<Longrightarrow> val s' = val s @ out e"
    and "inv s" and "guards guard step es s"
  shows "ok (\<lambda>s'. val s' = val s @ concat (map out es)) (rfold step es s)"
proof -
  have f: "fold (\<lambda>e v. v @ out e) es (val s) = val s @ concat (map out es)"
    by (induction es arbitrary: s rule: rev_induct) simp_all
  show ?thesis using run_simulates [of val "\<lambda>e v. v @ out e", OF assms(1) assms(2,3)] unfolding f .
qed

end

subsection \<open>Machine integers\<close>

lemma size_t_id [simp]: "0 \<le> x \<Longrightarrow> x < 2 ^ 64 \<Longrightarrow> size_t x = x"
  by (simp add: size_t_def)

lemma size_t_nonneg [simp]: "0 \<le> size_t x"
  by (simp add: size_t_def)

lemma int32_id [simp]: "- (2 ^ 31) \<le> x \<Longrightarrow> x < 2 ^ 31 \<Longrightarrow> int32 x = x"
  by (simp add: int32_def)

lemma int64_id [simp]: "- (2 ^ 63) \<le> x \<Longrightarrow> x < 2 ^ 63 \<Longrightarrow> int64 x = x"
  by (simp add: int64_def)

lemma sdiv_nonneg: "0 \<le> (a::int) \<Longrightarrow> 0 < b \<Longrightarrow> a sdiv b = a div b"
  by (cases "a = 0") (simp_all add: signed_divide_int_def sgn_if)

lemma smod_nonneg: "0 \<le> (a::int) \<Longrightarrow> 0 < b \<Longrightarrow> a smod b = a mod b"
  by (simp add: smod_int_alt_def sgn_if)

subsection \<open>Vectors\<close>

lemma length_slice [simp]: "length (slice i n xs) = min n (length xs - i)"
  by (simp add: slice_def min.commute)

lemma slice_0 [simp]: "slice i 0 xs = []"
  by (simp add: slice_def)

lemma slice_add: "slice i (m + n) xs = slice i m xs @ slice (i + m) n xs"
  by (simp add: slice_def take_add add.commute)

lemma take_slice [simp]: "m \<le> n \<Longrightarrow> take m (slice i n xs) = slice i m xs"
  by (simp add: slice_def min_absorb1)

lemma drop_slice: "drop m (slice i n xs) = slice (i + m) (n - m) xs"
  by (simp add: slice_def drop_take add.commute)

lemma length_overwrite [simp]: "i + length ys \<le> length xs \<Longrightarrow> length (overwrite i ys xs) = length xs"
  by (simp add: overwrite_def)

lemma slice_overwrite_same [vec_simps]:
  "i + length ys \<le> length xs \<Longrightarrow> n = length ys \<Longrightarrow> slice i n (overwrite i ys xs) = ys"
  by (simp add: slice_def overwrite_def)

lemma slice_overwrite_before [vec_simps]:
  "j + n \<le> i \<Longrightarrow> i + length ys \<le> length xs \<Longrightarrow> slice j n (overwrite i ys xs) = slice j n xs"
  by (rule nth_equalityI) (auto simp: slice_def overwrite_def nth_append)

lemma slice_overwrite_after [vec_simps]:
  "i + length ys \<le> j \<Longrightarrow> i + length ys \<le> length xs \<Longrightarrow> slice j n (overwrite i ys xs) = slice j n xs"
  by (simp add: slice_def overwrite_def)

lemma length_vec_resize [simp]: "length (vec_resize n z xs) = n"
  by (simp add: vec_resize_def)

lemma slice_vec_resize [vec_simps]:
  "i + k \<le> length xs \<Longrightarrow> i + k \<le> n \<Longrightarrow> slice i k (vec_resize n z xs) = slice i k xs"
  by (rule nth_equalityI) (auto simp: slice_def vec_resize_def nth_append)

lemma slice_all [simp]: "slice 0 (length xs) xs = xs"
  by (simp add: slice_def)

subsection \<open>Integer objects\<close>

lemma length_mem_bytes [simp]: "length (mem_bytes n w) = n"
  by (simp add: mem_bytes_def)

lemma bit_mem_bytes:
  "i < n \<Longrightarrow> bit (mem_bytes n (w::'a::len word) ! i) k \<longleftrightarrow> k < 8 \<and> bit w (8 * i + k)"
  by (auto simp: mem_bytes_def bit_simps)

lemma bit_of_mem:
  "bit (of_mem bs :: 'a::len word) k \<longleftrightarrow>
    k < LENGTH('a) \<and> k div 8 < length bs \<and> bit (bs ! (k div 8)) (k mod 8)"
proof (induction bs arbitrary: k)
  case Nil
  then show ?case by simp
next
  case (Cons b bs)
  show ?case
  proof (cases "k < 8")
    case True
    then show ?thesis by (auto simp: bit_simps)
  next
    case False
    then have k: "k div 8 = Suc ((k - 8) div 8)" "k mod 8 = (k - 8) mod 8"
      by (simp_all add: le_div_geq le_mod_geq)
    have "\<not> bit b k" using False bit_imp_le_length [of b k] by auto
    then show ?thesis
      using False Cons.IH [of "k - 8"] k by (auto simp: bit_simps)
  qed
qed

lemma of_mem_mem_bytes [simp]:
  assumes "LENGTH('a) = 8 * n"
  shows "of_mem (mem_bytes n w) = (w::'a::len word)"
proof (rule bit_word_eqI)
  fix k
  assume "k < LENGTH('a)"
  moreover have "8 * (k div 8) + k mod 8 = k" by simp
  ultimately show "bit (of_mem (mem_bytes n w) :: 'a word) k = bit w k"
    using assms by (auto simp: bit_of_mem bit_mem_bytes)
qed

lemma mem_bytes_of_mem [simp]:
  assumes "LENGTH('a) = 8 * n" and "length bs = n"
  shows "mem_bytes n (of_mem bs :: 'a::len word) = bs"
proof (rule nth_equalityI)
  fix i
  assume "i < length (mem_bytes n (of_mem bs :: 'a word))"
  then have i: "i < n" by simp
  show "mem_bytes n (of_mem bs :: 'a word) ! i = bs ! i"
  proof (rule bit_word_eqI)
    fix k
    assume "k < LENGTH(8)"
    then show "bit (mem_bytes n (of_mem bs :: 'a word) ! i) k = bit (bs ! i) k"
      using i assms by (auto simp: bit_mem_bytes bit_of_mem)
  qed
qed (use assms in simp)

lemma mem_bytes_bswap:
  "LENGTH('a) = 8 * n \<Longrightarrow> mem_bytes n (bswap n (w::'a::len word)) = rev (mem_bytes n w)"
  by (simp add: bswap_def)

lemma bswap_bswap [simp]: "LENGTH('a) = 8 * n \<Longrightarrow> bswap n (bswap n w) = (w::'a::len word)"
  by (simp add: bswap_def)

end
