(* ===== verification/Formatting.thy ===== *)
theory Formatting
  imports Prelude
begin

text \<open>
  The C formatting the library uses: \<open>dec_int\<close> is \<^verbatim>\<open>%d\<close>, \<open>fmt_zero n\<close> is \<^verbatim>\<open>%0nd\<close>, \<open>fmt_pad n\<close> is
  \<^verbatim>\<open>%nd\<close>, and \<open>snprintf\<close> returns the full length of the text and the part that fits with its
  terminating zero into the array. \<open>read_dec\<close> reads decimal digits back.
\<close>

section \<open>Decimal text\<close>

definition digit :: "nat \<Rightarrow> char" where
  "digit n = char_of (48 + n)"

function dec_nat :: "nat \<Rightarrow> string" where
  "dec_nat n = (if n < 10 then [digit n] else dec_nat (n div 10) @ [digit (n mod 10)])"
  by pat_completeness auto
termination by (relation "measure id") auto

declare dec_nat.simps [simp del]

definition dec_int :: "int \<Rightarrow> string" where
  "dec_int i = (if i < 0 then CHR ''-'' # dec_nat (nat (- i)) else dec_nat (nat i))"

definition fmt_zero :: "nat \<Rightarrow> int \<Rightarrow> string" where
  "fmt_zero w i =
    (let ds = dec_nat (nat \<bar>i\<bar>)
     in if i < 0 then CHR ''-'' # replicate (w - 1 - length ds) (CHR ''0'') @ ds
        else replicate (w - length ds) (CHR ''0'') @ ds)"

definition fmt_pad :: "nat \<Rightarrow> int \<Rightarrow> string" where
  "fmt_pad w i = (let s = dec_int i in replicate (w - length s) (CHR '' '') @ s)"

definition snprintf :: "nat \<Rightarrow> string \<Rightarrow> nat \<times> string" where
  "snprintf n s = (length s, take (n - 1) s)"

definition digit_val :: "char \<Rightarrow> nat" where
  "digit_val c = of_char c - 48"

definition read_dec :: "string \<Rightarrow> nat" where
  "read_dec s = foldl (\<lambda>n c. 10 * n + digit_val c) 0 s"

section \<open>Lemmas\<close>

lemma digit_val_digit [simp]: "n < 10 \<Longrightarrow> digit_val (digit n) = n"
  by (simp add: digit_val_def digit_def)

lemma read_dec_snoc [simp]: "read_dec (s @ [c]) = 10 * read_dec s + digit_val c"
  by (simp add: read_dec_def)

lemma read_dec_Nil [simp]: "read_dec [] = 0"
  by (simp add: read_dec_def)

lemma read_dec_single [simp]: "read_dec [c] = digit_val c"
  by (simp add: read_dec_def)

lemma read_dec_nat [simp]: "read_dec (dec_nat n) = n"
proof (induction n rule: dec_nat.induct)
  case (1 n)
  then show ?case by (subst dec_nat.simps) auto
qed

lemma dec_nat_nonempty [simp]: "dec_nat n \<noteq> []"
  by (subst dec_nat.simps) simp

lemma length_dec_nat_le: "n < 10 ^ k \<Longrightarrow> 0 < k \<Longrightarrow> length (dec_nat n) \<le> k"
proof (induction n arbitrary: k rule: dec_nat.induct)
  case (1 n)
  show ?case
  proof (cases "n < 10")
    case True
    then show ?thesis using "1.prems" by (subst dec_nat.simps) simp
  next
    case False
    then have k: "1 < k" using "1.prems" by (cases k; cases "k - 1") auto
    then have "n < 10 ^ (k - 1) * 10" using "1.prems" by (simp add: power_eq_if)
    then have "n div 10 < 10 ^ (k - 1)" using less_mult_imp_div_less by blast
    then have "length (dec_nat (n div 10)) \<le> k - 1" using "1.IH" [OF False] k by simp
    with False k show ?thesis by (subst dec_nat.simps) simp
  qed
qed

lemma length_dec_nat_ge: "10 ^ k \<le> n \<Longrightarrow> k < length (dec_nat n)"
proof (induction k arbitrary: n)
  case 0
  then show ?case by simp
next
  case (Suc k)
  then have "10 \<le> n" and "10 ^ k \<le> n div 10"
    using order_trans [of 10 "10 * 10 ^ k" n] by (auto simp: less_eq_div_iff_mult_less_eq mult.commute)
  with Suc.IH [of "n div 10"] show ?case by (subst dec_nat.simps) simp
qed

lemma length_dec_nat: "10 ^ k \<le> n \<Longrightarrow> n < 10 ^ Suc k \<Longrightarrow> length (dec_nat n) = Suc k"
  using length_dec_nat_le [of n "Suc k"] length_dec_nat_ge [of k n] by simp

lemma foldl_zeros: "foldl (\<lambda>n c. 10 * n + digit_val c) 0 (replicate k (CHR ''0'') @ s)
   = foldl (\<lambda>n c. 10 * n + digit_val c) 0 s"
  by (induction k) (simp_all add: digit_val_def)

lemma read_fmt_zero [simp]: "0 \<le> i \<Longrightarrow> read_dec (fmt_zero w i) = nat i"
  using foldl_zeros [of _ "dec_nat (nat i)"] read_dec_nat [of "nat i"]
  by (simp add: fmt_zero_def Let_def read_dec_def)

lemma length_fmt_zero:
  "0 \<le> i \<Longrightarrow> i < 10 ^ w \<Longrightarrow> 0 < w \<Longrightarrow> length (fmt_zero w i) = w"
  using length_dec_nat_le [of "nat i" w]
  by (simp add: fmt_zero_def Let_def nat_less_iff)

text \<open>Decimal text consists of digits.\<close>

lemma of_char_digit: "k < 10 \<Longrightarrow> of_char (digit k) = (48 + k :: nat)"
  by (simp add: digit_def)

lemma dec_nat_digits: "c \<in> set (dec_nat n) \<Longrightarrow> of_char c \<in> {48..<58 :: nat}"
proof (induction n rule: dec_nat.induct)
  case (1 n)
  show ?case
  proof (cases "n < 10")
    case True
    then show ?thesis using "1.prems" of_char_digit [of n] by (subst (asm) dec_nat.simps) simp
  next
    case False
    then have "c \<in> set (dec_nat (n div 10)) \<or> c = digit (n mod 10)"
      using "1.prems" by (subst (asm) dec_nat.simps) auto
    then show ?thesis using "1.IH" [OF False] of_char_digit [of "n mod 10"] by auto
  qed
qed

lemma dec_nat_no: "of_char c \<notin> {48..<58 :: nat} \<Longrightarrow> c \<notin> set (dec_nat n)"
  using dec_nat_digits by blast

end
