(* ===== verification/Calendar.thy ===== *)
theory Calendar
  imports Formatting
begin

text \<open>
  \<^verbatim>\<open>src/netlib/base/Date.h\<close> and \<^verbatim>\<open>Date.cc\<close>: dates as Julian day numbers, with the two conversion
  formulas written with C's truncating division. The reference calendar (\<open>leap\<close>,
  \<open>days_in_month\<close>, \<open>next_date\<close>) is stated independently of the formulas.
\<close>

section \<open>Model\<close>

record YearMonthDay =
  year :: int
  month :: int
  day :: int

definition getJulianDayNumber :: "int \<Rightarrow> int \<Rightarrow> int \<Rightarrow> int" where
  "getJulianDayNumber yr mon dy =
    (let a = (14 - mon) sdiv 12;
         y = yr + 4800 - a;
         m = mon + 12 * a - 3
     in dy + (153 * m + 2) sdiv 5 + y * 365 + y sdiv 4 - y sdiv 100 + y sdiv 400 - 32045)"

definition getYearMonthDay :: "int \<Rightarrow> YearMonthDay" where
  "getYearMonthDay julianNumber =
    (let a = julianNumber + 32044;
         b = (4 * a + 3) sdiv 146097;
         c = a - (b * 146097) sdiv 4;
         d = (4 * c + 3) sdiv 1461;
         e = c - (d * 1461) sdiv 4;
         m = (5 * e + 2) sdiv 153
     in \<lparr>year = b * 100 + d - 4800 + m sdiv 10,
         month = m + 3 - 12 * (m sdiv 10),
         day = e - (153 * m + 2) sdiv 5 + 1\<rparr>)"

definition cJulianDayOf1970_01_01 :: int where
  "cJulianDayOf1970_01_01 = getJulianDayNumber 1970 1 1"

definition cDaysPerWeek :: int where
  "cDaysPerWeek = 7"

datatype Date = Date (julianDayNumber: int)

text \<open>\<open>struct tm\<close> of the C library, as far as the sources read and write it.\<close>

record tm =
  tm_sec :: int
  tm_min :: int
  tm_hour :: int
  tm_mday :: int
  tm_mon :: int
  tm_year :: int
  tm_wday :: int
  tm_yday :: int
  tm_isdst :: bool
  tm_gmtoff :: int
  tm_zone :: string

definition Date_default :: Date where
  "Date_default = Date 0"

definition Date_ymd :: "int \<Rightarrow> int \<Rightarrow> int \<Rightarrow> Date" where
  "Date_ymd y m d = Date (getJulianDayNumber y m d)"

definition Date_tm :: "tm \<Rightarrow> Date" where
  "Date_tm t = Date (getJulianDayNumber (tm_year t + 1900) (tm_mon t + 1) (tm_mday t))"

definition Date_valid :: "Date \<Rightarrow> bool" where
  "Date_valid d \<longleftrightarrow> 0 < julianDayNumber d"

definition yearMonthDay :: "Date \<Rightarrow> YearMonthDay" where
  "yearMonthDay d = getYearMonthDay (julianDayNumber d)"

definition weekDay :: "Date \<Rightarrow> int" where
  "weekDay d = (julianDayNumber d + 1) smod cDaysPerWeek"

definition toIsoString :: "Date \<Rightarrow> string" where
  "toIsoString d =
    (let ymd = yearMonthDay d
     in snd (snprintf 32 (fmt_zero 4 (year ymd) @ ''-'' @ fmt_zero 2 (month ymd) @ ''-'' @
          fmt_zero 2 (day ymd))))"

text \<open>\<open>operator<\<close> and \<open>operator==\<close> on dates compare the day numbers; they make \<open>Date\<close> a linear
  order.\<close>

instantiation Date :: linorder
begin

definition less_Date :: "Date \<Rightarrow> Date \<Rightarrow> bool" where
  "less_Date x y \<longleftrightarrow> julianDayNumber x < julianDayNumber y"

definition less_eq_Date :: "Date \<Rightarrow> Date \<Rightarrow> bool" where
  "less_eq_Date x y \<longleftrightarrow> julianDayNumber x \<le> julianDayNumber y"

instance
  by standard (auto simp: less_Date_def less_eq_Date_def Date.expand)

end

section \<open>The reference calendar\<close>

definition leap :: "int \<Rightarrow> bool" where
  "leap y \<longleftrightarrow> 4 dvd y \<and> (\<not> 100 dvd y \<or> 400 dvd y)"

definition days_in_month :: "int \<Rightarrow> int \<Rightarrow> int" where
  "days_in_month y m =
    (if m = 2 then (if leap y then 29 else 28)
     else if m \<in> {4, 6, 9, 11} then 30 else 31)"

definition valid_date :: "int \<Rightarrow> int \<Rightarrow> int \<Rightarrow> bool" where
  "valid_date y m d \<longleftrightarrow> 1 \<le> m \<and> m \<le> 12 \<and> 1 \<le> d \<and> d \<le> days_in_month y m"

definition next_date :: "int \<times> int \<times> int \<Rightarrow> int \<times> int \<times> int" where
  "next_date = (\<lambda>(y, m, d).
    if d < days_in_month y m then (y, m, d + 1)
    else if m < 12 then (y, m + 1, 1) else (y + 1, 1, 1))"

section \<open>Lemmas\<close>

text \<open>The formulas with the month counted from March: \<open>Y\<close> is the shifted year, \<open>M\<close> in 0..11.\<close>

definition march_day :: "int \<Rightarrow> int \<Rightarrow> int \<Rightarrow> int" where
  "march_day Y M dy = dy - 1 + (153 * M + 2) div 5"

lemma julian_march:
  assumes "1 \<le> mon" "mon \<le> 12" "-4799 \<le> yr"
  defines "a \<equiv> (if mon \<le> 2 then 1 else 0 :: int)"
  defines "Y \<equiv> yr + 4800 - a" and "M \<equiv> mon + 12 * a - 3"
  shows "getJulianDayNumber yr mon dy
    = march_day Y M dy + 365 * Y + Y div 4 - Y div 100 + Y div 400 - 32044"
    and "0 \<le> Y" and "0 \<le> M" and "M \<le> 11"
proof -
  have a: "(14 - mon) sdiv 12 = a"
    unfolding a_def using assms(1,2) by (simp add: sdiv_nonneg) presburger
  have yy: "yr + 4800 - a = Y" "mon + 12 * a - 3 = M" by (simp_all add: Y_def M_def)
  show Y: "0 \<le> Y" using assms(3) by (simp add: Y_def a_def)
  show M: "0 \<le> M" "M \<le> 11" using assms(1,2) by (auto simp: M_def a_def)
  have "(153 * M + 2) sdiv 5 = (153 * M + 2) div 5" "Y sdiv 4 = Y div 4"
    "Y sdiv 100 = Y div 100" "Y sdiv 400 = Y div 400"
    using Y M by (simp_all add: sdiv_nonneg)
  then show "getJulianDayNumber yr mon dy
    = march_day Y M dy + 365 * Y + Y div 4 - Y div 100 + Y div 400 - 32044"
    unfolding getJulianDayNumber_def Let_def a yy march_day_def by simp
qed

lemma century_split:
  fixes Y :: int
  shows "365 * Y + Y div 4 - Y div 100 + Y div 400
    = 36524 * (Y div 100) + Y div 100 div 4 + 365 * (Y mod 100) + Y mod 100 div 4"
proof -
  have "Y = 100 * (Y div 100) + Y mod 100" by simp
  then obtain C D where Y: "Y = 100 * C + D" "Y div 100 = C" "Y mod 100 = D" by blast
  have "Y div 400 = Y div 100 div 4" by (simp add: div_mult2_eq [of _ 100 4, symmetric] zdiv_zmult2_eq [symmetric])
  moreover have "Y div 4 = 25 * C + D div 4" using Y(1) by simp
  ultimately show ?thesis using Y by simp
qed


lemma leap_succ:
  fixes Y :: int
  assumes "leap (Y + 1)"
  shows "Y mod 100 mod 4 = 3" and "Y mod 100 = 99 \<Longrightarrow> Y div 100 mod 4 = 3"
proof -
  have "4 dvd Y + 1" using assms by (simp add: leap_def)
  then have "Y mod 4 = 3" by presburger
  then show "Y mod 100 mod 4 = 3" by (simp add: mod_mod_cancel)
  assume D: "Y mod 100 = 99"
  define C where "C = Y div 100"
  have Y: "Y + 1 = 100 * (C + 1)" using D div_mult_mod_eq [of Y 100] by (simp add: C_def)
  then have "400 dvd 100 * (C + 1)" using assms unfolding leap_def Y by auto
  then have "4 dvd C + 1" using dvd_times_left_cancel_iff [of 100 4 "C + 1"] by simp
  then show "Y div 100 mod 4 = 3" unfolding C_def [symmetric] by presburger
qed

lemma decode_century:
  fixes C D e :: int
  assumes C: "0 \<le> C" and D: "0 \<le> D" "D \<le> 99" and e: "0 \<le> e" "e \<le> 365"
    and leap: "e = 365 \<Longrightarrow> D mod 4 = 3 \<and> (D = 99 \<longrightarrow> C mod 4 = 3)"
  defines "c \<equiv> e + 365 * D + D div 4"
  defines "a \<equiv> 36524 * C + C div 4 + c"
  shows "(4 * a + 3) div 146097 = C" and "(C * 146097) div 4 = 36524 * C + C div 4"
    and "(4 * c + 3) div 1461 = D" and "(D * 1461) div 4 = 365 * D + D div 4"
proof -
  have C4: "4 * (C div 4) = C - C mod 4" "0 \<le> C mod 4" "C mod 4 \<le> 3" by presburger+
  have D4: "4 * (D div 4) = D - D mod 4" "0 \<le> D mod 4" "D mod 4 \<le> 3" by presburger+
  have c: "4 * c = 4 * e + 1461 * D - D mod 4" using D4 by (simp add: c_def)
  have cmax: "4 * c + 3 - C mod 4 < 146097"
    using c D e leap C4 D4 by (cases "e = 365"; cases "D = 99") auto
  show "(4 * a + 3) div 146097 = C"
  proof (rule int_div_pos_eq)
    show "4 * a + 3 = 146097 * C + (4 * c + 3 - C mod 4)" using C4 by (simp add: a_def)
    show "0 \<le> 4 * c + 3 - C mod 4" using C4 D e pos_imp_zdiv_nonneg_iff [of 4 D] by (simp add: c_def)
  qed (rule cmax)
  show "(4 * c + 3) div 1461 = D"
  proof (rule int_div_pos_eq)
    show "4 * c + 3 = 1461 * D + (4 * e + 3 - D mod 4)" using c by simp
    show "0 \<le> 4 * e + 3 - D mod 4" using D4 e by simp
    show "4 * e + 3 - D mod 4 < 1461" using D4 e leap by (cases "e = 365") auto
  qed
  show "(C * 146097) div 4 = 36524 * C + C div 4" "(D * 1461) div 4 = 365 * D + D div 4"
    by simp_all
qed

lemma march_month:
  assumes "0 \<le> M" "M \<le> 11" "1 \<le> dy"
    and "dy \<le> (if M = 11 then 29 else if M \<in> {1, 3, 6, 8} then 30 else 31)"
  shows "(5 * march_day Y M dy + 2) div 153 = M" and "0 \<le> march_day Y M dy"
    and "march_day Y M dy \<le> 365" and "march_day Y M dy = 365 \<longleftrightarrow> M = 11 \<and> dy = 29"
proof -
  have "M = 0 \<or> M = 1 \<or> M = 2 \<or> M = 3 \<or> M = 4 \<or> M = 5 \<or> M = 6 \<or> M = 7 \<or> M = 8 \<or> M = 9 \<or>
    M = 10 \<or> M = 11" using assms(1,2) by arith
  then show "(5 * march_day Y M dy + 2) div 153 = M" "0 \<le> march_day Y M dy"
    "march_day Y M dy \<le> 365" "march_day Y M dy = 365 \<longleftrightarrow> M = 11 \<and> dy = 29"
    using assms(3,4) unfolding march_day_def by (elim disjE; simp; arith)+
qed

text \<open>The date that \<open>getYearMonthDay\<close> decodes, from century, year of the century and day of the
  shifted year.\<close>

lemma getYearMonthDay_decode:
  fixes C D e :: int
  assumes C: "0 \<le> C" and D: "0 \<le> D" "D \<le> 99" and e: "0 \<le> e" "e \<le> 365"
    and leap: "e = 365 \<Longrightarrow> D mod 4 = 3 \<and> (D = 99 \<longrightarrow> C mod 4 = 3)"
  defines "M \<equiv> (5 * e + 2) div 153"
  shows "getYearMonthDay (36524 * C + C div 4 + (e + 365 * D + D div 4) - 32044)
    = \<lparr>year = C * 100 + D - 4800 + M div 10, month = M + 3 - 12 * (M div 10),
       day = e - (153 * M + 2) div 5 + 1\<rparr>"
proof -
  note dc = decode_century [OF C D e leap]
  have nn: "0 \<le> C div 4" "0 \<le> D div 4" using C D by simp_all
  define c where "c = e + 365 * D + D div 4"
  define a where "a = 36524 * C + C div 4 + c"
  have pos: "0 \<le> 4 * c + 3" "0 \<le> 4 * a + 3" using nn C D e by (simp_all add: c_def a_def)
  have "(4 * a + 3) div 146097 = C" using dc(1) unfolding a_def c_def .
  then have b: "(4 * a + 3) sdiv 146097 = C" using pos(2) by (simp add: sdiv_nonneg)
  have c: "a - (C * 146097) sdiv 4 = c"
    using dc(2) C by (simp add: sdiv_nonneg a_def)
  have d: "(4 * c + 3) sdiv 1461 = D"
    using dc(3) pos(1) by (simp add: sdiv_nonneg c_def)
  have e': "c - (D * 1461) sdiv 4 = e"
    using dc(4) D by (simp add: sdiv_nonneg c_def)
  have m: "(5 * e + 2) sdiv 153 = M" "0 \<le> M"
    using e unfolding M_def by (simp_all add: sdiv_nonneg)
  have f: "(153 * M + 2) sdiv 5 = (153 * M + 2) div 5" "M sdiv 10 = M div 10"
    using m(2) by (simp_all add: sdiv_nonneg)
  have "36524 * C + C div 4 + (e + 365 * D + D div 4) - 32044 + 32044 = a"
    by (simp add: a_def c_def)
  then show ?thesis
    unfolding getYearMonthDay_def Let_def by (simp only: b c d e' m f)
qed

lemma getYearMonthDay_march:
  assumes Y: "0 \<le> Y" and M: "0 \<le> M" "M \<le> 11"
    and dy: "1 \<le> dy" "dy \<le> (if M = 11 then 29 else if M \<in> {1, 3, 6, 8} then 30 else 31)"
    and leap: "M = 11 \<and> dy = 29 \<Longrightarrow> leap (Y + 1)"
  shows "getYearMonthDay (march_day Y M dy + 365 * Y + Y div 4 - Y div 100 + Y div 400 - 32044)
    = \<lparr>year = Y - 4800 + M div 10, month = M + 3 - 12 * (M div 10), day = dy\<rparr>"
proof -
  note mm = march_month [OF M dy, of Y]
  obtain C D where CD: "C = Y div 100" "D = Y mod 100" by blast
  have lp: "D mod 4 = 3 \<and> (D = 99 \<longrightarrow> C mod 4 = 3)" if "march_day Y M dy = 365"
    using that mm(4) leap leap_succ [of Y] unfolding CD by blast
  have C: "0 \<le> C" and D: "0 \<le> D" "D \<le> 99" and Y': "C * 100 + D = Y"
    using Y unfolding CD by (simp_all add: pos_imp_zdiv_nonneg_iff)
  have eq: "march_day Y M dy + 365 * Y + Y div 4 - Y div 100 + Y div 400
      = 36524 * C + C div 4 + (march_day Y M dy + 365 * D + D div 4)"
    using century_split [of Y] unfolding CD by simp
  have dy': "march_day Y M dy - (153 * M + 2) div 5 + 1 = dy" by (simp add: march_day_def)
  show ?thesis
    using getYearMonthDay_decode [OF C D mm(2,3) lp] unfolding mm(1) Y' eq dy' .
qed


lemma leap_4800: "leap (y + 4800) = leap y"
  by (simp add: leap_def dvd_add_left_iff)

lemma getYearMonthDay_getJulianDayNumber:
  assumes v: "valid_date y m d" and y: "-4799 \<le> y"
  shows "getYearMonthDay (getJulianDayNumber y m d) = \<lparr>year = y, month = m, day = d\<rparr>"
proof -
  have m: "1 \<le> m" "m \<le> 12" and d: "1 \<le> d" "d \<le> days_in_month y m"
    using v by (simp_all add: valid_date_def)
  define a where "a = (if m \<le> 2 then 1 else 0 :: int)"
  define Y where "Y = y + 4800 - a"
  define M where "M = m + 12 * a - 3"
  note jm = julian_march(1) [OF m y, of d, folded a_def, folded Y_def M_def]
    julian_march(2-4) [OF m y, folded a_def, folded Y_def M_def]
  have M10: "M div 10 = a" using m unfolding M_def a_def by auto
  have dM: "d \<le> (if M = 11 then 29 else if M \<in> {1, 3, 6, 8} then 30 else 31)"
    using d m unfolding days_in_month_def M_def a_def by (auto split: if_splits)
  have lp: "leap (Y + 1)" if "M = 11 \<and> d = 29"
  proof -
    have "m = 2" using that m unfolding M_def a_def by (auto split: if_splits)
    moreover from this have "leap y" using d that by (auto simp: days_in_month_def split: if_splits)
    ultimately show ?thesis using leap_4800 [of y] by (simp add: Y_def a_def add.commute)
  qed
  show ?thesis
    using getYearMonthDay_march [OF jm(2-4) d(1) dM lp] unfolding jm(1) M10
    by (simp add: Y_def M_def)
qed


lemma div_pred:
  fixes Y n :: int
  assumes "0 < n"
  shows "(Y - 1) div n = Y div n - (if n dvd Y then 1 else 0)"
proof (cases "n dvd Y")
  case True
  then obtain k where "Y = n * k" ..
  moreover have "(n * k - 1) div n = k - 1"
    by (rule int_div_pos_eq [of _ _ _ "n - 1"]) (use assms in \<open>auto simp: algebra_simps\<close>)
  ultimately show ?thesis using assms by simp
next
  case False
  have "Y mod n \<noteq> 0" "0 \<le> Y mod n" using False assms by (simp_all add: dvd_eq_mod_eq_0)
  then have "0 \<le> Y mod n - 1" by linarith
  moreover have "Y mod n - 1 < n" using assms pos_mod_bound [of n Y] by linarith
  moreover have "Y - 1 = n * (Y div n) + (Y mod n - 1)" by (simp add: algebra_simps)
  ultimately show ?thesis using False int_div_pos_eq [of "Y - 1" n "Y div n" "Y mod n - 1"] by simp
qed

lemma leap_step:
  fixes Y :: int
  shows "Y div 4 - Y div 100 + Y div 400
    = (Y - 1) div 4 - (Y - 1) div 100 + (Y - 1) div 400 + (if leap Y then 1 else 0)"
proof -
  have "400 dvd Y \<Longrightarrow> 100 dvd Y" "100 dvd Y \<Longrightarrow> 4 dvd Y"
    using dvd_trans [of 100 400 Y] dvd_trans [of 4 100 Y] by simp_all
  then show ?thesis
    using div_pred [of 4 Y] div_pred [of 100 Y] div_pred [of 400 Y] unfolding leap_def
    by (cases "4 dvd Y"; cases "100 dvd Y"; cases "400 dvd Y") simp_all
qed

lemma julian_day_add: "getJulianDayNumber y m (d + k) = getJulianDayNumber y m d + k"
  by (simp add: getJulianDayNumber_def Let_def)

lemma julian_month_end:
  assumes "1 \<le> m" "m < 12" "-4799 \<le> y"
  shows "getJulianDayNumber y (m + 1) 1 = getJulianDayNumber y m (days_in_month y m) + 1"
proof (cases "m = 2")
  case True
  let ?Y = "y + 4800"
  have 1: "getJulianDayNumber y 3 1
      = march_day ?Y 0 1 + 365 * ?Y + ?Y div 4 - ?Y div 100 + ?Y div 400 - 32044"
    using julian_march(1) [of 3 y 1] assms by simp
  have 2: "getJulianDayNumber y 2 d
      = march_day (?Y - 1) 11 d + 365 * (?Y - 1) + (?Y - 1) div 4
        - (?Y - 1) div 100 + (?Y - 1) div 400 - 32044" for d
    using julian_march(1) [of 2 y d] assms by simp
  have "days_in_month y 2 = (if leap ?Y then 29 else 28)"
    by (simp add: days_in_month_def leap_4800)
  with leap_step [of ?Y] show ?thesis
    unfolding True by (cases "leap ?Y") (simp_all add: 1 2 march_day_def)
next
  case False
  then have "m = 1 \<or> m = 3 \<or> m = 4 \<or> m = 5 \<or> m = 6 \<or> m = 7 \<or> m = 8 \<or> m = 9 \<or> m = 10 \<or> m = 11"
    using assms by arith
  then show ?thesis
    by (elim disjE) (simp_all add: getJulianDayNumber_def Let_def days_in_month_def sdiv_nonneg)
qed

lemma julian_year_end: "getJulianDayNumber (y + 1) 1 1 = getJulianDayNumber y 12 31 + 1"
  by (simp add: getJulianDayNumber_def Let_def sdiv_nonneg add.commute)

lemma julian_next:
  assumes "valid_date y m d" "-4799 \<le> y" "next_date (y, m, d) = (y', m', d')"
  shows "getJulianDayNumber y' m' d' = getJulianDayNumber y m d + 1"
    and "valid_date y' m' d'" and "y \<le> y'"
proof -
  have v: "1 \<le> m" "m \<le> 12" "1 \<le> d" "d \<le> days_in_month y m"
    using assms(1) by (simp_all add: valid_date_def)
  have "getJulianDayNumber y' m' d' = getJulianDayNumber y m d + 1 \<and> valid_date y' m' d' \<and> y \<le> y'"
  proof (cases "d < days_in_month y m")
    case True
    with assms(3) have "y' = y" "m' = m" "d' = d + 1" by (simp_all add: next_date_def)
    with True v show ?thesis by (simp add: valid_date_def julian_day_add)
  next
    case False
    then have d: "d = days_in_month y m" using v by simp
    show ?thesis
    proof (cases "m < 12")
      case True
      with assms(3) False have "y' = y" "m' = m + 1" "d' = 1" by (simp_all add: next_date_def)
      with True v d julian_month_end [of m y] assms(2) show ?thesis
        by (simp add: valid_date_def days_in_month_def)
    next
      case m: False
      with assms(3) False have "y' = y + 1" "m' = 1" "d' = 1" by (simp_all add: next_date_def)
      moreover have "m = 12" using m v by simp
      ultimately show ?thesis using d julian_year_end [of y]
        by (simp add: valid_date_def days_in_month_def)
    qed
  qed
  then show "getJulianDayNumber y' m' d' = getJulianDayNumber y m d + 1"
    and "valid_date y' m' d'" and "y \<le> y'" by blast+
qed

lemma julian_surj:
  assumes "getJulianDayNumber (-4799) 1 1 \<le> j"
  shows "\<exists>y m d. valid_date y m d \<and> -4799 \<le> y \<and> getJulianDayNumber y m d = j"
  using assms
proof (induction j rule: int_ge_induct)
  case base
  have "valid_date (-4799) 1 1" by (simp add: valid_date_def days_in_month_def)
  then show ?case by blast
next
  case (step j)
  then obtain y m d where v: "valid_date y m d" "-4799 \<le> y" "getJulianDayNumber y m d = j" by blast
  obtain y' m' d' where n: "next_date (y, m, d) = (y', m', d')" by (metis prod_cases3)
  from julian_next [OF v(1,2) n] v show ?case by (metis order_trans)
qed


lemma weekDay_nonneg: "-1 \<le> julianDayNumber d \<Longrightarrow> weekDay d = (julianDayNumber d + 1) mod 7"
  by (simp add: weekDay_def cDaysPerWeek_def smod_nonneg)

section \<open>Properties\<close>



text \<open>The other direction: every day number from that day on decodes to a valid calendar date,
  and the date's day number is the number itself.\<close>

theorem julian_roundtrip:
  assumes "getJulianDayNumber (-4799) 1 1 \<le> j"
  shows "let ymd = yearMonthDay (Date j) in valid_date (year ymd) (month ymd) (day ymd) \<and>
    Date_ymd (year ymd) (month ymd) (day ymd) = Date j"
proof -
  from julian_surj [OF assms] obtain y m d
    where v: "valid_date y m d" "-4799 \<le> y" "getJulianDayNumber y m d = j" by blast
  from getYearMonthDay_getJulianDayNumber [OF v(1,2)] v show ?thesis
    by (simp add: yearMonthDay_def Date_ymd_def Let_def)
qed

theorem julian_roundtrip_witness:
  "let ymd = yearMonthDay (Date 2440588) in valid_date (year ymd) (month ymd) (day ymd) \<and>
    Date_ymd (year ymd) (month ymd) (day ymd) = Date 2440588"
  by (rule julian_roundtrip) (simp add: getJulianDayNumber_def Let_def)



end
