(* ===== verification/Timestamps.thy ===== *)
theory Timestamps
  imports Calendar "HOL-Library.Log_Nat"
begin

text \<open>
  \<^verbatim>\<open>src/netlib/base/Time.h\<close> and \<^verbatim>\<open>Time.cc\<close>: microseconds since the epoch in an \<open>int64_t\<close>.

  The \<open>double\<close> arguments of \<open>addTime\<close> are modelled by their exact value: \<open>Dbl m e\<close> is
  \<open>m * 2 ^ e\<close> with a significand of at most 53 bits, and the operations round to nearest, ties to
  even, as IEEE 754 does. Infinities, NaN and results below the subnormal range are left out: they
  cannot arise from the finite arguments and the constants the sources multiply and divide by,
  except for products beyond the range of \<open>int64_t\<close>, whose conversion is undefined and here the
  fault \<open>Overflow\<close>.
\<close>

section \<open>Double arithmetic\<close>

datatype double = Dbl (mant: int) (expo: int)

definition rnd53 :: "nat \<Rightarrow> nat \<times> nat" where
  "rnd53 n =
    (let k = floorlog 2 n - 53;
         q = n div 2 ^ k;
         r = n mod 2 ^ k
     in if 2 * r < 2 ^ k \<or> (2 * r = 2 ^ k \<and> even q) then (q, k) else (q + 1, k))"

definition d_of_int :: "int \<Rightarrow> double" where
  "d_of_int n = (let (q, k) = rnd53 (nat \<bar>n\<bar>) in Dbl (sgn n * int q) (int k))"

fun d_mul :: "double \<Rightarrow> double \<Rightarrow> double" where
  "d_mul (Dbl m1 e1) (Dbl m2 e2) =
    (let (q, k) = rnd53 (nat \<bar>m1 * m2\<bar>) in Dbl (sgn (m1 * m2) * int q) (e1 + e2 + int k))"

fun d_div :: "double \<Rightarrow> double \<Rightarrow> double" where
  "d_div (Dbl m1 e1) (Dbl m2 e2) =
    (let n = nat \<bar>m1\<bar>; d = nat \<bar>m2\<bar>;
         s = floorlog 2 d + 55 - floorlog 2 n;
         q0 = n * 2 ^ s div d;
         sticky = (if n * 2 ^ s mod d = 0 then 0 else 1);
         (q, k) = rnd53 (2 * q0 + sticky)
     in Dbl (sgn (m1 * m2) * int q) (e1 - e2 - int s - 1 + int k))"

fun d_trunc :: "double \<Rightarrow> int" where
  "d_trunc (Dbl m e) = (if 0 \<le> e then m * 2 ^ nat e else m sdiv 2 ^ nat (- e))"

definition in_int64 :: "int \<Rightarrow> bool" where
  "in_int64 x \<longleftrightarrow> - (2 ^ 63) \<le> x \<and> x < 2 ^ 63"

definition int64_of_double :: "double \<Rightarrow> int res" where
  "int64_of_double d = (let t = d_trunc d in if in_int64 t then Inr t else Inl Overflow)"

section \<open>Time\<close>

datatype Time = Time (getMicroSecondsSinceEpoch: int)

definition cMicroSecondsPerSecond :: int where
  "cMicroSecondsPerSecond = 1000 * 1000"

definition Time_default :: Time where
  "Time_default = Time 0"

definition Time_pair :: "int \<Rightarrow> int \<Rightarrow> Time" where
  "Time_pair second microSeconds = Time (microSeconds + second * cMicroSecondsPerSecond)"

definition getSecondSinceEpoch :: "Time \<Rightarrow> int" where
  "getSecondSinceEpoch t = getMicroSecondsSinceEpoch t sdiv cMicroSecondsPerSecond"

definition Time_vaild :: "Time \<Rightarrow> bool" where
  "Time_vaild t \<longleftrightarrow> 0 < getMicroSecondsSinceEpoch t"

definition Time_invaild :: Time where
  "Time_invaild = Time_default"

definition fromUnixTime :: "int \<Rightarrow> int \<Rightarrow> Time" where
  "fromUnixTime t microseconds = Time (t * cMicroSecondsPerSecond + microseconds)"

text \<open>\<open>Time::now\<close> with the result of \<open>gettimeofday\<close> as its argument.\<close>

definition Time_now :: "int \<times> int \<Rightarrow> Time" where
  "Time_now tv = (let (tv_sec, tv_usec) = tv in Time_pair tv_sec tv_usec)"

definition Time_toString :: "Time \<Rightarrow> string" where
  "Time_toString t =
    (let seconds = getMicroSecondsSinceEpoch t sdiv cMicroSecondsPerSecond;
         microseconds = getMicroSecondsSinceEpoch t smod cMicroSecondsPerSecond
     in snd (snprintf 32 (dec_int seconds @ ''.'' @ fmt_zero 6 microseconds)))"

text \<open>\<open>toFormattedString\<close> with \<open>gmtime_r\<close> as a parameter.\<close>

definition toFormattedString :: "(int \<Rightarrow> tm) \<Rightarrow> bool \<Rightarrow> Time \<Rightarrow> string" where
  "toFormattedString gmtime_r showMicroSeconds time =
    (let seconds = getMicroSecondsSinceEpoch time sdiv cMicroSecondsPerSecond;
         t = gmtime_r seconds;
         stamp = fmt_pad 4 (tm_year t + 1900) @ fmt_pad 2 (tm_mon t + 1) @ fmt_pad 2 (tm_mday t) @ '' '' @
           fmt_pad 2 (tm_hour t) @ '':'' @ fmt_pad 2 (tm_min t) @ '':'' @ fmt_pad 2 (tm_sec t)
     in if showMicroSeconds
        then snd (snprintf 64 (stamp @ ''.'' @
               fmt_pad 6 (getMicroSecondsSinceEpoch time smod cMicroSecondsPerSecond)))
        else snd (snprintf 64 stamp))"

definition addTime :: "Time \<Rightarrow> double \<Rightarrow> Time res" where
  "addTime now seconds =
    rbind (int64_of_double (d_mul seconds (d_of_int cMicroSecondsPerSecond))) (\<lambda>delta.
    let us = delta + getMicroSecondsSinceEpoch now
    in if in_int64 us then Inr (Time us) else Inl Overflow)"

definition timeDifference :: "Time \<Rightarrow> Time \<Rightarrow> double res" where
  "timeDifference hight low =
    (let diff = getMicroSecondsSinceEpoch hight - getMicroSecondsSinceEpoch low
     in if in_int64 diff then Inr (d_div (d_of_int diff) (d_of_int cMicroSecondsPerSecond))
        else Inl Overflow)"

text \<open>\<open>operator<\<close> makes \<open>Time\<close> a linear order.\<close>

instantiation Time :: linorder
begin

definition less_Time :: "Time \<Rightarrow> Time \<Rightarrow> bool" where
  "less_Time l r \<longleftrightarrow> getMicroSecondsSinceEpoch l < getMicroSecondsSinceEpoch r"

definition less_eq_Time :: "Time \<Rightarrow> Time \<Rightarrow> bool" where
  "less_eq_Time l r \<longleftrightarrow> getMicroSecondsSinceEpoch l \<le> getMicroSecondsSinceEpoch r"

instance
  by standard (auto simp: less_Time_def less_eq_Time_def Time.expand)

end

section \<open>Lemmas\<close>

lemma floorlog_le_53: "n < 2 ^ 53 \<Longrightarrow> floorlog 2 n \<le> 53"
  using floorlog_leI [of n 2 53] by simp

lemma rnd53_exact: "n < 2 ^ 53 \<Longrightarrow> rnd53 n = (n, 0)"
  using floorlog_le_53 [of n] by (simp add: rnd53_def Let_def)

lemma d_of_int_million [simp]: "d_of_int cMicroSecondsPerSecond = Dbl 1000000 0"
  by (simp add: d_of_int_def cMicroSecondsPerSecond_def rnd53_exact)

text \<open>While the product of the significand and a million fits into 53 bits nothing is rounded.\<close>

lemma addTime_exact:
  assumes "\<bar>m\<bar> * 1000000 < 2 ^ 53"
    and "in_int64 (d_trunc (Dbl (m * 1000000) e))"
    and "in_int64 (d_trunc (Dbl (m * 1000000) e) + t)"
  shows "addTime (Time t) (Dbl m e) = Inr (Time (t + d_trunc (Dbl (m * 1000000) e)))"
proof -
  have "nat \<bar>m * 1000000\<bar> < 2 ^ 53" using assms(1) by (simp add: abs_mult nat_less_iff)
  then have "rnd53 (nat \<bar>m * 1000000\<bar>) = (nat \<bar>m * 1000000\<bar>, 0)" by (rule rnd53_exact)
  moreover have "sgn (m * 1000000) * \<bar>m * 1000000\<bar> = m * 1000000" by (rule mult_sgn_abs)
  ultimately have "d_mul (Dbl m e) (Dbl 1000000 0) = Dbl (m * 1000000) e" by simp
  then show ?thesis using assms(2,3) by (simp add: addTime_def int64_of_double_def Let_def add.commute)
qed

lemma d_mul_nonneg: "0 \<le> m \<Longrightarrow> 0 \<le> mant (d_mul (Dbl m e) (Dbl 1000000 0))"
  by (simp add: split_beta sgn_if)

lemma d_trunc_nonneg: "0 \<le> mant d \<Longrightarrow> 0 \<le> d_trunc d"
  by (cases d) (simp add: sdiv_nonneg pos_imp_zdiv_nonneg_iff)

text \<open>Adding a non-negative number of seconds never goes back in time.\<close>

lemma addTime_mono:
  assumes "addTime now s = Inr t" and "0 \<le> mant s"
  shows "now \<le> t"
proof -
  obtain m e where s: "s = Dbl m e" by (cases s)
  have "0 \<le> d_trunc (d_mul s (Dbl 1000000 0))"
    using d_trunc_nonneg [OF d_mul_nonneg] assms(2) s by simp
  then show ?thesis
    using assms(1) by (auto simp: addTime_def int64_of_double_def Let_def less_eq_Time_def
        rbind_eq_Inr simp del: d_mul.simps split: if_splits)
qed

section \<open>Properties\<close>

text \<open>\<open>addTime\<close> adds whole seconds exactly: for up to nine billion seconds the result is the
  time plus a million microseconds per second, with no rounding and no overflow.\<close>

theorem addTime_seconds:
  assumes "0 \<le> n" and "n \<le> 9000000000" and "0 \<le> t" and "t < 2 ^ 62"
  shows "addTime (Time t) (d_of_int n) = Inr (Time (t + 1000000 * n))"
proof -
  have "d_of_int n = Dbl n 0"
    using assms rnd53_exact [of "nat n"] by (cases "n = 0") (auto simp: d_of_int_def)
  moreover have "addTime (Time t) (Dbl n 0) = Inr (Time (t + d_trunc (Dbl (n * 1000000) 0)))"
    by (rule addTime_exact) (use assms in \<open>simp_all add: in_int64_def\<close>)
  ultimately show ?thesis by simp
qed

theorem addTime_seconds_witness: "addTime (Time 5) (d_of_int 30) = Inr (Time 30000005)"
  using addTime_seconds [of 30 5] by simp

end
