(* ===== verification/TimeZone.thy ===== *)
theory TimeZone
  imports Timestamps
begin

text \<open>
  \<^verbatim>\<open>src/netlib/base/TimeZone.h\<close> and \<^verbatim>\<open>TimeZone.cc\<close>: time zone data, its binary file format, local
  and UTC conversions. A zone file is the list of its bytes (or \<open>None\<close> when \<open>fopen\<close> fails), a
  \<open>File\<close> the bytes not yet read. The C library's \<open>gmtime_r\<close> and \<open>timegm\<close> are parameters whose
  documented behaviour is \<open>gmtime_contract\<close> and \<open>timegm_contract\<close>.
\<close>

section \<open>Model\<close>

record transition =
  gmttime :: int
  localtime :: int
  localtimeIdx :: int

record LocalTime =
  gmtOffset :: int
  isDst :: bool
  arrbIdx :: int

record Data =
  transitions :: "transition list"
  localtimes :: "LocalTime list"
  abbrviation :: string

text \<open>The vector \<open>name\<close> of \<open>TimeZone::Data\<close> is never used. \<open>Comp(gmt)\<close>: the order and equality used for searching transitions.\<close>

definition comp_less :: "bool \<Rightarrow> transition \<Rightarrow> transition \<Rightarrow> bool" where
  "comp_less compareGmt lhs rhs =
    (if compareGmt then gmttime lhs < gmttime rhs else localtime lhs < localtime rhs)"

definition comp_equal :: "bool \<Rightarrow> transition \<Rightarrow> transition \<Rightarrow> bool" where
  "comp_equal compareGmt lhs rhs =
    (if compareGmt then gmttime lhs = gmttime rhs else localtime lhs = localtime rhs)"

definition cSecondsPerDay :: int where
  "cSecondsPerDay = 24 * 60 * 60"

text \<open>\<open>minutes\<close> is \<open>unsigned\<close>.\<close>

definition fillHMS :: "int \<Rightarrow> tm \<Rightarrow> tm" where
  "fillHMS seconds t =
    (let minutes = (seconds sdiv 60) mod 2 ^ 32
     in t\<lparr>tm_sec := seconds smod 60, tm_min := minutes mod 60, tm_hour := minutes div 60\<rparr>)"

definition tm_zero :: tm where
  "tm_zero = \<lparr>tm_sec = 0, tm_min = 0, tm_hour = 0, tm_mday = 0, tm_mon = 0, tm_year = 0,
    tm_wday = 0, tm_yday = 0, tm_isdst = False, tm_gmtoff = 0, tm_zone = []\<rparr>"

subsection \<open>The zone file\<close>

type_synonym File = "byte list"

datatype 'a read = Throws string | Reads 'a File

definition readBytes :: "int \<Rightarrow> File \<Rightarrow> byte list read" where
  "readBytes n f =
    (if int (length f) < n then Throws ''no enough data''
     else Reads (take (nat n) f) (drop (nat n) f))"

definition File_readInt32 :: "File \<Rightarrow> int read" where
  "File_readInt32 f =
    (if length f < 4 then Throws ''bad int32_t data''
     else Reads (sint (bswap 4 (of_mem (take 4 f)) :: 32 word)) (drop 4 f))"

definition readUint8 :: "File \<Rightarrow> int read" where
  "readUint8 f = (case f of [] \<Rightarrow> Throws ''bad uint8_t data'' | x # f \<Rightarrow> Reads (uint x) f)"

text \<open>Reading runs inside one \<open>try\<close> block that fills \<open>data\<close> as it goes; an exception leaves what has
  been filled in so far. \<open>Left d msg\<close> is the state at a throw.\<close>

datatype 'a step = Left Data string | Next 'a Data File

definition sbind :: "'a step \<Rightarrow> ('a \<Rightarrow> Data \<Rightarrow> File \<Rightarrow> 'b step) \<Rightarrow> 'b step" where
  "sbind s k = (case s of Left d e \<Rightarrow> Left d e | Next x d f \<Rightarrow> k x d f)"

definition lift :: "(File \<Rightarrow> 'a read) \<Rightarrow> Data \<Rightarrow> File \<Rightarrow> 'a step" where
  "lift r d f = (case r f of Throws e \<Rightarrow> Left d e | Reads x f \<Rightarrow> Next x d f)"

fun read_many :: "nat \<Rightarrow> (File \<Rightarrow> 'a read) \<Rightarrow> Data \<Rightarrow> File \<Rightarrow> 'a list step" where
  "read_many 0 r d f = Next [] d f"
| "read_many (Suc n) r d f =
    sbind (lift r d f) (\<lambda>x d f. sbind (read_many n r d f) (\<lambda>xs d f. Next (x # xs) d f))"

fun read_types :: "nat \<Rightarrow> Data \<Rightarrow> File \<Rightarrow> unit step" where
  "read_types 0 d f = Next () d f"
| "read_types (Suc n) d f =
    sbind (lift File_readInt32 d f) (\<lambda>gmtoff d f.
    sbind (lift readUint8 d f) (\<lambda>isdist d f.
    sbind (lift readUint8 d f) (\<lambda>abbrind d f.
    read_types n
      (d\<lparr>localtimes := localtimes d @ [\<lparr>gmtOffset = gmtoff, isDst = isdist \<noteq> 0, arrbIdx = abbrind\<rparr>]\<rparr>) f)))"

text \<open>The loop over the transitions; an index outside \<open>localtimes\<close> is an access outside the vector.\<close>

fun add_transitions :: "(int \<times> int) list \<Rightarrow> Data \<Rightarrow> Data res" where
  "add_transitions [] d = Inr d"
| "add_transitions ((t, i) # ts) d =
    (if i < 0 \<or> int (length (localtimes d)) \<le> i then Inl OutOfRange
     else add_transitions ts
       (d\<lparr>transitions := transitions d @ [\<lparr>gmttime = t,
          localtime = t + gmtOffset (localtimes d ! nat i), localtimeIdx = i\<rparr>]\<rparr>))"

definition chars :: "byte list \<Rightarrow> string" where
  "chars = map (\<lambda>b. char_of (unat b))"

definition read_header :: "Data \<Rightarrow> File \<Rightarrow> (int \<times> int \<times> int \<times> int) step" where
  "read_header d f =
    sbind (lift (readBytes 4) d f) (\<lambda>head d f.
    if chars head \<noteq> ''TZif'' then Left d ''bad head'' else
    sbind (lift (readBytes 1) d f) (\<lambda>version d f.
    sbind (lift (readBytes 15) d f) (\<lambda>_ d f.
    sbind (lift File_readInt32 d f) (\<lambda>isgmtcnt d f.
    sbind (lift File_readInt32 d f) (\<lambda>isstdcnt d f.
    sbind (lift File_readInt32 d f) (\<lambda>leapcnt d f.
    sbind (lift File_readInt32 d f) (\<lambda>timecnt d f.
    sbind (lift File_readInt32 d f) (\<lambda>typecnt d f.
    sbind (lift File_readInt32 d f) (\<lambda>charcnt d f.
    Next (leapcnt, timecnt, typecnt, charcnt) d f)))))))))"

text \<open>The return value is \<open>true\<close> on every path, also when the file cannot be opened or an exception
  was caught. A negative \<open>charcnt\<close> declares an array of negative size in \<open>readBytes\<close>, which is
  undefined. \<open>trans.reserve(timecnt)\<close> throws \<open>std::length_error\<close>, a \<open>std::logic_error\<close>, for a
  negative count.\<close>

definition readTimeZoneFile :: "File option \<Rightarrow> Data \<Rightarrow> (bool \<times> Data) res" where
  "readTimeZoneFile zonefile data =
    (case zonefile of
       None \<Rightarrow> Inr (True, data)
     | Some f \<Rightarrow>
         (case read_header data f of
            Left d e \<Rightarrow> Inr (True, d)
          | Next (leapcnt, timecnt, typecnt, charcnt) d f \<Rightarrow>
              if timecnt < 0 then Inr (True, d) else
              case sbind (read_many (nat timecnt) File_readInt32 d f) (\<lambda>trans d f.
                   sbind (read_many (nat timecnt) readUint8 d f) (\<lambda>idxs d f.
                   sbind (read_types (nat typecnt) d f) (\<lambda>_ d f. Next (zip trans idxs) d f))) of
                Left d e \<Rightarrow> Inr (True, d)
              | Next ts d f \<Rightarrow>
                  rbind (add_transitions ts d) (\<lambda>d.
                  if charcnt < 0 then Inl OutOfRange else case lift (readBytes charcnt) d f of
                    Left d e \<Rightarrow> Inr (True, d)
                  | Next abbr d f \<Rightarrow> Inr (True, d\<lparr>abbrviation := chars abbr\<rparr>))))"

definition Data_empty :: Data where
  "Data_empty = \<lparr>transitions = [], localtimes = [], abbrviation = []\<rparr>"

text \<open>A \<open>TimeZone\<close> is its shared data pointer.\<close>

type_synonym TimeZone = "Data option"

definition TimeZone_file :: "File option \<Rightarrow> TimeZone res" where
  "TimeZone_file zonefile =
    rbind (readTimeZoneFile zonefile Data_empty) (\<lambda>(success, d). Inr (if success then Some d else None))"

definition TimeZone_fixed :: "int \<Rightarrow> string \<Rightarrow> TimeZone" where
  "TimeZone_fixed eastOfUtc tzname =
    Some (Data_empty\<lparr>localtimes := [\<lparr>gmtOffset = eastOfUtc, isDst = False, arrbIdx = 0\<rparr>],
      abbrviation := tzname\<rparr>)"

definition TimeZone_vaild :: "TimeZone \<Rightarrow> bool" where
  "TimeZone_vaild tz \<longleftrightarrow> tz \<noteq> None"

subsection \<open>Conversions\<close>

definition local_at :: "Data \<Rightarrow> int \<Rightarrow> LocalTime res" where
  "local_at d i =
    (if 0 \<le> i \<and> i < int (length (localtimes d)) then Inr (localtimes d ! nat i) else Inl OutOfRange)"

text \<open>\<open>std::lower_bound\<close> on a range partitioned by the comparison returns the first element that is
  not less than the sentry.\<close>

definition findLocalTime :: "Data \<Rightarrow> transition \<Rightarrow> bool \<Rightarrow> LocalTime res" where
  "findLocalTime d sentry gmt =
    (case transitions d of
       [] \<Rightarrow> local_at d 0
     | first # _ \<Rightarrow>
         if comp_less gmt sentry first then local_at d 0
         else
           let ts = transitions d; i = length (takeWhile (\<lambda>t. comp_less gmt t sentry) ts) in
           if i < length ts
           then if comp_equal gmt sentry (ts ! i) then local_at d (localtimeIdx (ts ! i))
                else if i = 0 then Inl AssertFail
                else local_at d (localtimeIdx (ts ! (i - 1)))
           else local_at d (localtimeIdx (last ts)))"

definition toLocalTime :: "(int \<Rightarrow> tm) \<Rightarrow> TimeZone \<Rightarrow> int \<Rightarrow> tm res" where
  "toLocalTime gmtime_r tz seconds =
    (case tz of
       None \<Rightarrow> Inl AssertFail
     | Some d \<Rightarrow>
         rbind (findLocalTime d \<lparr>gmttime = seconds, localtime = 0, localtimeIdx = 0\<rparr> True) (\<lambda>local.
         if arrbIdx local < 0 \<or> int (length (abbrviation d)) < arrbIdx local then Inl OutOfRange
         else Inr ((gmtime_r (seconds + gmtOffset local))\<lparr>tm_isdst := isDst local,
                tm_gmtoff := gmtOffset local,
                tm_zone := takeWhile (\<lambda>c. c \<noteq> CHR 0x00) (drop (nat (arrbIdx local)) (abbrviation d))\<rparr>)))"

definition fromLocalTime :: "(int \<Rightarrow> tm) \<Rightarrow> (tm \<Rightarrow> int) \<Rightarrow> TimeZone \<Rightarrow> tm \<Rightarrow> int res" where
  "fromLocalTime gmtime_r timegm tz loc =
    (case tz of
       None \<Rightarrow> Inl AssertFail
     | Some d \<Rightarrow>
         let seconds = timegm loc in
         rbind (findLocalTime d \<lparr>gmttime = 0, localtime = seconds, localtimeIdx = 0\<rparr> False) (\<lambda>local.
         if tm_isdst loc
         then rbind (toLocalTime gmtime_r tz (seconds - gmtOffset local)) (\<lambda>tryTm.
              let seconds = (if \<not> tm_isdst tryTm \<and> tm_hour tryTm = tm_hour loc \<and> tm_min tryTm = tm_min loc
                             then seconds - 3600 else seconds)
              in Inr (seconds - gmtOffset local))
         else Inr (seconds - gmtOffset local)))"

definition toUtcTime :: "int \<Rightarrow> bool \<Rightarrow> tm" where
  "toUtcTime secondsSinceEpoch yday =
    (let utc = tm_zero\<lparr>tm_zone := ''GMT''\<rparr>;
         seconds = int32 (secondsSinceEpoch smod cSecondsPerDay);
         days = int32 (secondsSinceEpoch sdiv cSecondsPerDay);
         (seconds, days) = (if seconds < 0 then (seconds + cSecondsPerDay, days - 1) else (seconds, days));
         utc = fillHMS seconds utc;
         date = Date (days + cJulianDayOf1970_01_01);
         ymd = yearMonthDay date;
         utc = utc\<lparr>tm_year := year ymd - 1900, tm_mon := month ymd - 1, tm_mday := day ymd,
           tm_wday := weekDay date\<rparr>
     in if yday
        then utc\<lparr>tm_yday := julianDayNumber date - julianDayNumber (Date_ymd (year ymd) 1 1)\<rparr>
        else utc)"

definition fromUtcTime6 :: "int \<Rightarrow> int \<Rightarrow> int \<Rightarrow> int \<Rightarrow> int \<Rightarrow> int \<Rightarrow> int" where
  "fromUtcTime6 yr mon days hour minutes seconds =
    (let date = Date_ymd yr mon days;
         secondsInDay = hour * 3600 + minutes * 60 + seconds;
         day = julianDayNumber date - cJulianDayOf1970_01_01
     in day * cSecondsPerDay + secondsInDay)"

definition fromUtcTime :: "tm \<Rightarrow> int" where
  "fromUtcTime utc =
    fromUtcTime6 (tm_year utc + 1900) (tm_mon utc + 1) (tm_mday utc) (tm_hour utc) (tm_min utc) (tm_sec utc)"


section \<open>Contracts and reference definitions\<close>

text \<open>The seconds for which the day arithmetic stays within \<open>int\<close>: from the first Julian day to
  beyond the year 1,200,000.\<close>

definition utc_range :: "int \<Rightarrow> bool" where
  "utc_range s \<longleftrightarrow> - 210866803200 \<le> s \<and> s \<le> 40000000000000"

text \<open>The calendar fields of a broken-down time are those of an instant.\<close>

definition utc_fields :: "int \<Rightarrow> tm \<Rightarrow> bool" where
  "utc_fields s t \<longleftrightarrow>
    valid_date (tm_year t + 1900) (tm_mon t + 1) (tm_mday t) \<and>
    0 \<le> tm_hour t \<and> tm_hour t < 24 \<and> 0 \<le> tm_min t \<and> tm_min t < 60 \<and> 0 \<le> tm_sec t \<and> tm_sec t < 60 \<and>
    (getJulianDayNumber (tm_year t + 1900) (tm_mon t + 1) (tm_mday t) - getJulianDayNumber 1970 1 1) * 86400 +
      tm_hour t * 3600 + tm_min t * 60 + tm_sec t = s"

text \<open>POSIX: \<open>gmtime_r\<close> breaks an instant down to its UTC calendar fields, and \<open>timegm\<close> inverts this
  whatever the zone fields are.\<close>

definition gmtime_contract :: "(int \<Rightarrow> tm) \<Rightarrow> bool" where
  "gmtime_contract gmtime_r \<longleftrightarrow> (\<forall>s. utc_range s \<longrightarrow> utc_fields s (gmtime_r s))"

definition timegm_contract :: "(tm \<Rightarrow> int) \<Rightarrow> bool" where
  "timegm_contract timegm \<longleftrightarrow> (\<forall>s t. utc_range s \<longrightarrow> utc_fields s t \<longrightarrow> timegm t = s)"

text \<open>The reference for looking up a transition: the last one at or before the instant, and the
  first local time type before all of them.\<close>

definition applicable :: "Data \<Rightarrow> int \<Rightarrow> LocalTime" where
  "applicable d s =
    localtimes d ! (case filter (\<lambda>t. gmttime t \<le> s) (transitions d) of
                      [] \<Rightarrow> 0
                    | t # ts \<Rightarrow> nat (localtimeIdx (last (t # ts))))"

definition zone_ok :: "Data \<Rightarrow> bool" where
  "zone_ok d \<longleftrightarrow> localtimes d \<noteq> [] \<and> sorted_wrt (\<lambda>t u. gmttime t < gmttime u) (transitions d) \<and>
    list_all (\<lambda>t. 0 \<le> localtimeIdx t \<and> localtimeIdx t < int (length (localtimes d))) (transitions d)"

text \<open>The encoding of a zone file: big endian counts, transition times, type indices, types and
  abbreviations, as \<^verbatim>\<open>tzfile(5)\<close> describes version 1.\<close>

definition be32 :: "int \<Rightarrow> byte list" where
  "be32 n = mem_bytes 4 (bswap 4 (word_of_int n :: 32 word))"

definition bytes :: "string \<Rightarrow> byte list" where
  "bytes = map (\<lambda>c. of_nat (of_char c))"

definition encode_type :: "LocalTime \<Rightarrow> byte list" where
  "encode_type lt = be32 (gmtOffset lt) @ [of_bool (isDst lt), word_of_int (arrbIdx lt)]"

definition encode_zone :: "Data \<Rightarrow> byte list" where
  "encode_zone d = bytes ''TZif'' @ replicate 16 0 @ be32 0 @ be32 0 @ be32 0 @
    be32 (int (length (transitions d))) @ be32 (int (length (localtimes d))) @
    be32 (int (length (abbrviation d))) @
    concat (map (\<lambda>t. be32 (gmttime t)) (transitions d)) @
    map (\<lambda>t. word_of_int (localtimeIdx t)) (transitions d) @
    concat (map encode_type (localtimes d)) @ bytes (abbrviation d)"

definition in_int32 :: "int \<Rightarrow> bool" where
  "in_int32 x \<longleftrightarrow> - (2 ^ 31) \<le> x \<and> x < 2 ^ 31"

definition encodable :: "Data \<Rightarrow> bool" where
  "encodable d \<longleftrightarrow>
    list_all (\<lambda>t. in_int32 (gmttime t) \<and> 0 \<le> localtimeIdx t \<and> localtimeIdx t < 256 \<and>
      localtimeIdx t < int (length (localtimes d)) \<and>
      localtime t = gmttime t + gmtOffset (localtimes d ! nat (localtimeIdx t))) (transitions d) \<and>
    list_all (\<lambda>lt. in_int32 (gmtOffset lt) \<and> 0 \<le> arrbIdx lt \<and> arrbIdx lt < 256) (localtimes d) \<and>
    length (transitions d) < 2 ^ 31 \<and> length (localtimes d) < 2 ^ 31 \<and> length (abbrviation d) < 2 ^ 31"

section \<open>Lemmas\<close>

subsection \<open>UTC\<close>

lemma fillHMS_fields:
  assumes "0 \<le> s" "s < 86400"
  shows "tm_sec (fillHMS s t) = s mod 60" "tm_min (fillHMS s t) = s div 60 mod 60"
    "tm_hour (fillHMS s t) = s div 3600"
proof -
  have m: "(s sdiv 60) mod 4294967296 = s div 60" using assms by (simp add: sdiv_nonneg)
  show "tm_sec (fillHMS s t) = s mod 60" "tm_min (fillHMS s t) = s div 60 mod 60"
    "tm_hour (fillHMS s t) = s div 3600"
    using assms by (simp_all add: fillHMS_def Let_def m smod_nonneg zdiv_zmult2_eq [symmetric])
qed

text \<open>C division truncates; the correction for negative instants makes it the floor.\<close>

lemma split_day:
  assumes "utc_range s"
  defines "seconds \<equiv> int32 (s smod cSecondsPerDay)" and "days \<equiv> int32 (s sdiv cSecondsPerDay)"
  shows "(if seconds < 0 then (seconds + cSecondsPerDay, days - 1) else (seconds, days))
    = (s mod 86400, s div 86400)"
proof (cases "0 \<le> s")
  case True
  then show ?thesis
    using assms(1) by (simp add: seconds_def days_def cSecondsPerDay_def sdiv_nonneg smod_nonneg utc_range_def
        int32_def)
next
  case False
  define u where "u = - s"
  have u: "s = - u" "0 < u" "u \<le> 210866803200" using False assms(1) by (simp_all add: u_def utc_range_def)
  have q: "s sdiv 86400 = - (u div 86400)" "s smod 86400 = - (u mod 86400)"
    using u by (simp_all add: signed_divide_int_def smod_int_alt_def sgn_if)
  have r: "int32 (- (u mod 86400)) = - (u mod 86400)" "int32 (- (u div 86400)) = - (u div 86400)"
    using u by (intro int32_id; simp; linarith)+
  have c: "cSecondsPerDay = 86400" by (simp add: cSecondsPerDay_def)
  have "0 \<le> u mod 86400" by simp
  then show ?thesis
    unfolding seconds_def days_def c q r unfolding u(1)
    by (auto simp: zmod_zminus1_eq_if zdiv_zminus1_eq_if)
qed

lemma julian_1970: "getJulianDayNumber 1970 1 1 = 2440588"
  by (simp add: getJulianDayNumber_def Let_def sdiv_nonneg)

lemma julian_first: "getJulianDayNumber (-4799) 1 1 = - 31738"
  by (simp add: getJulianDayNumber_def Let_def sdiv_nonneg)

lemma utc_day: "utc_range s \<Longrightarrow> 0 \<le> s div 86400 + 2440588"
  using zdiv_mono1 [of "- 210866803200" s 86400] by (simp add: utc_range_def)

lemma hms:
  assumes "0 \<le> (x::int)" "x < 86400"
  shows "0 \<le> x div 3600 \<and> x div 3600 < 24 \<and> x div 3600 * 3600 + x div 60 mod 60 * 60 + x mod 60 = x"
proof -
  obtain mi ho where q: "mi = x div 60" "ho = x div 3600" by blast
  have "ho = mi div 60" unfolding q by (simp add: zdiv_zmult2_eq [symmetric])
  then have "mi mod 60 = mi - 60 * ho" by (simp add: minus_mult_div_eq_mod)
  moreover have "x mod 60 = x - 60 * mi" by (simp add: q minus_mult_div_eq_mod)
  moreover have "0 \<le> ho" "ho < 24" using assms unfolding q by simp_all
  ultimately show ?thesis unfolding q [symmetric] by simp
qed

lemma toUtcTime_fields:
  assumes "utc_range s"
  shows "utc_fields s (toUtcTime s yday)"
    and "tm_wday (toUtcTime s yday) = (s div 86400 + 4) mod 7"
    and "yday \<Longrightarrow> tm_yday (toUtcTime s yday) = s div 86400 + 2440588 -
      getJulianDayNumber (tm_year (toUtcTime s yday) + 1900) 1 1"
proof -
  define j where "j = s div 86400 + 2440588"
  have j: "getJulianDayNumber (-4799) 1 1 \<le> j" "0 \<le> j"
    using utc_day [OF assms] by (simp_all add: j_def julian_first)
  obtain y m d where v: "valid_date y m d" "-4799 \<le> y" "getJulianDayNumber y m d = j"
    using julian_surj [OF j(1)] by blast
  have ymd: "getYearMonthDay j = \<lparr>year = y, month = m, day = d\<rparr>"
    using getYearMonthDay_getJulianDayNumber [OF v(1,2)] v(3) by simp
  have c: "cJulianDayOf1970_01_01 = 2440588" by (simp add: cJulianDayOf1970_01_01_def julian_1970)
  have w: "weekDay (Date j) = (s div 86400 + 4) mod 7"
  proof -
    have "j + 1 = s div 86400 + 4 + 7 * 348655" by (simp add: j_def)
    then show ?thesis using weekDay_nonneg [of "Date j"] j(2) by (metis (no_types, lifting) Date.sel
          mod_mult_self2 order_trans [of "-1" 0 j] neg_le_0_iff_le zero_le_one)
  qed
  have eq: "toUtcTime s yday = (let utc = (fillHMS (s mod 86400) (tm_zero\<lparr>tm_zone := ''GMT''\<rparr>))
      \<lparr>tm_year := y - 1900, tm_mon := m - 1, tm_mday := d, tm_wday := weekDay (Date j)\<rparr>
    in if yday then utc\<lparr>tm_yday := j - getJulianDayNumber y 1 1\<rparr> else utc)"
    using split_day [OF assms] ymd
    by (simp add: toUtcTime_def c j_def yearMonthDay_def Let_def Date_ymd_def)
  have r: "0 \<le> s mod 86400" "s mod 86400 < 86400" by simp_all
  note f = fillHMS_fields [OF r]
  show "utc_fields s (toUtcTime s yday)"
  proof -
    obtain ho mi se where q: "ho = s mod 86400 div 3600" "mi = s mod 86400 div 60 mod 60"
      "se = s mod 86400 mod 60" by blast
    have "tm_year (toUtcTime s yday) = y - 1900" "tm_mon (toUtcTime s yday) = m - 1"
      "tm_mday (toUtcTime s yday) = d" "tm_hour (toUtcTime s yday) = ho"
      "tm_min (toUtcTime s yday) = mi" "tm_sec (toUtcTime s yday) = se"
      unfolding eq Let_def q by (simp_all add: f)
    moreover have "0 \<le> ho" "ho < 24" "ho * 3600 + mi * 60 + se = s mod 86400"
      using hms [OF r] unfolding q by blast+
    moreover have "0 \<le> mi" "mi < 60" "0 \<le> se" "se < 60" unfolding q by (rule pos_mod_sign pos_mod_bound, simp)+
    moreover have "(j - 2440588) * 86400 + s mod 86400 = s" by (simp add: j_def)
    ultimately show ?thesis using v(1,3) by (simp add: utc_fields_def julian_1970)
  qed
  show "tm_wday (toUtcTime s yday) = (s div 86400 + 4) mod 7"
    by (simp add: eq Let_def w)
  show "yday \<Longrightarrow> tm_yday (toUtcTime s yday) = s div 86400 + 2440588 -
      getJulianDayNumber (tm_year (toUtcTime s yday) + 1900) 1 1"
    unfolding eq Let_def by (simp add: j_def)
qed

lemma fromUtcTime_fields: "utc_fields s t \<Longrightarrow> fromUtcTime t = s"
  by (simp add: utc_fields_def fromUtcTime_def fromUtcTime6_def Let_def Date_ymd_def cSecondsPerDay_def
      cJulianDayOf1970_01_01_def)

lemma own_contracts: "gmtime_contract (\<lambda>s. toUtcTime s True)" "timegm_contract fromUtcTime"
  by (simp_all add: gmtime_contract_def timegm_contract_def toUtcTime_fields fromUtcTime_fields)


subsection \<open>Looking up a transition\<close>

lemma filter_le_takeWhile:
  assumes "sorted_wrt (\<lambda>t u. gmttime t < gmttime u) ts"
  shows "filter (\<lambda>t. gmttime t \<le> s) ts =
    (let i = length (takeWhile (\<lambda>t. gmttime t < s) ts)
     in if i < length ts \<and> gmttime (ts ! i) = s then take (Suc i) ts else take i ts)"
  using assms
proof (induction ts)
  case Nil
  then show ?case by simp
next
  case (Cons t ts)
  have none: "filter (\<lambda>t. gmttime t \<le> s) ts = []" if "s \<le> gmttime t"
    using Cons.prems that by (auto simp: filter_empty_conv)
  show ?case
    using Cons none by (cases "gmttime t < s") (auto simp: Let_def)
qed

lemma findLocalTime_applicable:
  assumes "zone_ok d" and "gmttime sentry = s"
  shows "findLocalTime d sentry True = Inr (applicable d s)"
proof -
  let ?ts = "transitions d"
  let ?i = "length (takeWhile (\<lambda>t. gmttime t < s) ?ts)"
  have ok: "localtimes d \<noteq> []" "sorted_wrt (\<lambda>t u. gmttime t < gmttime u) ?ts"
    "\<And>t. t \<in> set ?ts \<Longrightarrow> local_at d (localtimeIdx t) = Inr (localtimes d ! nat (localtimeIdx t))"
    "local_at d 0 = Inr (localtimes d ! 0)"
    using assms(1) by (auto simp: zone_ok_def list_all_iff local_at_def)
  have fl: "filter (\<lambda>t. gmttime t \<le> s) ?ts =
      (if ?i < length ?ts \<and> gmttime (?ts ! ?i) = s then take (Suc ?i) ?ts else take ?i ?ts)"
    using filter_le_takeWhile [OF ok(2)] by (simp add: Let_def)
  have app: "applicable d s = localtimes d ! nat (localtimeIdx (last (take k ?ts)))"
    if "filter (\<lambda>t. gmttime t \<le> s) ?ts = take k ?ts" "0 < k" "?ts \<noteq> []" for k
    using that by (cases "take k ?ts") (auto simp: applicable_def)
  have lt: "last (take k ?ts) = ?ts ! (k - 1)" if "0 < k" "k \<le> length ?ts" for k
    using that by (subst last_conv_nth) auto
  show ?thesis
  proof (cases ?ts)
    case Nil
    then show ?thesis using ok(4) by (simp add: findLocalTime_def applicable_def)
  next
    case (Cons first rest)
    show ?thesis
    proof (cases "s < gmttime first")
      case True
      then have "filter (\<lambda>t. gmttime t \<le> s) ?ts = []"
        using ok(2) Cons by (auto simp: filter_empty_conv)
      then show ?thesis using True Cons ok(4) assms(2) by (simp add: findLocalTime_def comp_less_def applicable_def)
    next
      case False
      have "?i \<le> length ?ts" by (rule length_takeWhile_le)
      then consider (hit) "?i < length ?ts" "gmttime (?ts ! ?i) = s"
        | (mid) "?i < length ?ts" "gmttime (?ts ! ?i) \<noteq> s" | (beyond) "?i = length ?ts" by linarith
      then show ?thesis
      proof cases
        case hit
        then show ?thesis
          using False Cons assms(2) ok(3) [OF nth_mem [OF hit(1)]] fl app [of "Suc ?i"] lt [of "Suc ?i"]
          by (simp add: findLocalTime_def comp_less_def comp_equal_def Let_def)
      next
        case mid
        then have i: "0 < ?i" using False Cons by (cases "gmttime first = s") auto
        then have "?ts ! (?i - 1) \<in> set ?ts" using mid(1) by simp
        then show ?thesis
          using False Cons assms(2) ok(3) mid i fl app [of ?i] lt [of ?i]
          by (simp add: findLocalTime_def comp_less_def comp_equal_def Let_def)
      next
        case beyond
        then have "0 < ?i" "last ?ts \<in> set ?ts" using Cons by simp_all
        then show ?thesis
          using False Cons assms(2) ok(3) beyond fl app [of ?i]
          by (simp add: findLocalTime_def comp_less_def comp_equal_def Let_def)
      qed
    qed
  qed
qed


lemma findLocalTime_in: "findLocalTime d x gmt = Inr lt \<Longrightarrow> lt \<in> set (localtimes d)"
proof -
  have "local_at d i = Inr lt \<Longrightarrow> lt \<in> set (localtimes d)" for i
    by (auto simp: local_at_def split: if_splits)
  then show "findLocalTime d x gmt = Inr lt \<Longrightarrow> lt \<in> set (localtimes d)"
    by (auto simp: findLocalTime_def Let_def split: list.splits if_splits)
qed

subsection \<open>Parsing an encoded zone\<close>

lemma length_be32 [simp]: "length (be32 n) = 4"
  by (simp add: be32_def)

lemma readInt32_be32: "in_int32 n \<Longrightarrow> File_readInt32 (be32 n @ f) = Reads n f"
  by (simp add: File_readInt32_def be32_def in_int32_def sint_sbintrunc' signed_take_bit_int_eq_self)

lemma readUint8_Cons: "0 \<le> n \<Longrightarrow> n < 256 \<Longrightarrow> readUint8 (word_of_int n # f) = Reads n f"
  by (simp add: readUint8_def uint_word_of_int)

lemma sbind_Next [simp]: "sbind (Next x d f) k = k x d f"
  by (simp add: sbind_def)

lemma read_many_encoded:
  "(\<And>x f. x \<in> set xs \<Longrightarrow> r (enc x @ f) = Reads x f) \<Longrightarrow>
    read_many (length xs) r d (concat (map enc xs) @ f) = Next xs d f"
  by (induction xs) (simp_all add: lift_def)

lemma read_types_encoded:
  "list_all (\<lambda>lt. in_int32 (gmtOffset lt) \<and> 0 \<le> arrbIdx lt \<and> arrbIdx lt < 256) lts \<Longrightarrow>
    read_types (length lts) d (concat (map encode_type lts) @ f)
      = Next () (d\<lparr>localtimes := localtimes d @ lts\<rparr>) f"
proof (induction lts arbitrary: d)
  case Nil
  then show ?case by simp
next
  case (Cons lt lts)
  have b: "readUint8 (of_bool p # g) = Reads (of_bool p) g" for p g
    by (simp add: readUint8_def)
  show ?case
    using Cons by (simp add: encode_type_def lift_def readInt32_be32 b readUint8_Cons)
qed

lemma add_transitions_all:
  "list_all (\<lambda>t. 0 \<le> localtimeIdx t \<and> localtimeIdx t < int (length (localtimes d)) \<and>
      localtime t = gmttime t + gmtOffset (localtimes d ! nat (localtimeIdx t))) ts \<Longrightarrow>
    add_transitions (map (\<lambda>t. (gmttime t, localtimeIdx t)) ts) d = Inr (d\<lparr>transitions := transitions d @ ts\<rparr>)"
  by (induction ts arbitrary: d) auto

lemma chars_bytes [simp]: "chars (bytes s) = s"
proof -
  have "char_of (unat (of_nat (of_char c) :: byte)) = c" for c :: char
    by (simp add: unat_of_nat)
  then show ?thesis by (simp add: chars_def bytes_def o_def)
qed

lemma length_bytes [simp]: "length (bytes s) = length s"
  by (simp add: bytes_def)

lemma readBytes_append: "length bs = k \<Longrightarrow> n = int k \<Longrightarrow> readBytes n (bs @ f) = Reads bs f"
  by (simp add: readBytes_def)

lemma in_int32_0 [simp]: "in_int32 0"
  by (simp add: in_int32_def)

lemma read_header_encoded:
  assumes "in_int32 lc" "in_int32 tc" "in_int32 yc" "in_int32 cc"
  shows "read_header d (bytes ''TZif'' @ replicate 16 0 @ be32 0 @ be32 0 @ be32 lc @ be32 tc @ be32 yc @
    be32 cc @ f) = Next (lc, tc, yc, cc) d f"
proof -
  obtain v r :: "byte list" where "replicate 16 (0::byte) = v @ r" "length v = 1" "length r = 15"
    using that [of "[0]" "replicate 15 0"] by (simp add: numeral_eq_Suc)
  then show ?thesis
    using assms by (simp add: read_header_def lift_def readBytes_append [of _ 4] readBytes_append [of _ 1]
        readBytes_append [of _ 15] readInt32_be32)
qed

lemma readTimeZoneFile_encoded:
  assumes "encodable d"
  shows "readTimeZoneFile (Some (encode_zone d)) Data_empty = Inr (True, d)"
proof -
  let ?ts = "transitions d" and ?ls = "localtimes d" and ?a = "abbrviation d"
  have cnt: "in_int32 (int (length ?ts))" "in_int32 (int (length ?ls))" "in_int32 (int (length ?a))"
    using assms by (simp_all add: encodable_def in_int32_def)
  have ts: "read_many (length ?ts) File_readInt32 e (concat (map (\<lambda>t. be32 (gmttime t)) ?ts) @ f)
      = Next (map gmttime ?ts) e f" for e f
  proof -
    have "read_many (length (map gmttime ?ts)) File_readInt32 e (concat (map be32 (map gmttime ?ts)) @ f)
      = Next (map gmttime ?ts) e f"
      by (rule read_many_encoded) (use assms in \<open>auto simp: encodable_def list_all_iff readInt32_be32\<close>)
    then show ?thesis by (simp add: o_def)
  qed
  have ix: "read_many (length ?ts) readUint8 e (map (\<lambda>t. word_of_int (localtimeIdx t)) ?ts @ f)
      = Next (map localtimeIdx ?ts) e f" for e f
  proof -
    have "read_many (length (map localtimeIdx ?ts)) readUint8 e
        (concat (map (\<lambda>i. [word_of_int i]) (map localtimeIdx ?ts)) @ f) = Next (map localtimeIdx ?ts) e f"
      by (rule read_many_encoded) (use assms in \<open>auto simp: encodable_def list_all_iff readUint8_Cons\<close>)
    then show ?thesis by (simp add: o_def)
  qed
  have ty: "read_types (length ?ls) Data_empty (concat (map encode_type ?ls) @ f)
      = Next () (Data_empty\<lparr>localtimes := ?ls\<rparr>) f" for f
    using assms by (subst read_types_encoded) (simp_all add: encodable_def Data_empty_def)
  have tr: "add_transitions (map (\<lambda>t. (gmttime t, localtimeIdx t)) ?ts) (Data_empty\<lparr>localtimes := ?ls\<rparr>)
      = Inr (Data_empty\<lparr>localtimes := ?ls, transitions := ?ts\<rparr>)"
    using assms by (subst add_transitions_all) (auto simp: encodable_def list_all_iff Data_empty_def)
  have "zip (map gmttime ?ts) (map localtimeIdx ?ts) = map (\<lambda>t. (gmttime t, localtimeIdx t)) ?ts"
    by (simp add: zip_map_map zip_same_conv_map)
  then show ?thesis
    using read_header_encoded [OF in_int32_0 cnt, of Data_empty]
    by (simp add: readTimeZoneFile_def encode_zone_def ts ix ty tr lift_def readBytes_def)
qed

section \<open>Properties\<close>

text \<open>C27: \<open>toUtcTime\<close> is a correct \<open>gmtime\<close>, also before 1970: its fields form a valid calendar date and
  time of day that denote the given instant, the weekday is right, \<open>tm_yday\<close> counts from 1 January,
  and \<open>fromUtcTime\<close> is its inverse.\<close>

theorem utc_roundtrip:
  assumes "utc_range s"
  shows "fromUtcTime (toUtcTime s yday) = s \<and> utc_fields s (toUtcTime s yday) \<and>
    tm_wday (toUtcTime s yday) = (s div 86400 + 4) mod 7 \<and>
    tm_yday (toUtcTime s True) = s div 86400 + 2440588 -
      getJulianDayNumber (tm_year (toUtcTime s True) + 1900) 1 1"
  by (intro conjI fromUtcTime_fields toUtcTime_fields [OF assms] TrueI)

theorem utc_roundtrip_witness:
  "utc_range (- 1) \<and> fromUtcTime (toUtcTime (- 1) True) = - 1 \<and> tm_wday (toUtcTime (- 1) True) = 3"
  using utc_roundtrip [of "- 1" True] by (simp add: utc_range_def)

text \<open>C28: In a zone with sorted transitions \<open>toLocalTime\<close> applies the offset, daylight flag and
  abbreviation of the last transition at or before the instant, or of the first local time type
  before all transitions; no lookup goes out of range.\<close>

theorem toLocalTime_spec:
  assumes "zone_ok d" and "list_all (\<lambda>lt. 0 \<le> arrbIdx lt \<and> arrbIdx lt < int (length (abbrviation d))) (localtimes d)"
    and "gmtime_contract gmtime_r" and "utc_range (s + gmtOffset (applicable d s))"
  shows "\<exists>t. toLocalTime gmtime_r (Some d) s = Inr t \<and> utc_fields (s + gmtOffset (applicable d s)) t \<and>
    tm_isdst t = isDst (applicable d s) \<and> tm_gmtoff t = gmtOffset (applicable d s) \<and>
    tm_zone t = takeWhile (\<lambda>c. c \<noteq> CHR 0x00) (drop (nat (arrbIdx (applicable d s))) (abbrviation d))"
proof -
  have "applicable d s \<in> set (localtimes d)"
    using findLocalTime_applicable [OF assms(1), of "\<lparr>gmttime = s, localtime = 0, localtimeIdx = 0\<rparr>" s]
    by (intro findLocalTime_in) simp
  then have "0 \<le> arrbIdx (applicable d s)" "arrbIdx (applicable d s) < int (length (abbrviation d))"
    using assms(2) by (auto simp: list_all_iff)
  then show ?thesis
    using assms(3,4) findLocalTime_applicable [OF assms(1)]
    by (simp add: toLocalTime_def gmtime_contract_def utc_fields_def)
qed

theorem toLocalTime_spec_witness:
  "let cet = \<lparr>gmtOffset = 3600, isDst = False, arrbIdx = 0\<rparr>; cest = \<lparr>gmtOffset = 7200, isDst = True, arrbIdx = 4\<rparr>;
       d = \<lparr>transitions = [\<lparr>gmttime = 1000, localtime = 8200, localtimeIdx = 1\<rparr>],
            localtimes = [cet, cest], abbrviation = ''CET'' @ [CHR 0x00] @ ''CEST''\<rparr>
   in \<exists>t. toLocalTime (\<lambda>s. toUtcTime s True) (Some d) 1000 = Inr t \<and> utc_fields 8200 t \<and>
        tm_isdst t \<and> tm_zone t = ''CEST''"
proof -
  define d where "d = \<lparr>transitions = [\<lparr>gmttime = 1000, localtime = 8200, localtimeIdx = 1\<rparr>],
    localtimes = [\<lparr>gmtOffset = 3600, isDst = False, arrbIdx = 0\<rparr>, \<lparr>gmtOffset = 7200, isDst = True, arrbIdx = 4\<rparr>],
    abbrviation = ''CET'' @ [CHR 0x00] @ ''CEST''\<rparr>"
  have "applicable d 1000 = \<lparr>gmtOffset = 7200, isDst = True, arrbIdx = 4\<rparr>"
    by (simp add: applicable_def d_def)
  then show ?thesis
    using toLocalTime_spec [of d "\<lambda>s. toUtcTime s True" 1000] own_contracts(1)
    by (auto simp: d_def zone_ok_def utc_range_def Let_def)
qed

text \<open>In a zone of fixed offset \<open>fromLocalTime\<close> inverts \<open>toLocalTime\<close>.\<close>

theorem fixed_zone_roundtrip:
  assumes "gmtime_contract gmtime_r" and "timegm_contract timegm" and "utc_range (s + off)"
    and "toLocalTime gmtime_r (TimeZone_fixed off name) s = Inr t"
  shows "fromLocalTime gmtime_r timegm (TimeZone_fixed off name) t = Inr s"
proof -
  let ?l = "\<lparr>gmtOffset = off, isDst = False, arrbIdx = 0\<rparr>"
  have f: "findLocalTime (Data_empty\<lparr>localtimes := [?l], abbrviation := name\<rparr>) sentry gmt = Inr ?l" for sentry gmt
    by (simp add: findLocalTime_def Data_empty_def local_at_def)
  have "utc_fields (s + off) t \<and> \<not> tm_isdst t"
    using assms(1,3,4) f by (auto simp: toLocalTime_def TimeZone_fixed_def gmtime_contract_def utc_fields_def)
  then show ?thesis
    using assms(2,3) f by (simp add: fromLocalTime_def TimeZone_fixed_def timegm_contract_def Let_def)
qed

theorem fixed_zone_roundtrip_witness:
  "\<exists>t. toLocalTime (\<lambda>s. toUtcTime s True) (TimeZone_fixed 28800 ''CST'') 1000000 = Inr t \<and>
    fromLocalTime (\<lambda>s. toUtcTime s True) fromUtcTime (TimeZone_fixed 28800 ''CST'') t = Inr 1000000"
proof -
  obtain t where t: "toLocalTime (\<lambda>s. toUtcTime s True) (TimeZone_fixed 28800 ''CST'') 1000000 = Inr t"
    by (simp add: toLocalTime_def TimeZone_fixed_def findLocalTime_def Data_empty_def local_at_def)
  have "utc_range (1000000 + 28800)" by (simp add: utc_range_def)
  from fixed_zone_roundtrip [OF own_contracts this t] t show ?thesis by blast
qed

text \<open>C29: Reading a zone file gives back the zone that was encoded in it: transitions with their local
  times, local time types and abbreviations.\<close>

theorem zone_file_roundtrip:
  assumes "encodable d"
  shows "TimeZone_file (Some (encode_zone d)) = Inr (Some d)"
  using readTimeZoneFile_encoded [OF assms] by (simp add: TimeZone_file_def)

theorem zone_file_roundtrip_witness:
  "let d = \<lparr>transitions = [\<lparr>gmttime = - 5, localtime = 3595, localtimeIdx = 0\<rparr>],
            localtimes = [\<lparr>gmtOffset = 3600, isDst = True, arrbIdx = 0\<rparr>], abbrviation = ''CET''\<rparr>
   in TimeZone_file (Some (encode_zone d)) = Inr (Some d)"
  unfolding Let_def by (rule zone_file_roundtrip) (simp add: encodable_def in_int32_def)

text \<open>C30: A file that cannot be opened or has a wrong magic number still gives a zone that reports
  itself valid, and every conversion with it reads \<open>localtimes.front()\<close> of an empty vector.\<close>

theorem bad_zone_file_is_vaild:
  assumes "zonefile = None \<or> (\<exists>f. zonefile = Some f \<and> chars (take 4 f) \<noteq> ''TZif'')"
  shows "\<exists>tz. TimeZone_file zonefile = Inr tz \<and> TimeZone_vaild tz \<and>
    (\<forall>gmtime_r s. toLocalTime gmtime_r tz s = Inl OutOfRange)"
proof -
  have "readTimeZoneFile zonefile Data_empty = Inr (True, Data_empty)"
    using assms by (auto simp: readTimeZoneFile_def read_header_def sbind_def lift_def readBytes_def
        split: step.splits read.splits)
  then show ?thesis
    by (simp add: TimeZone_file_def TimeZone_vaild_def toLocalTime_def findLocalTime_def local_at_def
        Data_empty_def)
qed

theorem bad_zone_file_is_vaild_witness:
  "\<exists>tz. TimeZone_file (Some [0, 0]) = Inr tz \<and> TimeZone_vaild tz \<and>
    (\<forall>gmtime_r s. toLocalTime gmtime_r tz s = Inl OutOfRange)"
  by (rule bad_zone_file_is_vaild) (simp add: chars_def)

end
