(* ===== verification/LogStream.thy ===== *)
theory LogStream
  imports Formatting
begin

text \<open>
  \<^verbatim>\<open>src/netlib/base/LogStream.h\<close> and \<^verbatim>\<open>LogStream.cc\<close>: the fixed-size log buffer and the stream that
  formats values into it.

  A \<open>FixedBuffer\<close> is its array \<open>data\<close> (of \<open>SIZE\<close> characters) and the offset \<open>cur\<close> of its write
  pointer; the cookie function pointers, which only help a debugger to find buffers in a core file,
  are left out. Every store goes through \<open>mem_write\<close>, which is the fault \<open>OutOfRange\<close> when it would
  touch memory outside of the array, so freedom from faults is memory safety. The integer operators
  take machine words; the text that the C library prints for a \<open>double\<close> is the argument \<open>text_g\<close>
  of the operators that print one.
\<close>

section \<open>Model\<close>

definition cSmallBuffer :: nat where "cSmallBuffer = 4000"
definition cLargeBuffer :: nat where "cLargeBuffer = 4000 * 1000"

record FixedBuffer =
  fb_data :: string
  fb_cur :: nat

definition FixedBuffer_new :: "nat \<Rightarrow> FixedBuffer" where
  "FixedBuffer_new SIZE = \<lparr>fb_data = replicate SIZE (CHR 0x00), fb_cur = 0\<rparr>"

definition mem_write :: "nat \<Rightarrow> string \<Rightarrow> FixedBuffer \<Rightarrow> FixedBuffer res" where
  "mem_write i s b =
    (if length (fb_data b) < i + length s then Inl OutOfRange
     else Inr (b\<lparr>fb_data := overwrite i s (fb_data b)\<rparr>))"

definition fb_vaild :: "FixedBuffer \<Rightarrow> int" where
  "fb_vaild b = int32 (int (length (fb_data b)) - int (fb_cur b))"

definition fb_length :: "FixedBuffer \<Rightarrow> int" where
  "fb_length b = int32 (int (fb_cur b))"

definition fb_add :: "nat \<Rightarrow> FixedBuffer \<Rightarrow> FixedBuffer" where
  "fb_add len b = b\<lparr>fb_cur := fb_cur b + len\<rparr>"

definition fb_append :: "string \<Rightarrow> FixedBuffer \<Rightarrow> FixedBuffer res" where
  "fb_append buf b =
    (if int (length buf) < size_t (fb_vaild b)
     then rbind (mem_write (fb_cur b) buf b) (\<lambda>b. Inr (fb_add (length buf) b))
     else Inr b)"

definition fb_reset :: "FixedBuffer \<Rightarrow> FixedBuffer" where
  "fb_reset b = b\<lparr>fb_cur := 0\<rparr>"

definition fb_bzero :: "FixedBuffer \<Rightarrow> FixedBuffer" where
  "fb_bzero b = b\<lparr>fb_data := replicate (length (fb_data b)) (CHR 0x00)\<rparr>"

definition fb_toString :: "FixedBuffer \<Rightarrow> string" where
  "fb_toString b = take (nat (fb_length b)) (fb_data b)"

subsection \<open>Numbers\<close>

text \<open>\<open>zero\<close> points into the middle of \<open>digits\<close>, so that \<open>zero[lsd]\<close> is defined for the negative
  remainders that \<open>%\<close> gives for negative numbers.\<close>

definition digits :: string where
  "digits = ''9876543210123456789''"

definition zero_at :: "int \<Rightarrow> char" where
  "zero_at lsd = digits ! nat (9 + lsd)"

function convert_loop :: "int \<Rightarrow> string" where
  "convert_loop i =
    (let lsd = i smod 10; i = i sdiv 10
     in if i \<noteq> 0 then zero_at lsd # convert_loop i else [zero_at lsd])"
  by pat_completeness auto

termination
proof (relation "measure (\<lambda>i. nat \<bar>i\<bar>)")
  fix i x xa :: int
  assume "x = i smod 10" "xa = i sdiv 10" "xa \<noteq> 0"
  then have "i \<noteq> 0" by auto
  have "\<bar>i sdiv 10\<bar> = \<bar>i\<bar> div 10" by (cases "i = 0") (simp_all add: signed_divide_int_def abs_mult)
  then show "(xa, i) \<in> measure (\<lambda>i. nat \<bar>i\<bar>)" using \<open>i \<noteq> 0\<close> \<open>xa = _\<close> by simp
qed simp

declare convert_loop.simps [simp del]

text \<open>The characters before the terminating NUL, which \<open>convert\<close> writes too.\<close>

definition convert_text :: "int \<Rightarrow> string" where
  "convert_text v = rev (convert_loop v @ (if v < 0 then ''-'' else ''''))"

definition convert :: "nat \<Rightarrow> int \<Rightarrow> FixedBuffer \<Rightarrow> (nat \<times> FixedBuffer) res" where
  "convert p v b =
    rbind (mem_write p (convert_text v @ [CHR 0x00]) b) (\<lambda>b. Inr (length (convert_text v), b))"

definition digitsHex :: string where
  "digitsHex = ''0123456789ABCDEF''"

fun convertHex_loop :: "nat \<Rightarrow> string" where
  "convertHex_loop i =
    (let lsd = i mod 16
     in if i div 16 \<noteq> 0 then digitsHex ! lsd # convertHex_loop (i div 16) else [digitsHex ! lsd])"

declare convertHex_loop.simps [simp del]

definition convertHex :: "nat \<Rightarrow> 64 word \<Rightarrow> FixedBuffer \<Rightarrow> (nat \<times> FixedBuffer) res" where
  "convertHex p value b =
    (let s = rev (convertHex_loop (unat value))
     in rbind (mem_write p (s @ [CHR 0x00]) b) (\<lambda>b. Inr (length s, b)))"

subsection \<open>The stream\<close>

type_synonym LogStream = FixedBuffer

definition LogStream_new :: LogStream where
  "LogStream_new = FixedBuffer_new cSmallBuffer"

definition cMaxNumericSize :: int where
  "cMaxNumericSize = 32"

definition formatInteger :: "int \<Rightarrow> LogStream \<Rightarrow> LogStream res" where
  "formatInteger v s =
    (if cMaxNumericSize \<le> fb_vaild s
     then rbind (convert (fb_cur s) v s) (\<lambda>(len, s). Inr (fb_add len s))
     else Inr s)"

definition put_bool :: "bool \<Rightarrow> LogStream \<Rightarrow> LogStream res" where
  "put_bool v s = fb_append (if v then ''1'' else ''0'') s"

definition put_int :: "32 word \<Rightarrow> LogStream \<Rightarrow> LogStream res" where
  "put_int v s = formatInteger (sint v) s"

definition put_uint :: "32 word \<Rightarrow> LogStream \<Rightarrow> LogStream res" where
  "put_uint v s = formatInteger (uint v) s"

definition put_short :: "16 word \<Rightarrow> LogStream \<Rightarrow> LogStream res" where
  "put_short v s = put_int (scast v) s"

definition put_ushort :: "16 word \<Rightarrow> LogStream \<Rightarrow> LogStream res" where
  "put_ushort v s = put_uint (ucast v) s"

definition put_long :: "64 word \<Rightarrow> LogStream \<Rightarrow> LogStream res" where
  "put_long v s = formatInteger (sint v) s"

definition put_ulong :: "64 word \<Rightarrow> LogStream \<Rightarrow> LogStream res" where
  "put_ulong v s = formatInteger (uint v) s"

definition put_longlong :: "64 word \<Rightarrow> LogStream \<Rightarrow> LogStream res" where
  "put_longlong v s = formatInteger (sint v) s"

definition put_ulonglong :: "64 word \<Rightarrow> LogStream \<Rightarrow> LogStream res" where
  "put_ulonglong v s = formatInteger (uint v) s"

text \<open>\<open>text_g\<close> is what \<open>"%.12g"\<close> prints for the number; \<open>snprintf\<close> writes at most 31 of its
  characters and a NUL and returns its full length.\<close>

definition put_double :: "string \<Rightarrow> LogStream \<Rightarrow> LogStream res" where
  "put_double text_g s =
    (if cMaxNumericSize \<le> fb_vaild s
     then let (len, out) = snprintf (nat cMaxNumericSize) text_g
          in rbind (mem_write (fb_cur s) (out @ [CHR 0x00]) s) (\<lambda>s. Inr (fb_add len s))
     else Inr s)"

definition put_float :: "string \<Rightarrow> LogStream \<Rightarrow> LogStream res" where
  "put_float text_g s = put_double text_g s"

definition put_char :: "char \<Rightarrow> LogStream \<Rightarrow> LogStream res" where
  "put_char v s = fb_append [v] s"

definition strlen :: "string \<Rightarrow> nat" where
  "strlen data = length (takeWhile (\<lambda>c. c \<noteq> CHR 0x00) data)"

definition put_cstr :: "string option \<Rightarrow> LogStream \<Rightarrow> LogStream res" where
  "put_cstr data s =
    (case data of Some d \<Rightarrow> fb_append (take (strlen d) d) s | None \<Rightarrow> fb_append ''(null)'' s)"

definition put_ucstr :: "string option \<Rightarrow> LogStream \<Rightarrow> LogStream res" where
  "put_ucstr data s = put_cstr data s"

definition put_string :: "string \<Rightarrow> LogStream \<Rightarrow> LogStream res" where
  "put_string data s = fb_append data s"

definition put_buffer :: "FixedBuffer \<Rightarrow> LogStream \<Rightarrow> LogStream res" where
  "put_buffer data s = put_string (fb_toString data) s"

definition put_pointer :: "64 word \<Rightarrow> LogStream \<Rightarrow> LogStream res" where
  "put_pointer v s =
    (if cMaxNumericSize \<le> fb_vaild s
     then rbind (mem_write (fb_cur s) ''0'' s) (\<lambda>s.
          rbind (mem_write (fb_cur s + 1) ''x'' s) (\<lambda>s.
          rbind (convertHex (fb_cur s + 2) v s) (\<lambda>(n, s). Inr (fb_add (2 + n) s))))
     else Inr s)"

text \<open>\<open>LogStream::append\<close> and \<open>Fmt\<close>; \<open>text_f\<close> is what the C library prints for the format and
  value given to \<open>Fmt\<close>.\<close>

definition LogStream_append :: "string \<Rightarrow> LogStream \<Rightarrow> LogStream res" where
  "LogStream_append data s = fb_append data s"

definition resetBuffer :: "LogStream \<Rightarrow> LogStream" where
  "resetBuffer s = fb_reset s"

definition Fmt :: "string \<Rightarrow> string res" where
  "Fmt text_f =
    (let (length', data) = snprintf 32 text_f in if length' < 32 then Inr data else Inl AssertFail)"

definition put_Fmt :: "string \<Rightarrow> LogStream \<Rightarrow> LogStream res" where
  "put_Fmt fmt s = LogStream_append fmt s"

text \<open>One \<open><<\<close> of any type.\<close>

datatype item =
    ItBool bool | ItShort "16 word" | ItUShort "16 word" | ItInt "32 word" | ItUInt "32 word"
  | ItLong "64 word" | ItULong "64 word" | ItLongLong "64 word" | ItULongLong "64 word"
  | ItFloat string | ItDouble string | ItChar char | ItPointer "64 word"
  | ItCStr "string option" | ItUCStr "string option" | ItStr string | ItBuf FixedBuffer

fun put :: "item \<Rightarrow> LogStream \<Rightarrow> LogStream res" where
  "put (ItBool v) = put_bool v"
| "put (ItShort v) = put_short v"
| "put (ItUShort v) = put_ushort v"
| "put (ItInt v) = put_int v"
| "put (ItUInt v) = put_uint v"
| "put (ItLong v) = put_long v"
| "put (ItULong v) = put_ulong v"
| "put (ItLongLong v) = put_longlong v"
| "put (ItULongLong v) = put_ulonglong v"
| "put (ItFloat v) = put_float v"
| "put (ItDouble v) = put_double v"
| "put (ItChar v) = put_char v"
| "put (ItPointer v) = put_pointer v"
| "put (ItCStr v) = put_cstr v"
| "put (ItUCStr v) = put_ucstr v"
| "put (ItStr v) = put_string v"
| "put (ItBuf v) = put_buffer v"

section \<open>Specification\<close>

text \<open>A stream of capacity \<open>SIZE\<close> is abstractly the text accepted so far; an item has a text and a
  number of characters it wants to be free, and is dropped as a whole otherwise.\<close>

fun hex_nat :: "nat \<Rightarrow> string" where
  "hex_nat n = (if n < 16 then [digitsHex ! n] else hex_nat (n div 16) @ [digitsHex ! (n mod 16)])"

declare hex_nat.simps [simp del]

fun item_text :: "item \<Rightarrow> string" where
  "item_text (ItBool v) = (if v then ''1'' else ''0'')"
| "item_text (ItShort v) = dec_int (sint v)"
| "item_text (ItUShort v) = dec_int (uint v)"
| "item_text (ItInt v) = dec_int (sint v)"
| "item_text (ItUInt v) = dec_int (uint v)"
| "item_text (ItLong v) = dec_int (sint v)"
| "item_text (ItULong v) = dec_int (uint v)"
| "item_text (ItLongLong v) = dec_int (sint v)"
| "item_text (ItULongLong v) = dec_int (uint v)"
| "item_text (ItFloat v) = v"
| "item_text (ItDouble v) = v"
| "item_text (ItChar v) = [v]"
| "item_text (ItPointer v) = ''0x'' @ hex_nat (unat v)"
| "item_text (ItCStr v) = (case v of None \<Rightarrow> ''(null)'' | Some d \<Rightarrow> takeWhile (\<lambda>c. c \<noteq> CHR 0x00) d)"
| "item_text (ItUCStr v) = (case v of None \<Rightarrow> ''(null)'' | Some d \<Rightarrow> takeWhile (\<lambda>c. c \<noteq> CHR 0x00) d)"
| "item_text (ItStr v) = v"
| "item_text (ItBuf v) = fb_toString v"

definition numeric :: "item \<Rightarrow> bool" where
  "numeric x \<longleftrightarrow> (case x of ItBool _ \<Rightarrow> False | ItChar _ \<Rightarrow> False | ItCStr _ \<Rightarrow> False | ItUCStr _ \<Rightarrow> False
    | ItStr _ \<Rightarrow> False | ItBuf _ \<Rightarrow> False | _ \<Rightarrow> True)"

definition room_needed :: "item \<Rightarrow> nat" where
  "room_needed x = (if numeric x then 32 else length (item_text x) + 1)"

definition accept :: "nat \<Rightarrow> item \<Rightarrow> string \<Rightarrow> string" where
  "accept SIZE x t = (if room_needed x \<le> SIZE - length t then t @ item_text x else t)"

definition text_ok :: "item \<Rightarrow> bool" where
  "text_ok x \<longleftrightarrow> (case x of ItDouble t \<Rightarrow> length t < 32 | ItFloat t \<Rightarrow> length t < 32 | _ \<Rightarrow> True)"

definition fb_inv :: "nat \<Rightarrow> FixedBuffer \<Rightarrow> bool" where
  "fb_inv SIZE b \<longleftrightarrow> length (fb_data b) = SIZE \<and> fb_cur b \<le> SIZE \<and> SIZE < 2 ^ 31"

section \<open>Lemmas\<close>


subsection \<open>Numbers\<close>

lemma digit_chars:
  "digit 0 = CHR ''0''" "digit (Suc 0) = CHR ''1''" "digit 2 = CHR ''2''" "digit 3 = CHR ''3''" "digit 4 = CHR ''4''"
  "digit 5 = CHR ''5''" "digit 6 = CHR ''6''" "digit 7 = CHR ''7''" "digit 8 = CHR ''8''" "digit 9 = CHR ''9''"
  by code_simp+

lemma zero_at_neg: "\<bar>d\<bar> < 10 \<Longrightarrow> zero_at d = digit (nat \<bar>d\<bar>)"
proof -
  assume "\<bar>d\<bar> < 10"
  then have "d \<in> set [-9, -8, -7, -6, -5, -4, -3, -2, -1, 0, 1, 2, 3, 4, 5, 6, 7, 8, 9]" by simp arith
  then show ?thesis
    by (simp only: list.set insert_iff empty_iff, elim disjE FalseE; hypsubst)
      (code_simp+)
qed

lemma convert_loop_dec: "convert_loop i = rev (dec_nat (nat \<bar>i\<bar>))"
proof (induction i rule: convert_loop.induct)
  case (1 i)
  have q: "\<bar>i sdiv 10\<bar> = \<bar>i\<bar> div 10" by (cases "i = 0") (simp_all add: signed_divide_int_def abs_mult)
  have r: "\<bar>i smod 10\<bar> = \<bar>i\<bar> mod 10" by (cases "i = 0") (simp_all add: smod_int_alt_def abs_mult)
  have d: "zero_at (i smod 10) = digit (nat \<bar>i\<bar> mod 10)"
    using zero_at_neg [of "i smod 10"] r by (simp add: nat_mod_distrib)
  show ?case
  proof (cases "i sdiv 10 = 0")
    case True
    then have "nat \<bar>i\<bar> < 10" using q by auto
    then show ?thesis using True d by (subst convert_loop.simps, subst dec_nat.simps) simp
  next
    case False
    then have "\<not> nat \<bar>i\<bar> < 10" using q by auto
    then show ?thesis
      using False d q "1.IH" [OF refl refl] by (subst convert_loop.simps, subst dec_nat.simps)
        (simp add: nat_div_distrib)
  qed
qed

lemma convert_text_dec: "convert_text v = dec_int v"
  by (simp add: convert_text_def convert_loop_dec dec_int_def)

lemma length_dec_int: "- (10 ^ 20) < v \<Longrightarrow> v < 10 ^ 20 \<Longrightarrow> length (dec_int v) \<le> 21"
  using length_dec_nat_le [of "nat v" 20] length_dec_nat_le [of "nat (- v)" 20]
  by (auto simp: dec_int_def nat_less_iff)

lemma convertHex_loop_hex: "convertHex_loop n = rev (hex_nat n)"
proof (induction n rule: hex_nat.induct)
  case (1 n)
  then show ?case
    by (subst convertHex_loop.simps, subst hex_nat.simps) (simp add: Let_def div_eq_0_iff)
qed

lemma length_hex_nat: "n < 16 ^ k \<Longrightarrow> 0 < k \<Longrightarrow> length (hex_nat n) \<le> k"
proof (induction n arbitrary: k rule: hex_nat.induct)
  case (1 n)
  show ?case
  proof (cases "n < 16")
    case True
    then show ?thesis using "1.prems" by (subst hex_nat.simps) simp
  next
    case False
    then have k: "1 < k" using "1.prems" by (cases k; cases "k - 1") auto
    then have "n < 16 ^ (k - 1) * 16" using "1.prems" by (simp add: power_eq_if)
    then have "n div 16 < 16 ^ (k - 1)" using less_mult_imp_div_less by blast
    then have "length (hex_nat (n div 16)) \<le> k - 1" using "1.IH" [OF False] k by simp
    with False k show ?thesis by (subst hex_nat.simps) simp
  qed
qed

lemma length_signed_text: "LENGTH('a::len) \<le> 64 \<Longrightarrow> length (dec_int (sint (w :: 'a word))) \<le> 21"
proof -
  assume "LENGTH('a) \<le> 64"
  then have "2 ^ (LENGTH('a) - 1) \<le> (2 ^ 64 :: int)" by (intro power_increasing) auto
  then show ?thesis using sint_greater_eq [of w] sint_less [of w] by (intro length_dec_int) simp_all
qed

lemma length_unsigned_text: "LENGTH('a::len) \<le> 64 \<Longrightarrow> length (dec_int (uint (w :: 'a word))) \<le> 21"
proof -
  assume "LENGTH('a) \<le> 64"
  then have "2 ^ LENGTH('a) \<le> (2 ^ 64 :: int)" by (intro power_increasing) auto
  moreover obtain u where u: "u = uint w" by blast
  ultimately have "0 \<le> u" "u < 2 ^ 64" using order.strict_trans2 [OF uint_bounded [of w]] by simp_all
  then show ?thesis unfolding u [symmetric] by (intro length_dec_int) simp_all
qed

lemma length_pointer_text: "length (hex_nat (unat (w :: 64 word))) \<le> 16"
  using length_hex_nat [of "unat w" 16] unsigned_less [of w, where 'a = nat] by simp

subsection \<open>Stores\<close>

lemma fb_inv_vaild: "fb_inv SIZE b \<Longrightarrow> fb_vaild b = int (SIZE - fb_cur b)"
  by (auto simp: fb_inv_def fb_vaild_def int32_id of_nat_diff)

lemma fb_toString_take: "fb_inv SIZE b \<Longrightarrow> fb_toString b = take (fb_cur b) (fb_data b)"
  by (simp add: fb_toString_def fb_length_def fb_inv_def)

lemma length_fb_toString: "fb_inv SIZE b \<Longrightarrow> length (fb_toString b) = fb_cur b"
  by (simp add: fb_toString_take) (simp add: fb_inv_def)

text \<open>Writing at the write pointer and advancing over a prefix of what was written.\<close>

lemma write_add:
  assumes "fb_inv SIZE b" and "fb_cur b + length (s @ t) \<le> SIZE"
  shows "ok (\<lambda>b'. fb_inv SIZE (fb_add (length s) b') \<and> fb_toString (fb_add (length s) b') = fb_toString b @ s)
    (mem_write (fb_cur b) (s @ t) b)"
proof -
  let ?b = "fb_add (length s) (b\<lparr>fb_data := overwrite (fb_cur b) (s @ t) (fb_data b)\<rparr>)"
  have inv: "fb_inv SIZE ?b" using assms by (simp add: fb_inv_def fb_add_def)
  have "fb_toString ?b = fb_toString b @ s"
    unfolding fb_toString_take [OF inv] fb_toString_take [OF assms(1)]
    using assms by (simp add: fb_add_def overwrite_def fb_inv_def)
  then show ?thesis using inv assms by (simp add: mem_write_def fb_inv_def)
qed

text \<open>Both kinds of operator, on an item whose text is \<open>t\<close>: \<open>append\<close> wants one character more than
  the text, the number formatters want \<open>cMaxNumericSize\<close> characters.\<close>

definition appends :: "nat \<Rightarrow> nat \<Rightarrow> string \<Rightarrow> FixedBuffer \<Rightarrow> FixedBuffer \<Rightarrow> bool" where
  "appends SIZE room t b b' \<longleftrightarrow> fb_inv SIZE b' \<and>
    fb_toString b' = (if room \<le> SIZE - fb_cur b then fb_toString b @ t else fb_toString b)"

lemma ok_fb_append:
  assumes "fb_inv SIZE b"
  shows "ok (appends SIZE (length t + 1) t b) (fb_append t b)"
proof (cases "length t + 1 \<le> SIZE - fb_cur b")
  case True
  then have "fb_cur b + length (t @ []) \<le> SIZE" by simp
  from write_add [OF assms this] True show ?thesis
    using assms by (auto simp: fb_append_def fb_inv_vaild appends_def ok_iff fb_inv_def size_t_def)
next
  case False
  then show ?thesis
    using assms by (auto simp: fb_append_def fb_inv_vaild appends_def fb_inv_def size_t_def)
qed

lemma ok_formatInteger:
  assumes "fb_inv SIZE b" and "length (dec_int v) < 32"
  shows "ok (appends SIZE 32 (dec_int v) b) (formatInteger v b)"
proof (cases "32 \<le> SIZE - fb_cur b")
  case True
  then have "fb_cur b + length (dec_int v @ [CHR 0x00]) \<le> SIZE" using assms(2) by simp
  from write_add [OF assms(1) this] True show ?thesis
    using assms(1) by (auto simp: formatInteger_def convert_def convert_text_dec fb_inv_vaild appends_def
        cMaxNumericSize_def ok_iff)
next
  case False
  then show ?thesis
    using assms(1) by (simp add: formatInteger_def fb_inv_vaild appends_def cMaxNumericSize_def)
qed

lemma ok_put_double:
  assumes "fb_inv SIZE b" and "length t < 32"
  shows "ok (appends SIZE 32 t b) (put_double t b)"
proof (cases "32 \<le> SIZE - fb_cur b")
  case True
  then have "fb_cur b + length (t @ [CHR 0x00]) \<le> SIZE" using assms(2) by simp
  from write_add [OF assms(1) this] True show ?thesis
    using assms by (auto simp: put_double_def snprintf_def fb_inv_vaild appends_def cMaxNumericSize_def ok_iff)
next
  case False
  then show ?thesis
    using assms(1) by (simp add: put_double_def fb_inv_vaild appends_def cMaxNumericSize_def)
qed

lemma ok_put_pointer:
  assumes "fb_inv SIZE b"
  shows "ok (appends SIZE 32 (''0x'' @ hex_nat (unat v)) b) (put_pointer v b)"
proof (cases "32 \<le> SIZE - fb_cur b")
  case True
  let ?t = "''0x'' @ hex_nat (unat v)"
  have len: "fb_cur b + length (?t @ [CHR 0x00]) \<le> SIZE" using length_pointer_text [of v] True by simp
  have d: "length (fb_data b) = SIZE" using assms by (simp add: fb_inv_def)
  have room: "32 \<le> fb_vaild b" using True fb_inv_vaild [OF assms] by linarith
  have "rbind (mem_write (fb_cur b) ''0'' b) (\<lambda>s. rbind (mem_write (fb_cur s + 1) ''x'' s) (\<lambda>s.
      mem_write (fb_cur s + 2) (hex_nat (unat v) @ [CHR 0x00]) s)) = mem_write (fb_cur b) (?t @ [CHR 0x00]) b"
    using len by (auto simp: mem_write_def overwrite_def d min_def numeral_eq_Suc ac_simps)
  then have eq: "put_pointer v b
      = rbind (mem_write (fb_cur b) (?t @ [CHR 0x00]) b) (\<lambda>s. Inr (fb_add (length ?t) s))"
    using room by (simp add: put_pointer_def convertHex_def convertHex_loop_hex cMaxNumericSize_def Let_def
        flip: rbind_assoc) simp
  from write_add [OF assms len] show ?thesis using True unfolding eq by (auto simp: appends_def ok_iff)
next
  case False
  then show ?thesis
    using assms(1) by (simp add: put_pointer_def fb_inv_vaild appends_def cMaxNumericSize_def)
qed

lemma takeWhile_strlen: "take (strlen d) d = takeWhile (\<lambda>c. c \<noteq> CHR 0x00) d"
  by (simp add: strlen_def takeWhile_eq_take [symmetric])

lemma put_cstr_text: "put_cstr v = fb_append (item_text (ItCStr v))"
  by (rule ext) (simp add: put_cstr_def takeWhile_strlen split: option.split)

lemma ok_put:
  assumes "fb_inv SIZE b" and "text_ok x"
  shows "ok (appends SIZE (room_needed x) (item_text x) b) (put x b)"
proof -
  note a = ok_fb_append [OF assms(1)]
  have n: "ok (appends SIZE 32 (dec_int v) b) (formatInteger v b)" if "length (dec_int v) \<le> 21" for v
    using ok_formatInteger [OF assms(1), of v] that by simp
  have s16: "sint (scast (w :: 16 word) :: 32 word) = sint w" "uint (ucast w :: 32 word) = uint w" for w
    by (simp_all add: sint_up_scast uint_up_ucast is_up)
  show ?thesis
    using assms(2) a [of "item_text x"]
    by (cases x) (simp_all add: room_needed_def numeric_def text_ok_def put_bool_def put_short_def
        put_ushort_def put_int_def put_uint_def put_long_def put_ulong_def put_longlong_def
        put_ulonglong_def put_float_def put_char_def put_cstr_text put_ucstr_def put_string_def
        put_buffer_def ok_put_double [OF assms(1)] ok_put_pointer [OF assms(1), simplified]
        n length_signed_text length_unsigned_text s16)
qed

text \<open>A sequence of operators refines the fold of \<open>accept\<close>.\<close>

lemma ok_put_all:
  assumes "fb_inv SIZE b" and "\<And>x. x \<in> set xs \<Longrightarrow> text_ok x"
  shows "ok (\<lambda>b'. fb_inv SIZE b' \<and> fb_toString b' = fold (accept SIZE) xs (fb_toString b)) (rfold put xs b)"
  using assms
proof (induction xs arbitrary: b)
  case Nil
  then show ?case by simp
next
  case (Cons x xs)
  have "ok (appends SIZE (room_needed x) (item_text x) b) (put x b)"
    using ok_put [OF Cons.prems(1)] Cons.prems(2) by simp
  then obtain b' where b': "put x b = Inr b'" "fb_inv SIZE b'" "fb_toString b' = accept SIZE x (fb_toString b)"
    using length_fb_toString [OF Cons.prems(1)] by (auto simp: ok_iff appends_def accept_def)
  then show ?case using Cons.IH [OF b'(2)] Cons.prems(2) by simp
qed

lemma fb_inv_new: "SIZE < 2 ^ 31 \<Longrightarrow> fb_inv SIZE (FixedBuffer_new SIZE) \<and> fb_toString (FixedBuffer_new SIZE) = []"
  by (simp add: fb_inv_def FixedBuffer_new_def fb_toString_def fb_length_def)

section \<open>Properties\<close>

text \<open>C20: Any sequence of \<open><<\<close> operators on a fresh stream stays inside the 4000 characters of its
  buffer, and the text collected is the sequence of the items' texts in order, where an item that
  finds too little room (its length plus one, or 32 characters for a number) is left out as a
  whole.\<close>

theorem stream_run:
  assumes "\<And>x. x \<in> set xs \<Longrightarrow> text_ok x"
  shows "\<exists>s. rfold put xs LogStream_new = Inr s \<and> fb_toString s = fold (accept cSmallBuffer) xs [] \<and>
    length (fb_data s) = cSmallBuffer \<and> fb_cur s \<le> cSmallBuffer"
proof -
  have "fb_inv cSmallBuffer LogStream_new" "fb_toString LogStream_new = []"
    using fb_inv_new [of cSmallBuffer] by (simp_all add: LogStream_new_def cSmallBuffer_def)
  from ok_put_all [OF this(1) assms] this(2) show ?thesis by (auto simp: ok_iff fb_inv_def)
qed

theorem stream_run_witness:
  "\<exists>s. rfold put [ItStr ''x='', ItInt (- 42), ItPointer 255] LogStream_new = Inr s \<and>
    fb_toString s = ''x=-420xFF''"
proof -
  have "fold (accept cSmallBuffer) [ItStr ''x='', ItInt (- 42), ItPointer 255] [] = ''x=-420xFF''"
    by code_simp
  moreover have "x \<in> set [ItStr ''x='', ItInt (- 42), ItPointer 255] \<Longrightarrow> text_ok x" for x
    by (auto simp: text_ok_def)
  ultimately show ?thesis using stream_run [of "[ItStr ''x='', ItInt (- 42), ItPointer 255]"] by metis
qed

text \<open>\<open>convert\<close> prints every value of every integer type in decimal, the least \<open>int64_t\<close> included,
  with at most 21 characters, so that \<open>formatInteger\<close> stays within the 32 characters it reserves; and
  reading the digits back gives the value.\<close>

theorem convert_correct:
  assumes "- (2 ^ 63) \<le> v" and "v < 2 ^ 64"
  shows "convert_text v = dec_int v \<and> length (convert_text v) \<le> 21 \<and>
    (0 \<le> v \<longrightarrow> int (read_dec (convert_text v)) = v) \<and>
    (v < 0 \<longrightarrow> hd (convert_text v) = CHR ''-'' \<and> - int (read_dec (tl (convert_text v))) = v)"
  using assms length_dec_int [of v] by (simp add: convert_text_dec dec_int_def)

theorem convert_correct_witness:
  "convert_text (- 9223372036854775808) = ''-9223372036854775808''"
proof -
  have "dec_int (- 9223372036854775808) = ''-9223372036854775808''"
    by (simp add: dec_int_def dec_nat.simps digit_chars)
  then show ?thesis using convert_correct [of "- 9223372036854775808"] by simp
qed

end
