(* ===== verification/Logging.thy ===== *)
theory Logging
  imports TimeZone LogStream
begin

text \<open>
  \<^verbatim>\<open>src/netlib/base/Logging.h\<close>, \<^verbatim>\<open>Logging.cc\<close> and the thread id of \<^verbatim>\<open>CurrentThread\<close>: a log statement builds a \<open>Logger\<close>, streams its items
  and hands the finished line to the output function when the \<open>Logger\<close> is destroyed.

  \<open>LogState\<close> has the thread-local variables (the cached second and its text, the cached thread id) and the globals (level,
  zone); \<open>lines\<close> are the calls of the output function and \<open>flushes\<close> counts those of the flush function. A \<open>T\<close> object is its
  text. \<open>gmtime_r\<close>, \<open>gettid\<close>, \<open>getenv\<close> and the current time are arguments.
\<close>

section \<open>Model\<close>

datatype LogLevel = TRACE | DEBUG | INFO | WARN | ERROR | FATAL

fun level_num :: "LogLevel \<Rightarrow> nat" where
  "level_num TRACE = 0" | "level_num DEBUG = 1" | "level_num INFO = 2" | "level_num WARN = 3" | "level_num ERROR = 4"
| "level_num FATAL = 5"

definition initLogLevel :: "(string \<Rightarrow> bool) \<Rightarrow> LogLevel" where
  "initLogLevel getenv =
    (if getenv ''NETLIB_LOG_TRACE'' then TRACE else if getenv ''NETLIB_LOG_DEBUG'' then DEBUG else INFO)"

definition LogLevelName :: "LogLevel \<Rightarrow> string" where
  "LogLevelName l = [''TRACE '', ''DEBUG '', ''INFO  '', ''WARN  '', ''ERROR '', ''FATAL ''] ! level_num l"

text \<open>The part of a file name after the last slash.\<close>

definition SourceFile :: "string \<Rightarrow> string" where
  "SourceFile filename =
    (if CHR ''/'' \<in> set filename then rev (takeWhile (\<lambda>c. c \<noteq> CHR ''/'') (rev filename)) else filename)"

record LogState =
  t_lastSecond :: int
  t_time :: string
  t_cachedTid :: int
  t_tidString :: string
  t_tidStringLength :: int
  g_logLevel :: LogLevel
  g_logTimeZone :: TimeZone
  lines :: "string list"
  flushes :: nat

definition LogState_new :: "(string \<Rightarrow> bool) \<Rightarrow> LogState" where
  "LogState_new getenv = \<lparr>t_lastSecond = 0, t_time = [], t_cachedTid = 0, t_tidString = [], t_tidStringLength = 6,
    g_logLevel = initLogLevel getenv, g_logTimeZone = None, lines = [], flushes = 0\<rparr>"

definition setTimeZone :: "TimeZone \<Rightarrow> LogState \<Rightarrow> LogState" where
  "setTimeZone tz S = S\<lparr>g_logTimeZone := tz\<rparr>"

definition setLogLevel :: "LogLevel \<Rightarrow> LogState \<Rightarrow> LogState" where
  "setLogLevel level S = S\<lparr>g_logLevel := level\<rparr>"

definition cacheTid :: "int \<Rightarrow> LogState \<Rightarrow> LogState" where
  "cacheTid gettid S =
    (if t_cachedTid S = 0
     then let (n, s) = snprintf 32 (fmt_pad 5 gettid)
          in S\<lparr>t_cachedTid := gettid, t_tidStringLength := int n, t_tidString := s\<rparr>
     else S)"

definition tid :: "int \<Rightarrow> LogState \<Rightarrow> LogState" where
  "tid gettid S = (if t_cachedTid S = 0 then cacheTid gettid S else S)"

text \<open>\<open>T(str, len)\<close> asserts that \<open>len\<close> is the length of the text.\<close>

definition mk_T :: "string \<Rightarrow> int \<Rightarrow> string res" where
  "mk_T str len = (if int (strlen str) = len then Inr (take (strlen str) str) else Inl AssertFail)"

definition put_T :: "string \<Rightarrow> int \<Rightarrow> LogStream \<Rightarrow> LogStream res" where
  "put_T str len s = rbind (mk_T str len) (\<lambda>v. LogStream_append v s)"

definition put_SourceFile :: "string \<Rightarrow> LogStream \<Rightarrow> LogStream res" where
  "put_SourceFile file s = LogStream_append file s"

definition stamp :: "tm \<Rightarrow> string" where
  "stamp t = fmt_pad 4 (tm_year t + 1900) @ fmt_zero 2 (tm_mon t + 1) @ fmt_zero 2 (tm_mday t) @ '' '' @
    fmt_zero 2 (tm_hour t) @ '':'' @ fmt_zero 2 (tm_min t) @ '':'' @ fmt_zero 2 (tm_sec t)"

text \<open>The first half of \<open>formatTime\<close>: the text of the second is made when the second has changed.\<close>

definition cache_time :: "(int \<Rightarrow> tm) \<Rightarrow> int \<Rightarrow> LogState \<Rightarrow> LogState res" where
  "cache_time gmtime_r seconds S =
    (if seconds \<noteq> t_lastSecond S
     then rbind (if TimeZone_vaild (g_logTimeZone S) then toLocalTime gmtime_r (g_logTimeZone S) seconds else Inr (gmtime_r seconds)) (\<lambda>t.
       let (len, text) = snprintf 64 (stamp t)
       in if len = 17 then Inr (S\<lparr>t_lastSecond := seconds, t_time := text\<rparr>) else Inl AssertFail)
     else Inr S)"

definition formatTime :: "(int \<Rightarrow> tm) \<Rightarrow> Time \<Rightarrow> LogState \<Rightarrow> LogStream \<Rightarrow> (LogState \<times> LogStream) res" where
  "formatTime gmtime_r time S s =
    (let mincroSecondsSinceEpoch = getMicroSecondsSinceEpoch time;
         seconds = mincroSecondsSinceEpoch sdiv cMicroSecondsPerSecond;
         mincroSeconds = mincroSecondsSinceEpoch smod cMicroSecondsPerSecond
     in rbind (cache_time gmtime_r seconds S) (\<lambda>S.
        let z = (if TimeZone_vaild (g_logTimeZone S) then '' '' else ''Z ''); n = (if TimeZone_vaild (g_logTimeZone S) then 8 else 9)
        in rbind (Fmt (''.'' @ fmt_zero 6 mincroSeconds @ z)) (\<lambda>us.
           if int (length us) \<noteq> n then Inl AssertFail
           else rbind (put_T (t_time S) 17 s) (\<lambda>s. rbind (put_T us n s) (\<lambda>s. Inr (S, s))))))"

record Impl =
  im_basename :: string
  im_line :: "32 word"
  im_level :: LogLevel
  im_stream :: LogStream

definition Impl_new :: "(int \<Rightarrow> tm) \<Rightarrow> int \<Rightarrow> Time \<Rightarrow> string \<Rightarrow> 32 word \<Rightarrow> LogLevel \<Rightarrow> LogState \<Rightarrow> (LogState \<times> Impl) res" where
  "Impl_new gmtime_r gettid now filename line level S =
    rbind (formatTime gmtime_r now S LogStream_new) (\<lambda>(S, s).
    let S = tid gettid S in
    rbind (put_T (t_tidString S) (t_tidStringLength S) s) (\<lambda>s.
    rbind (put_T (LogLevelName level) 6 s) (\<lambda>s.
    Inr (S, \<lparr>im_basename = SourceFile filename, im_line = line, im_level = level, im_stream = s\<rparr>))))"

text \<open>The constructors: with a level, with a level and the name of the function, and for system errors.\<close>

definition Logger_level :: "(int \<Rightarrow> tm) \<Rightarrow> int \<Rightarrow> Time \<Rightarrow> string \<Rightarrow> 32 word \<Rightarrow> LogLevel \<Rightarrow> LogState \<Rightarrow> (LogState \<times> Impl) res" where
  "Logger_level gmtime_r gettid now filename line level S = Impl_new gmtime_r gettid now filename line level S"

definition Logger_info :: "(int \<Rightarrow> tm) \<Rightarrow> int \<Rightarrow> Time \<Rightarrow> string \<Rightarrow> 32 word \<Rightarrow> LogState \<Rightarrow> (LogState \<times> Impl) res" where
  "Logger_info gmtime_r gettid now filename line S = Impl_new gmtime_r gettid now filename line INFO S"

definition Logger_func :: "(int \<Rightarrow> tm) \<Rightarrow> int \<Rightarrow> Time \<Rightarrow> string \<Rightarrow> 32 word \<Rightarrow> LogLevel \<Rightarrow> string \<Rightarrow> LogState \<Rightarrow> (LogState \<times> Impl) res" where
  "Logger_func gmtime_r gettid now filename line level func S =
    rbind (Impl_new gmtime_r gettid now filename line level S) (\<lambda>(S, i).
    rbind (put_cstr (Some func) (im_stream i)) (\<lambda>s. rbind (put_char (CHR '' '') s) (\<lambda>s. Inr (S, i\<lparr>im_stream := s\<rparr>))))"

definition Logger_sys :: "(int \<Rightarrow> tm) \<Rightarrow> int \<Rightarrow> Time \<Rightarrow> string \<Rightarrow> 32 word \<Rightarrow> bool \<Rightarrow> LogState \<Rightarrow> (LogState \<times> Impl) res" where
  "Logger_sys gmtime_r gettid now filename line toAbort S =
    Impl_new gmtime_r gettid now filename line (if toAbort then FATAL else ERROR) S"

definition finish :: "Impl \<Rightarrow> Impl res" where
  "finish i =
    rbind (put_cstr (Some '' - '') (im_stream i)) (\<lambda>s.
    rbind (put_SourceFile (im_basename i) s) (\<lambda>s.
    rbind (put_cstr (Some '':'') s) (\<lambda>s.
    rbind (put_int (im_line i) s) (\<lambda>s.
    rbind (put_cstr (Some [CHR 0x0A]) s) (\<lambda>s. Inr (i\<lparr>im_stream := s\<rparr>))))))"

text \<open>The destructor; \<open>abort\<close> ends the process, after the state given.\<close>

datatype 'a outcome = Returns 'a | Aborts 'a

definition Logger_delete :: "LogState \<Rightarrow> Impl \<Rightarrow> LogState outcome res" where
  "Logger_delete S i =
    rbind (finish i) (\<lambda>i.
    let S = S\<lparr>lines := lines S @ [fb_toString (im_stream i)]\<rparr>
    in Inr (if im_level i = FATAL then Aborts (S\<lparr>flushes := flushes S + 1\<rparr>) else Returns S))"

text \<open>The macros: the level and the constructor they use.\<close>

datatype macro = LOG_TRACE | LOG_DEBUG | LOG_INFO | LOG_WARN | LOG_ERROR | LOG_FATAL | LOG_SYSERR | LOG_SYSFATAL

fun macro_level :: "macro \<Rightarrow> LogLevel" where
  "macro_level LOG_TRACE = TRACE" | "macro_level LOG_DEBUG = DEBUG" | "macro_level LOG_INFO = INFO" | "macro_level LOG_WARN = WARN"
| "macro_level LOG_ERROR = ERROR" | "macro_level LOG_FATAL = FATAL" | "macro_level LOG_SYSERR = ERROR" | "macro_level LOG_SYSFATAL = FATAL"

definition checks_level :: "macro \<Rightarrow> bool" where
  "checks_level m \<longleftrightarrow> m \<in> {LOG_TRACE, LOG_DEBUG, LOG_INFO}"

definition Logger_macro :: "(int \<Rightarrow> tm) \<Rightarrow> int \<Rightarrow> Time \<Rightarrow> macro \<Rightarrow> string \<Rightarrow> 32 word \<Rightarrow> string \<Rightarrow> LogState \<Rightarrow> (LogState \<times> Impl) res" where
  "Logger_macro gmtime_r gettid now m file line func S =
    (case m of
       LOG_TRACE \<Rightarrow> Logger_func gmtime_r gettid now file line TRACE func S
     | LOG_DEBUG \<Rightarrow> Logger_func gmtime_r gettid now file line DEBUG func S
     | LOG_INFO \<Rightarrow> Logger_info gmtime_r gettid now file line S
     | LOG_SYSERR \<Rightarrow> Logger_sys gmtime_r gettid now file line False S
     | LOG_SYSFATAL \<Rightarrow> Logger_sys gmtime_r gettid now file line True S
     | _ \<Rightarrow> Logger_level gmtime_r gettid now file line (macro_level m) S)"

text \<open>A whole log statement.\<close>

definition log_statement ::
    "(int \<Rightarrow> tm) \<Rightarrow> int \<Rightarrow> Time \<Rightarrow> macro \<Rightarrow> string \<Rightarrow> 32 word \<Rightarrow> string \<Rightarrow> item list \<Rightarrow> LogState \<Rightarrow> LogState outcome res" where
  "log_statement gmtime_r gettid now m file line func items S =
    (if checks_level m \<and> \<not> level_num (g_logLevel S) \<le> level_num (macro_level m) then Inr (Returns S)
     else rbind (Logger_macro gmtime_r gettid now m file line func S) (\<lambda>(S, i).
       rbind (rfold put items (im_stream i)) (\<lambda>s. Logger_delete S (i\<lparr>im_stream := s\<rparr>))))"

section \<open>Specification\<close>

text \<open>A broken-down time that the 17 characters of a time stamp can show.\<close>

definition tm_ok :: "tm \<Rightarrow> bool" where
  "tm_ok t \<longleftrightarrow> 1000 \<le> tm_year t + 1900 \<and> tm_year t + 1900 \<le> 9999 \<and> 0 \<le> tm_mon t + 1 \<and> tm_mon t + 1 < 100 \<and>
    0 \<le> tm_mday t \<and> tm_mday t < 100 \<and> 0 \<le> tm_hour t \<and> tm_hour t < 100 \<and> 0 \<le> tm_min t \<and> tm_min t < 100 \<and>
    0 \<le> tm_sec t \<and> tm_sec t < 100"

definition zone_time :: "(int \<Rightarrow> tm) \<Rightarrow> TimeZone \<Rightarrow> int \<Rightarrow> tm res" where
  "zone_time gmtime_r tz s = (if TimeZone_vaild tz then toLocalTime gmtime_r tz s else Inr (gmtime_r s))"

text \<open>What the caches hold.\<close>

definition log_inv :: "(int \<Rightarrow> tm) \<Rightarrow> int \<Rightarrow> LogState \<Rightarrow> bool" where
  "log_inv gmtime_r gettid S \<longleftrightarrow>
    (t_lastSecond S = 0 \<or>
       (\<exists>t. zone_time gmtime_r (g_logTimeZone S) (t_lastSecond S) = Inr t \<and> tm_ok t \<and> t_time S = stamp t)) \<and>
    (t_cachedTid S = 0 \<or> t_cachedTid S = gettid \<and> t_tidString S = fmt_pad 5 gettid \<and> t_tidStringLength S = int (length (fmt_pad 5 gettid)))"

text \<open>The items of a log line.\<close>

definition header_items :: "tm \<Rightarrow> int \<Rightarrow> bool \<Rightarrow> int \<Rightarrow> LogLevel \<Rightarrow> item list" where
  "header_items t us zone gettid level =
    [ItStr (stamp t), ItStr (''.'' @ fmt_zero 6 us @ (if zone then '' '' else ''Z '')), ItStr (fmt_pad 5 gettid), ItStr (LogLevelName level)]"

definition func_items :: "macro \<Rightarrow> string \<Rightarrow> item list" where
  "func_items m func = (if m = LOG_TRACE \<or> m = LOG_DEBUG then [ItCStr (Some func), ItChar (CHR '' '')] else [])"

definition trailer_items :: "string \<Rightarrow> 32 word \<Rightarrow> item list" where
  "trailer_items file line = [ItCStr (Some '' - ''), ItStr (SourceFile file), ItCStr (Some '':''), ItInt line, ItCStr (Some [CHR 0x0A])]"

definition log_line :: "item list \<Rightarrow> string" where
  "log_line items = fold (accept cSmallBuffer) items []"

section \<open>Lemmas\<close>

abbreviation NUL :: char where "NUL \<equiv> CHR 0x00"

lemma put_T_item: "NUL \<notin> set str \<Longrightarrow> int (length str) = len \<Longrightarrow> put_T str len s = put (ItStr str) s"
proof -
  assume a: "NUL \<notin> set str" "int (length str) = len"
  then have "takeWhile (\<lambda>c. c \<noteq> NUL) str = str" by (subst takeWhile_eq_all_conv) auto
  then have "strlen str = length str" by (simp only: strlen_def)
  then show ?thesis using a by (simp add: put_T_def mk_T_def LogStream_append_def put_string_def)
qed

lemma no_NUL_number [simp]: "NUL \<notin> set (dec_nat n)" "NUL \<notin> set (dec_int i)" "NUL \<notin> set (fmt_pad w i)" "0 \<le> i \<Longrightarrow> NUL \<notin> set (fmt_zero w i)"
proof -
  show d: "NUL \<notin> set (dec_nat n)" for n by (rule dec_nat_no) simp
  show "NUL \<notin> set (dec_int i)" using d by (simp add: dec_int_def)
  then show "NUL \<notin> set (fmt_pad w i)" by (simp add: fmt_pad_def Let_def)
  show "NUL \<notin> set (fmt_zero w i)" if "0 \<le> i" using that d by (simp add: fmt_zero_def Let_def)
qed

lemma length_fmt_zero2 [simp]: "0 \<le> i \<Longrightarrow> i < 100 \<Longrightarrow> length (fmt_zero 2 i) = 2"
  using length_fmt_zero [of i 2] by simp

lemma stamp_length:
  assumes "tm_ok t"
  shows "length (stamp t) = 17" and "NUL \<notin> set (stamp t)"
proof -
  have "length (dec_nat (nat (tm_year t + 1900))) = 4"
    using length_dec_nat [of 3 "nat (tm_year t + 1900)"] assms by (simp add: tm_ok_def le_nat_iff nat_less_iff)
  then have "length (fmt_pad 4 (tm_year t + 1900)) = 4" using assms by (simp add: fmt_pad_def dec_int_def tm_ok_def)
  then show "length (stamp t) = 17" "NUL \<notin> set (stamp t)" using assms by (simp_all add: stamp_def tm_ok_def)
qed

lemma cache_time_ok:
  assumes "log_inv gmtime_r gettid S" and "seconds \<noteq> 0" and "zone_time gmtime_r (g_logTimeZone S) seconds = Inr t" and "tm_ok t"
  shows "cache_time gmtime_r seconds S = Inr (S\<lparr>t_lastSecond := seconds, t_time := stamp t\<rparr>)"
proof (cases "seconds = t_lastSecond S")
  case True
  then have "t_time S = stamp t" using assms by (auto simp: log_inv_def)
  then show ?thesis using True by (simp add: cache_time_def)
next
  case False
  then show ?thesis
    using assms(3) stamp_length(1) [OF assms(4)] by (simp add: cache_time_def zone_time_def snprintf_def split: if_splits)
qed

lemma formatTime_items:
  assumes "log_inv gmtime_r gettid S" and "1000000 \<le> us" and "zone_time gmtime_r (g_logTimeZone S) (us div 1000000) = Inr t" and "tm_ok t"
  shows "formatTime gmtime_r (Time us) S s =
    rbind (rfold put [ItStr (stamp t), ItStr (''.'' @ fmt_zero 6 (us mod 1000000) @ (if TimeZone_vaild (g_logTimeZone S) then '' '' else ''Z ''))] s)
      (\<lambda>s. Inr (S\<lparr>t_lastSecond := us div 1000000, t_time := stamp t\<rparr>, s))"
proof -
  let ?z = "if TimeZone_vaild (g_logTimeZone S) then '' '' else ''Z ''"
  have d: "us sdiv cMicroSecondsPerSecond = us div 1000000" "us smod cMicroSecondsPerSecond = us mod 1000000"
    using assms(2) by (simp_all add: cMicroSecondsPerSecond_def sdiv_nonneg smod_nonneg)
  have "us div 1000000 \<noteq> 0" using assms(2) by (simp add: div_int_pos_iff zdiv_eq_0_iff)
  note c = cache_time_ok [OF assms(1) this assms(3,4)]
  have l: "length (fmt_zero 6 (us mod 1000000)) = 6" using length_fmt_zero [of "us mod 1000000" 6] by simp
  then have f: "Fmt (''.'' @ fmt_zero 6 (us mod 1000000) @ ?z) = Inr (''.'' @ fmt_zero 6 (us mod 1000000) @ ?z)"
    by (simp add: Fmt_def snprintf_def)
  note p = put_T_item [of "stamp t" 17] put_T_item [of "''.'' @ fmt_zero 6 (us mod 1000000) @ ?z" "if TimeZone_vaild (g_logTimeZone S) then 8 else 9"]
  show ?thesis
    unfolding formatTime_def Time.sel d c Let_def rbind_Inr using f l p stamp_length [OF assms(4)] by (simp del: put.simps)
qed

lemma tid_ok:
  assumes "log_inv gmtime_r gettid S" and "0 < gettid" and "gettid < 2 ^ 31"
  shows "\<exists>S'. tid gettid S = S' \<and> t_tidString S' = fmt_pad 5 gettid \<and> t_tidStringLength S' = int (length (fmt_pad 5 gettid)) \<and>
    t_cachedTid S' = gettid \<and> lines S' = lines S \<and> flushes S' = flushes S \<and> g_logTimeZone S' = g_logTimeZone S \<and>
    g_logLevel S' = g_logLevel S \<and> t_lastSecond S' = t_lastSecond S \<and> t_time S' = t_time S"
proof -
  have "length (dec_nat (nat gettid)) \<le> 10" using length_dec_nat_le [of "nat gettid" 10] assms(3) by simp
  then have "length (fmt_pad 5 gettid) \<le> 31" using assms(2) by (simp add: fmt_pad_def dec_int_def Let_def)
  then show ?thesis using assms by (auto simp: tid_def cacheTid_def snprintf_def log_inv_def)
qed

text \<open>Everything a log statement streams, as one sequence of items.\<close>

lemma level_name: "length (LogLevelName l) = 6" "NUL \<notin> set (LogLevelName l)"
  by (cases l; simp add: LogLevelName_def)+

definition cached :: "int \<Rightarrow> int \<Rightarrow> tm \<Rightarrow> LogState \<Rightarrow> LogState" where
  "cached gettid us t S = tid gettid (S\<lparr>t_lastSecond := us div 1000000, t_time := stamp t\<rparr>)"

text \<open>The surroundings of a log statement at \<open>us\<close> microseconds: the caches, the thread id, a time from the second second of
  the epoch on that the zone can break down to \<open>t\<close>.\<close>

definition can_log :: "(int \<Rightarrow> tm) \<Rightarrow> int \<Rightarrow> int \<Rightarrow> LogState \<Rightarrow> tm \<Rightarrow> bool" where
  "can_log gmtime_r gettid us S t \<longleftrightarrow> log_inv gmtime_r gettid S \<and> 0 < gettid \<and> gettid < 2 ^ 31 \<and> 1000000 \<le> us \<and>
    zone_time gmtime_r (g_logTimeZone S) (us div 1000000) = Inr t \<and> tm_ok t"

lemma cached_ok:
  assumes "can_log gmtime_r gettid us S t"
  shows "log_inv gmtime_r gettid (cached gettid us t S)" and "lines (cached gettid us t S) = lines S"
    and "flushes (cached gettid us t S) = flushes S" and "t_tidString (cached gettid us t S) = fmt_pad 5 gettid"
    and "t_tidStringLength (cached gettid us t S) = int (length (fmt_pad 5 gettid))"
proof -
  have "log_inv gmtime_r gettid (S\<lparr>t_lastSecond := us div 1000000, t_time := stamp t\<rparr>)" "0 < gettid" "gettid < 2 ^ 31"
    using assms by (auto simp: log_inv_def can_log_def)
  from tid_ok [OF this] show "log_inv gmtime_r gettid (cached gettid us t S)" "lines (cached gettid us t S) = lines S"
    "flushes (cached gettid us t S) = flushes S" "t_tidString (cached gettid us t S) = fmt_pad 5 gettid"
    "t_tidStringLength (cached gettid us t S) = int (length (fmt_pad 5 gettid))"
    using assms by (auto simp: cached_def log_inv_def can_log_def)
qed

lemma Impl_new_items:
  assumes "can_log gmtime_r gettid us S t"
  shows "Impl_new gmtime_r gettid (Time us) file line level S =
    rbind (rfold put (header_items t (us mod 1000000) (TimeZone_vaild (g_logTimeZone S)) gettid level) LogStream_new) (\<lambda>s.
      Inr (cached gettid us t S, \<lparr>im_basename = SourceFile file, im_line = line, im_level = level, im_stream = s\<rparr>))"
proof -
  have "log_inv gmtime_r gettid S" "1000000 \<le> us" "zone_time gmtime_r (g_logTimeZone S) (us div 1000000) = Inr t" "tm_ok t"
    using assms by (simp_all add: can_log_def)
  note f = formatTime_items [OF this] and c = cached_ok [OF assms]
  have p: "put_T (t_tidString (cached gettid us t S)) (t_tidStringLength (cached gettid us t S)) = put (ItStr (fmt_pad 5 gettid))"
    "put_T (LogLevelName level) 6 = put (ItStr (LogLevelName level))"
    using c(4,5) level_name by (auto simp: put_T_item)
  show ?thesis
    unfolding Impl_new_def f header_items_def cached_def [symmetric] Let_def
    using p by (simp add: cached_def [symmetric] del: put.simps)
qed

lemma finish_items:
  "finish \<lparr>im_basename = SourceFile file, im_line = line, im_level = level, im_stream = s\<rparr> =
    rbind (rfold put (trailer_items file line) s) (\<lambda>s.
      Inr \<lparr>im_basename = SourceFile file, im_line = line, im_level = level, im_stream = s\<rparr>)"
  by (simp add: finish_def trailer_items_def put_SourceFile_def LogStream_append_def put_string_def)

lemma Logger_macro_items:
  assumes "can_log gmtime_r gettid us S t"
  shows "Logger_macro gmtime_r gettid (Time us) m file line func S =
    rbind (rfold put (header_items t (us mod 1000000) (TimeZone_vaild (g_logTimeZone S)) gettid (macro_level m) @ func_items m func) LogStream_new) (\<lambda>s.
      Inr (cached gettid us t S, \<lparr>im_basename = SourceFile file, im_line = line, im_level = macro_level m, im_stream = s\<rparr>))"
  using Impl_new_items [OF assms, of "file" "line" "macro_level m"]
  by (cases m) (simp_all add: Logger_macro_def Logger_func_def Logger_info_def Logger_sys_def Logger_level_def func_items_def rfold_append)

definition all_items :: "tm \<Rightarrow> int \<Rightarrow> bool \<Rightarrow> int \<Rightarrow> macro \<Rightarrow> string \<Rightarrow> 32 word \<Rightarrow> string \<Rightarrow> item list \<Rightarrow> item list" where
  "all_items t us zone gettid m file line func items =
    header_items t us zone gettid (macro_level m) @ func_items m func @ items @ trailer_items file line"

lemma log_statement_items:
  assumes "can_log gmtime_r gettid us S t" and "checks_level m \<longrightarrow> level_num (g_logLevel S) \<le> level_num (macro_level m)"
  shows "log_statement gmtime_r gettid (Time us) m file line func items S =
    rbind (rfold put (all_items t (us mod 1000000) (TimeZone_vaild (g_logTimeZone S)) gettid m file line func items) LogStream_new) (\<lambda>s.
      let S' = (cached gettid us t S)\<lparr>lines := lines (cached gettid us t S) @ [fb_toString s]\<rparr>
      in Inr (if macro_level m = FATAL then Aborts (S'\<lparr>flushes := flushes S' + 1\<rparr>) else Returns S'))"
proof -
  have "\<not> (checks_level m \<and> \<not> level_num (g_logLevel S) \<le> level_num (macro_level m))" using assms(2) by blast
  then show ?thesis
    using Logger_macro_items [OF assms(1), of m "file" "line" func] finish_items [of "file" "line" "macro_level m"]
    by (simp only: log_statement_def if_False) (simp add: Logger_delete_def all_items_def rfold_append)
qed

lemma log_statement_ok:
  assumes "can_log gmtime_r gettid us S t" and "\<And>x. x \<in> set items \<Longrightarrow> text_ok x"
    and "\<not> (checks_level m \<and> level_num (macro_level m) < level_num (g_logLevel S))"
  shows "\<exists>S'. log_statement gmtime_r gettid (Time us) m fi li fu items S =
      Inr (if macro_level m = FATAL then Aborts S' else Returns S') \<and>
    log_inv gmtime_r gettid S' \<and> flushes S' = flushes S + (if macro_level m = FATAL then 1 else 0) \<and>
    g_logLevel S' = g_logLevel S \<and> g_logTimeZone S' = g_logTimeZone S \<and>
    lines S' = lines S @ [log_line (all_items t (us mod 1000000) (TimeZone_vaild (g_logTimeZone S)) gettid m fi li fu items)] \<and>
    length (log_line (all_items t (us mod 1000000) (TimeZone_vaild (g_logTimeZone S)) gettid m fi li fu items)) \<le> cSmallBuffer"
proof -
  let ?xs = "all_items t (us mod 1000000) (TimeZone_vaild (g_logTimeZone S)) gettid m fi li fu items"
  have "fb_inv cSmallBuffer LogStream_new" "fb_toString LogStream_new = []"
    using fb_inv_new [of cSmallBuffer] by (simp_all add: LogStream_new_def cSmallBuffer_def)
  moreover have "\<And>x. x \<in> set ?xs \<Longrightarrow> text_ok x"
    using assms(2) by (auto simp: all_items_def header_items_def func_items_def trailer_items_def text_ok_def split: if_splits)
  ultimately obtain s where s: "rfold put ?xs LogStream_new = Inr s" "fb_toString s = log_line ?xs" "fb_inv cSmallBuffer s"
    using ok_put_all [of cSmallBuffer LogStream_new ?xs] by (auto simp: ok_iff log_line_def)
  have c: "checks_level m \<longrightarrow> level_num (g_logLevel S) \<le> level_num (macro_level m)" using assms(3) by auto
  let ?S = "(cached gettid us t S)\<lparr>lines := lines S @ [log_line ?xs], flushes := flushes S + (if macro_level m = FATAL then 1 else 0)\<rparr>"
  have "log_statement gmtime_r gettid (Time us) m fi li fu items S = Inr (if macro_level m = FATAL then Aborts ?S else Returns ?S)"
    unfolding log_statement_items [OF assms(1) c] s(1) using s(2) cached_ok [OF assms(1)] by (simp add: Let_def)
  moreover have "log_inv gmtime_r gettid ?S" using cached_ok(1) [OF assms(1)] by (simp add: log_inv_def)
  moreover have "g_logLevel ?S = g_logLevel S" "g_logTimeZone ?S = g_logTimeZone S"
    by (simp_all add: cached_def tid_def cacheTid_def snprintf_def)
  moreover have "length (log_line ?xs) \<le> cSmallBuffer"
    using length_fb_toString [OF s(3)] s(2,3) by (simp add: fb_inv_def)
  ultimately show ?thesis by (intro exI [of _ ?S]) simp
qed

section \<open>Properties\<close>

text \<open>C19: A log statement below the level in force does nothing. Otherwise exactly one line is handed to the output function, and it
  consists of the time stamp of the statement's time in the logging zone with its microseconds, the thread id, the level, the
  function for trace and debug statements, the items, and the file name without directories and line, in this order, where
  an item that does not fit into the 4000 characters is left out; no assertion fails, and the statement aborts the process
  after the output exactly when its level is fatal.\<close>

theorem log_statement_line:
  assumes "can_log gmtime_r gettid us S t" and "\<And>x. x \<in> set items \<Longrightarrow> text_ok x"
  shows "if checks_level m \<and> level_num (macro_level m) < level_num (g_logLevel S)
    then log_statement gmtime_r gettid (Time us) m file line func items S = Inr (Returns S)
    else \<exists>S'. log_statement gmtime_r gettid (Time us) m file line func items S =
        Inr (if macro_level m = FATAL then Aborts S' else Returns S') \<and>
      log_inv gmtime_r gettid S' \<and> flushes S' = flushes S + (if macro_level m = FATAL then 1 else 0) \<and>
      lines S' = lines S @ [log_line (header_items t (us mod 1000000) (TimeZone_vaild (g_logTimeZone S)) gettid (macro_level m) @
        func_items m func @ items @ trailer_items file line)]"
proof (cases "checks_level m \<and> level_num (macro_level m) < level_num (g_logLevel S)")
  case True
  then show ?thesis by (simp add: log_statement_def)
next
  case False
  from log_statement_ok [where items = items and fi = "file" and li = "line" and fu = func, OF assms(1) _ this] assms(2)
  show ?thesis using False unfolding all_items_def by auto
qed

definition demo_gmtime :: "int \<Rightarrow> tm" where
  "demo_gmtime s = \<lparr>tm_sec = 7, tm_min = 46, tm_hour = 1, tm_mday = 9, tm_mon = 8, tm_year = 101, tm_wday = 0, tm_yday = 251,
    tm_isdst = False, tm_gmtoff = 0, tm_zone = ''GMT''\<rparr>"

theorem log_statement_line_witness:
  "\<exists>S'. log_statement demo_gmtime 42 (Time 1000000007000123) LOG_WARN ''net/EventLoop.cc'' 77 ''poll'' [ItStr ''hi''] (LogState_new (\<lambda>_. False)) =
      Inr (Returns S') \<and>
    lines S' = [''20010909 01:46:07.000123Z    42WARN  hi - EventLoop.cc:77'' @ [CHR 0x0A]]"
proof -
  let ?S = "LogState_new (\<lambda>_. False)"
  have "can_log demo_gmtime 42 1000000007000123 ?S (demo_gmtime 1000000007)"
    by (simp add: can_log_def log_inv_def LogState_new_def zone_time_def TimeZone_vaild_def tm_ok_def demo_gmtime_def)
  from log_statement_line [OF this, of "[ItStr ''hi'']" LOG_WARN "''net/EventLoop.cc''" 77 "''poll''"]
  obtain S' where S': "log_statement demo_gmtime 42 (Time 1000000007000123) LOG_WARN ''net/EventLoop.cc'' 77 ''poll'' [ItStr ''hi''] ?S =
      Inr (Returns S')"
    "lines S' = lines ?S @ [log_line (header_items (demo_gmtime 1000000007) 123 (TimeZone_vaild (g_logTimeZone ?S)) 42 WARN @
        func_items LOG_WARN ''poll'' @ [ItStr ''hi''] @ trailer_items ''net/EventLoop.cc'' 77)]"
    by (auto simp: checks_level_def text_ok_def)
  have "header_items (demo_gmtime 1000000007) 123 (TimeZone_vaild (g_logTimeZone ?S)) 42 WARN =
      [ItStr ''20010909 01:46:07'', ItStr ''.000123Z '', ItStr ''   42'', ItStr ''WARN  '']"
    by code_simp
  moreover have "func_items LOG_WARN ''poll'' = []" by (simp add: func_items_def)
  moreover have "SourceFile ''net/EventLoop.cc'' = ''EventLoop.cc''" by (simp add: SourceFile_def)
  moreover have "log_line ([ItStr ''20010909 01:46:07'', ItStr ''.000123Z '', ItStr ''   42'', ItStr ''WARN  ''] @ [ItStr ''hi''] @
      [ItCStr (Some '' - ''), ItStr ''EventLoop.cc'', ItCStr (Some '':''), ItInt 77, ItCStr (Some [CHR 0x0A])]) =
      ''20010909 01:46:07.000123Z    42WARN  hi - EventLoop.cc:77'' @ [CHR 0x0A]"
  proof -
    have "dec_int (sint (77 :: 32 word)) = ''77''" by (simp add: dec_int_def) code_simp
    then show ?thesis by (simp add: log_line_def accept_def room_needed_def numeric_def cSmallBuffer_def)
  qed
  ultimately show ?thesis using S' by (simp add: trailer_items_def LogState_new_def)
qed

end
