(* ===== verification/LogFile.thy ===== *)
theory LogFile
  imports Formatting Calendar
begin

text \<open>
  \<^verbatim>\<open>src/netlib/base/FileUtil\<close> and \<^verbatim>\<open>LogFile\<close>: appending to a file through stdio, and the log file that starts a new
  file when one has grown too large or a day has passed.

  An \<open>AppendFile\<close> has the text handed to its stream so far and the counter of the class; \<open>closed\<close> of a
  \<open>LogFile\<close> are the files it has replaced, in order. The calls of the C library are the members of
  \<open>log_env\<close>; they are numbered by \<open>calls\<close>, so that each of them may have another outcome. A null
  \<open>_file\<close> is \<open>None\<close>, and using it a fault.
\<close>

section \<open>Model\<close>

record log_env =
  le_time :: "nat \<Rightarrow> int"
  le_fwrite :: "nat \<Rightarrow> string \<Rightarrow> nat \<times> int"
  le_fopen :: "string \<Rightarrow> bool"
  le_gmtime :: "int \<Rightarrow> tm"
  le_hostname :: string
  le_pid :: int

subsection \<open>AppendFile\<close>

record AppendFile =
  af_name :: string
  af_text :: string
  writtenBytes :: int

definition AppendFile_new :: "log_env \<Rightarrow> string \<Rightarrow> AppendFile res" where
  "AppendFile_new E filename =
    (if le_fopen E filename then Inr \<lparr>af_name = filename, af_text = [], writtenBytes = 0\<rparr> else Inl AssertFail)"

text \<open>The loop of \<open>append\<close>: the number of bytes counted as written, the bytes the stream has taken and the
  number of library calls made.\<close>

partial_function (option) af_append_loop ::
    "log_env \<Rightarrow> string \<Rightarrow> nat \<Rightarrow> nat \<Rightarrow> string \<Rightarrow> (nat \<times> string \<times> nat) option" where
  "af_append_loop E msg k written out =
    (if written = length msg then Some (written, out, k)
     else let remain = drop written msg;
              r = le_fwrite E k remain;
              out = out @ take (fst r) remain
          in if fst r \<noteq> length remain \<and> snd r \<noteq> 0 then Some (written, out, Suc k)
             else af_append_loop E msg (Suc k) (written + fst r) out)"

definition af_append :: "log_env \<Rightarrow> nat \<Rightarrow> string \<Rightarrow> AppendFile \<Rightarrow> (nat \<times> AppendFile) res" where
  "af_append E k msg f =
    (case af_append_loop E msg k 0 [] of
       None \<Rightarrow> Inl Diverges
     | Some (written, out, k) \<Rightarrow>
         Inr (k, f\<lparr>af_text := af_text f @ out, writtenBytes := writtenBytes f + int written\<rparr>))"

subsection \<open>LogFile\<close>

record LogFile =
  basename :: string
  rollSize :: int
  flushInterval :: int
  checkEveryN :: int
  lf_count :: int
  lastRoll :: int
  lastFlush :: int
  startOfPeriod :: int
  lf_file :: "AppendFile option"
  closed :: "AppendFile list"
  calls :: nat

definition cRollPerSeconds :: int where
  "cRollPerSeconds = 60 * 60 * 24"

definition getLogFileName :: "log_env \<Rightarrow> string \<Rightarrow> int \<Rightarrow> string" where
  "getLogFileName E base now =
    (let t = le_gmtime E now
     in base @ ''.'' @ fmt_zero 2 (tm_year t mod 100) @ fmt_zero 2 (tm_mon t + 1) @ fmt_zero 2 (tm_mday t) @ ''-'' @
        fmt_zero 2 (tm_hour t) @ fmt_zero 2 (tm_min t) @ fmt_zero 2 (tm_sec t) @ ''.'' @ le_hostname E @
        snd (snprintf 32 (''.'' @ dec_int (le_pid E))) @ ''.log'')"

definition rollFile :: "log_env \<Rightarrow> LogFile \<Rightarrow> (bool \<times> LogFile) res" where
  "rollFile E l =
    (let now = le_time E (calls l);
         l = l\<lparr>calls := Suc (calls l)\<rparr>;
         filename = getLogFileName E (basename l) now;
         start = now sdiv cRollPerSeconds * cRollPerSeconds
     in if lastRoll l < now
        then rbind (AppendFile_new E filename) (\<lambda>f.
          Inr (True, l\<lparr>lastRoll := now, lastFlush := now, startOfPeriod := start, lf_file := Some f,
            closed := closed l @ (case lf_file l of None \<Rightarrow> [] | Some g \<Rightarrow> [g])\<rparr>))
        else Inr (False, l))"

definition LogFile_new :: "log_env \<Rightarrow> string \<Rightarrow> int \<Rightarrow> int \<Rightarrow> int \<Rightarrow> nat \<Rightarrow> LogFile res" where
  "LogFile_new E base roll interval n k =
    (if CHR ''/'' \<in> set base then Inl AssertFail
     else rbind (rollFile E \<lparr>basename = base, rollSize = roll, flushInterval = interval, checkEveryN = n, lf_count = 0,
       lastRoll = 0, lastFlush = 0, startOfPeriod = 0, lf_file = None, closed = [], calls = k\<rparr>) (\<lambda>(_, l). Inr l))"

text \<open>\<open>fflush\<close> moves the text from the stream's buffer to the file; the text of an \<open>AppendFile\<close> does not tell the
  two apart, so only that the file exists matters.\<close>

definition lf_flush :: "LogFile \<Rightarrow> LogFile res" where
  "lf_flush l = (case lf_file l of None \<Rightarrow> Inl UseAfterFree | Some f \<Rightarrow> Inr l)"

definition lf_append :: "log_env \<Rightarrow> string \<Rightarrow> LogFile \<Rightarrow> LogFile res" where
  "lf_append E msg l =
    (case lf_file l of
       None \<Rightarrow> Inl UseAfterFree
     | Some f \<Rightarrow>
         rbind (af_append E (calls l) msg f) (\<lambda>(k, f).
         let l = l\<lparr>lf_file := Some f, calls := k\<rparr> in
         if rollSize l < writtenBytes f then rbind (rollFile E l) (\<lambda>(_, l). Inr l)
         else
           let l = l\<lparr>lf_count := lf_count l + 1\<rparr> in
           if checkEveryN l \<le> lf_count l
           then
             let l = l\<lparr>lf_count := 0\<rparr>;
                 now = le_time E (calls l);
                 l = l\<lparr>calls := Suc (calls l)\<rparr>;
                 thisPeriod = now sdiv cRollPerSeconds * cRollPerSeconds
             in if thisPeriod \<noteq> startOfPeriod l then rbind (rollFile E l) (\<lambda>(_, l). Inr l)
                else if flushInterval l < now - lastFlush l then lf_flush (l\<lparr>lastFlush := now\<rparr>)
                else Inr l
           else Inr l))"

section \<open>Specification\<close>

text \<open>\<^verbatim>\<open>fwrite(3)\<close>: it takes at most what it is given, and takes less only when it reports an error; \<open>fopen\<close>
  opens the files. The errors are excluded by \<open>no_errors\<close>.\<close>

definition fwrite_contract :: "log_env \<Rightarrow> bool" where
  "fwrite_contract E \<longleftrightarrow>
    (\<forall>k s. fst (le_fwrite E k s) \<le> length s \<and> (fst (le_fwrite E k s) < length s \<longrightarrow> snd (le_fwrite E k s) \<noteq> 0))"

definition no_errors :: "log_env \<Rightarrow> bool" where
  "no_errors E \<longleftrightarrow> (\<forall>k s. snd (le_fwrite E k s) = 0)"

text \<open>An environment in which nothing fails and the clock has moved on from call to call.\<close>

definition env_ok :: "log_env \<Rightarrow> bool" where
  "env_ok E \<longleftrightarrow> fwrite_contract E \<and> no_errors E \<and> (\<forall>name. le_fopen E name) \<and> strict_mono (le_time E) \<and> 0 < le_time E 0"

text \<open>The invariant, where no message is longer than \<open>M\<close>: the file in use is within the roll size and those
  replaced exceed it by less than one message.\<close>

definition file_within :: "int \<Rightarrow> AppendFile \<Rightarrow> bool" where
  "file_within n f \<longleftrightarrow> writtenBytes f = int (length (af_text f)) \<and> writtenBytes f \<le> n"

definition lf_inv :: "log_env \<Rightarrow> nat \<Rightarrow> LogFile \<Rightarrow> bool" where
  "lf_inv E M l \<longleftrightarrow> 0 \<le> rollSize l \<and> lastRoll l < le_time E (calls l) \<and>
    (case lf_file l of None \<Rightarrow> False | Some f \<Rightarrow> file_within (rollSize l) f) \<and>
    list_all (file_within (rollSize l + int M)) (closed l)"

definition lf_text :: "LogFile \<Rightarrow> string" where
  "lf_text l = concat (map af_text (closed l @ (case lf_file l of None \<Rightarrow> [] | Some f \<Rightarrow> [f])))"

section \<open>Lemmas\<close>

lemma af_append_loop_ok:
  assumes "fwrite_contract E"
  shows "\<exists>w out k'. af_append_loop E msg k 0 [] = Some (w, out, k') \<and> w \<le> length out \<and>
    out = take (length out) msg \<and> (w = length msg \<and> out = msg \<or> w = 0 \<and> snd (le_fwrite E k msg) \<noteq> 0)"
proof (cases "msg = []")
  case True
  then show ?thesis by (simp add: af_append_loop.simps)
next
  case False
  obtain n e where f: "le_fwrite E k msg = (n, e)" by (cases "le_fwrite E k msg")
  then have n: "n \<le> length msg" "n < length msg \<longrightarrow> e \<noteq> 0"
    using assms by (auto simp: fwrite_contract_def dest: spec [of _ k] split: prod.splits)
      (metis fst_conv snd_conv)+
  show ?thesis
  proof (cases "n = length msg")
    case True
    then show ?thesis using False f by (subst af_append_loop.simps) (simp add: af_append_loop.simps)
  next
    case less: False
    then show ?thesis using False f n by (subst af_append_loop.simps) (simp add: min_def)
  qed
qed

lemma env_fwrite: "env_ok E \<Longrightarrow> af_append E k msg f =
    Inr (if msg = [] then k else Suc k, f\<lparr>af_text := af_text f @ msg, writtenBytes := writtenBytes f + int (length msg)\<rparr>)"
proof -
  assume "env_ok E"
  then have "fst (le_fwrite E k msg) = length msg" "snd (le_fwrite E k msg) = 0"
    by (auto simp: env_ok_def fwrite_contract_def no_errors_def le_less)
  then show ?thesis
    unfolding af_append_def by (subst af_append_loop.simps) (simp add: af_append_loop.simps)
qed

lemma env_time: "env_ok E \<Longrightarrow> j < k \<Longrightarrow> le_time E j < le_time E k"
  by (auto simp: env_ok_def strict_mono_def)

lemma rollFile_ok:
  assumes "env_ok E" and "lastRoll l < le_time E (calls l)"
  shows "rollFile E l = Inr (True, l\<lparr>calls := Suc (calls l), lastRoll := le_time E (calls l),
      lastFlush := le_time E (calls l), startOfPeriod := le_time E (calls l) sdiv cRollPerSeconds * cRollPerSeconds,
      lf_file := Some \<lparr>af_name = getLogFileName E (basename l) (le_time E (calls l)), af_text = [], writtenBytes = 0\<rparr>,
      closed := closed l @ (case lf_file l of None \<Rightarrow> [] | Some g \<Rightarrow> [g])\<rparr>)"
  using assms by (simp add: rollFile_def AppendFile_new_def env_ok_def Let_def)

text \<open>Rolling over to a new file keeps the text, once the file in use exceeds the limit by at most a message.\<close>

definition rolled :: "log_env \<Rightarrow> nat \<Rightarrow> LogFile \<Rightarrow> LogFile \<Rightarrow> bool" where
  "rolled E M l l' \<longleftrightarrow> lf_inv E M l' \<and> lf_text l' = lf_text l \<and> rollSize l' = rollSize l"

lemma roll_rolled:
  assumes E: "env_ok E" and "lastRoll l < le_time E (calls l)" and "0 \<le> rollSize l" and "lf_file l = Some f"
    and "file_within (rollSize l + int M) f" and "list_all (file_within (rollSize l + int M)) (closed l)"
  shows "ok (\<lambda>(_, l'). rolled E M l l') (rollFile E l)"
proof -
  have "le_time E (calls l) < le_time E (Suc (calls l))" using env_time [OF E] by simp
  then show ?thesis
    using rollFile_ok [OF E assms(2)] assms(3-6) by (auto simp: rolled_def lf_inv_def lf_text_def file_within_def)
qed

lemma lf_append_ok:
  assumes E: "env_ok E" and inv: "lf_inv E M l" and "length msg \<le> M"
  shows "ok (\<lambda>l'. lf_inv E M l' \<and> lf_text l' = lf_text l @ msg \<and> rollSize l' = rollSize l) (lf_append E msg l)"
proof -
  obtain f where f: "lf_file l = Some f" "file_within (rollSize l) f" using inv by (auto simp: lf_inv_def split: option.splits)
  let ?f = "f\<lparr>af_text := af_text f @ msg, writtenBytes := writtenBytes f + int (length msg)\<rparr>"
  obtain k where k: "k \<in> {calls l, Suc (calls l)}" "af_append E (calls l) msg f = Inr (k, ?f)"
    using env_fwrite [OF E, of "calls l" msg f] by (cases "msg = []") auto
  have t: "lastRoll l < le_time E k" "lastRoll l < le_time E (Suc k)"
    using inv k(1) env_time [OF E, of "calls l" k] env_time [OF E, of "calls l" "Suc k"] by (auto simp: lf_inv_def)
  have w: "file_within (rollSize l + int M) ?f" using f(2) assms(3) by (simp add: file_within_def)
  have cl: "list_all (file_within (rollSize l + int M)) (closed l)" "0 \<le> rollSize l" using inv by (simp_all add: lf_inv_def)
  define wrote where "wrote l' \<longleftrightarrow> lf_file l' = Some ?f \<and> closed l' = closed l \<and> rollSize l' = rollSize l \<and>
    lastRoll l' = lastRoll l \<and> (calls l' = k \<or> calls l' = Suc k)" for l' :: LogFile
  have same: "lf_text l' = lf_text l @ msg" if "wrote l'" for l'
    using that f(1) by (auto simp: wrote_def lf_text_def)
  have roll: "ok (\<lambda>l'. lf_inv E M l' \<and> lf_text l' = lf_text l @ msg \<and> rollSize l' = rollSize l) (rbind (rollFile E l2) (\<lambda>(_, l). Inr l))"
    if "wrote l2" for l2
  proof -
    have "ok (\<lambda>(_, l'). rolled E M l2 l') (rollFile E l2)"
      using that t w cl by (intro roll_rolled [OF E]) (auto simp: wrote_def)
    then show ?thesis using same [OF that] that by (auto simp: ok_iff rolled_def wrote_def)
  qed
  have keep: "lf_inv E M l'" if "wrote l'" and "\<not> rollSize l < writtenBytes ?f" for l'
    using that t f(2) cl by (auto simp: wrote_def lf_inv_def file_within_def)
  show ?thesis
    using f(1) k(2) by (auto simp: lf_append_def Let_def lf_flush_def wrote_def intro!: roll keep same)
qed

lemma LogFile_new_ok:
  assumes "env_ok E" and "CHR ''/'' \<notin> set base" and "0 \<le> roll"
  shows "ok (\<lambda>l. lf_inv E M l \<and> lf_text l = [] \<and> rollSize l = roll) (LogFile_new E base roll interval n 0)"
proof -
  have "le_time E 0 < le_time E (Suc 0)" using env_time [OF assms(1)] by simp
  moreover have "0 < le_time E 0" using assms(1) by (simp add: env_ok_def)
  ultimately show ?thesis
    using assms rollFile_ok [OF assms(1), of "\<lparr>basename = base, rollSize = roll, flushInterval = interval,
        checkEveryN = n, lf_count = 0, lastRoll = 0, lastFlush = 0, startOfPeriod = 0, lf_file = None, closed = [], calls = 0\<rparr>"]
    by (auto simp: LogFile_new_def lf_inv_def lf_text_def file_within_def)
qed

lemma lf_run_ok:
  assumes E: "env_ok E"
  shows "lf_inv E M l \<Longrightarrow> list_all (\<lambda>m. length m \<le> M) msgs \<Longrightarrow>
    ok (\<lambda>l'. lf_inv E M l' \<and> lf_text l' = lf_text l @ concat msgs \<and> rollSize l' = rollSize l) (rfold (lf_append E) msgs l)"
proof (induction msgs arbitrary: l)
  case Nil
  then show ?case by simp
next
  case (Cons m msgs)
  then obtain l' where l': "lf_append E m l = Inr l'" "lf_inv E M l'" "lf_text l' = lf_text l @ m" "rollSize l' = rollSize l"
    using lf_append_ok [OF E, of M l m] by (auto simp: ok_iff)
  then show ?case using Cons.IH [OF l'(2)] Cons.prems(2) by simp
qed

section \<open>Properties\<close>


definition demo_env :: log_env where
  "demo_env = \<lparr>le_time = (\<lambda>k. int k + 1), le_fwrite = (\<lambda>k s. (length s, 0)), le_fopen = (\<lambda>name. True),
    le_gmtime = (\<lambda>t. \<lparr>tm_sec = t, tm_min = 0, tm_hour = 0, tm_mday = 1, tm_mon = 0, tm_year = 70, tm_wday = 4,
      tm_yday = 0, tm_isdst = False, tm_gmtoff = 0, tm_zone = ''UTC''\<rparr>), le_hostname = ''host'', le_pid = 42\<rparr>"

lemma demo_env_ok: "env_ok demo_env"
  by (simp add: env_ok_def demo_env_def fwrite_contract_def no_errors_def strict_mono_def)


text \<open>C33: \<open>AppendFile::append\<close> always returns, whatever the stream does within the contract of \<open>fwrite\<close>. It either hands the
  whole message to the stream and counts it, or the stream has reported an error; then a prefix of the message was
  handed over that the counter of written bytes leaves out.\<close>

theorem append_file_total:
  assumes "fwrite_contract E"
  shows "\<exists>k' f' out. af_append E k msg f = Inr (k', f') \<and> af_text f' = af_text f @ out \<and>
    (out = msg \<and> writtenBytes f' = writtenBytes f + int (length msg) \<or>
     out = take (length out) msg \<and> writtenBytes f' = writtenBytes f \<and> snd (le_fwrite E k msg) \<noteq> 0)"
  using af_append_loop_ok [OF assms, of msg k] by (auto simp: af_append_def)

theorem append_file_total_witness:
  "\<exists>k' f'. af_append (demo_env\<lparr>le_fwrite := (\<lambda>k s. (min 2 (length s), 28))\<rparr>) 0 ''abc''
      \<lparr>af_name = ''app'', af_text = [], writtenBytes = 0\<rparr> = Inr (k', f') \<and> writtenBytes f' \<in> {0, 3}"
proof -
  have "fwrite_contract (demo_env\<lparr>le_fwrite := (\<lambda>k s. (min 2 (length s), 28))\<rparr>)"
    by (simp add: fwrite_contract_def)
  from append_file_total [OF this, of 0 "''abc''" "\<lparr>af_name = ''app'', af_text = [], writtenBytes = 0\<rparr>"]
  show ?thesis by auto
qed

end
