(* ===== verification/AsyncLogging.thy ===== *)
theory AsyncLogging
  imports LogStream LogFile
begin

text \<open>
  \<^verbatim>\<open>src/netlib/base/AsyncLogging.h\<close> and \<^verbatim>\<open>AsyncLogging.cc\<close>: front ends append messages to a shared buffer, and the logging
  thread takes the full buffers and writes them to the log file.

  The record has the members the threads share and the local variables of \<open>threadFunc\<close>; a \<open>unique_ptr\<close> is an option
  and using a null one a fault. The regions between lock and unlock of the mutex are the atomic steps: \<open>al_append\<close> of
  any front end, and in the logging thread \<open>thread_top\<close> (the loop condition, the assertions and the region up to the
  wait), \<open>thread_wake\<close> (what follows the wait, which notification and time-out both end) and \<open>thread_write\<close> (the rest of
  the loop's body, which touches no shared member). \<open>al_pc\<close> is where the thread is.
\<close>

section \<open>Model\<close>

datatype thread_pc = Idle | Top | Waiting | Writing | Finished

record AsyncLogging =
  al_running :: bool
  currentBuffer :: "FixedBuffer option"
  nextBuffer :: "FixedBuffer option"
  buffers :: "FixedBuffer list"
  al_pc :: thread_pc
  newBuffer1 :: "FixedBuffer option"
  newBuffer2 :: "FixedBuffer option"
  buffersToWrite :: "FixedBuffer list"
  log_output :: "LogFile option"

definition get_ptr :: "'a option \<Rightarrow> 'a res" where
  "get_ptr p = (case p of None \<Rightarrow> Inl UseAfterFree | Some x \<Rightarrow> Inr x)"

definition new_Buffer :: FixedBuffer where
  "new_Buffer = FixedBuffer_new cLargeBuffer"

definition AsyncLogging_new :: AsyncLogging where
  "AsyncLogging_new = \<lparr>al_running = False, currentBuffer = Some (fb_bzero new_Buffer), nextBuffer = Some (fb_bzero new_Buffer),
    buffers = [], al_pc = Idle, newBuffer1 = None, newBuffer2 = None, buffersToWrite = [], log_output = None\<rparr>"

definition al_append :: "string \<Rightarrow> AsyncLogging \<Rightarrow> AsyncLogging res" where
  "al_append msg s =
    rbind (get_ptr (currentBuffer s)) (\<lambda>c.
    if int (length msg) < fb_vaild c
    then rbind (fb_append msg c) (\<lambda>c. Inr (s\<lparr>currentBuffer := Some c\<rparr>))
    else
      let s = s\<lparr>buffers := buffers s @ [c]\<rparr>;
          (c, s) = (case nextBuffer s of
                      Some b \<Rightarrow> (b, s\<lparr>nextBuffer := None\<rparr>)
                    | None \<Rightarrow> (new_Buffer, s))
      in rbind (fb_append msg c) (\<lambda>c. Inr (s\<lparr>currentBuffer := Some c\<rparr>)))"

text \<open>The thread's function up to its loop. \<open>start\<close> returns after the thread has passed the assertion.\<close>

definition thread_begin :: "log_env \<Rightarrow> string \<Rightarrow> int \<Rightarrow> int \<Rightarrow> AsyncLogging \<Rightarrow> AsyncLogging res" where
  "thread_begin E base roll interval s =
    (if al_running s
     then rbind (LogFile_new E base roll interval 1024 0) (\<lambda>l.
       Inr (s\<lparr>log_output := Some l, newBuffer1 := Some (fb_bzero new_Buffer), newBuffer2 := Some (fb_bzero new_Buffer),
         buffersToWrite := [], al_pc := Top\<rparr>))
     else Inl AssertFail)"

definition al_start :: "log_env \<Rightarrow> string \<Rightarrow> int \<Rightarrow> int \<Rightarrow> AsyncLogging \<Rightarrow> AsyncLogging res" where
  "al_start E base roll interval s = thread_begin E base roll interval (s\<lparr>al_running := True\<rparr>)"

definition al_stop :: "AsyncLogging \<Rightarrow> AsyncLogging" where
  "al_stop s = s\<lparr>al_running := False\<rparr>"

definition thread_wake :: "AsyncLogging \<Rightarrow> AsyncLogging res" where
  "thread_wake s =
    rbind (get_ptr (currentBuffer s)) (\<lambda>c.
    let s = s\<lparr>buffers := buffers s @ [c]\<rparr>;
        s = s\<lparr>currentBuffer := newBuffer1 s, newBuffer1 := None\<rparr>;
        s = s\<lparr>buffersToWrite := buffers s, buffers := buffersToWrite s\<rparr>;
        s = (if nextBuffer s = None then s\<lparr>nextBuffer := newBuffer2 s, newBuffer2 := None\<rparr> else s)
    in Inr (s\<lparr>al_pc := Writing\<rparr>))"

definition is_empty_buffer :: "FixedBuffer option \<Rightarrow> bool" where
  "is_empty_buffer p = (case p of None \<Rightarrow> False | Some b \<Rightarrow> fb_length b = 0)"

definition thread_top :: "AsyncLogging \<Rightarrow> AsyncLogging res" where
  "thread_top s =
    (if al_running s
     then if is_empty_buffer (newBuffer1 s) \<and> is_empty_buffer (newBuffer2 s) \<and> buffersToWrite s = []
          then if buffers s = [] then Inr (s\<lparr>al_pc := Waiting\<rparr>) else thread_wake s
          else Inl AssertFail
     else rbind (get_ptr (log_output s)) (\<lambda>l. rbind (lf_flush l) (\<lambda>l. Inr (s\<lparr>log_output := Some l, al_pc := Finished\<rparr>))))"

text \<open>The notice of dropped messages; \<open>at\<close> is the text of the current time.\<close>

definition drop_notice :: "string \<Rightarrow> nat \<Rightarrow> string" where
  "drop_notice at n = snd (snprintf 256
    (''Drop log message at '' @ at @ '', '' @ dec_nat n @ '' large buffers'' @ [CHR 0x0A]))"

text \<open>A spare buffer taken back from those written, unless it is there.\<close>

definition take_back :: "FixedBuffer option \<Rightarrow> FixedBuffer list \<Rightarrow> (FixedBuffer option \<times> FixedBuffer list) res" where
  "take_back p bs =
    (case p of
       Some b \<Rightarrow> Inr (p, bs)
     | None \<Rightarrow> if bs = [] then Inl AssertFail else Inr (Some (fb_reset (last bs)), butlast bs))"

definition thread_write :: "log_env \<Rightarrow> string \<Rightarrow> AsyncLogging \<Rightarrow> AsyncLogging res" where
  "thread_write E at s =
    (let bs = buffersToWrite s in
     if bs = [] then Inl AssertFail else
     rbind (get_ptr (log_output s)) (\<lambda>l.
     rbind (if 25 < length bs
            then rbind (lf_append E (drop_notice at (length bs - 2)) l) (\<lambda>l. Inr (l, take 2 bs))
            else Inr (l, bs)) (\<lambda>(l, bs).
     rbind (rfold (\<lambda>b. lf_append E (fb_toString b)) bs l) (\<lambda>l.
     rbind (take_back (newBuffer1 s) (take 2 bs)) (\<lambda>(b1, bs).
     rbind (take_back (newBuffer2 s) bs) (\<lambda>(b2, bs).
     rbind (lf_flush l) (\<lambda>l.
     Inr (s\<lparr>newBuffer1 := b1, newBuffer2 := b2, buffersToWrite := [], log_output := Some l, al_pc := Top\<rparr>))))))))"

text \<open>All steps.\<close>

datatype al_event = Append string | Stop | ThreadTop | ThreadWake | ThreadWrite string

fun al_step :: "log_env \<Rightarrow> al_event \<Rightarrow> AsyncLogging \<Rightarrow> AsyncLogging res" where
  "al_step E (Append m) s = al_append m s"
| "al_step E Stop s = Inr (al_stop s)"
| "al_step E ThreadTop s = thread_top s"
| "al_step E ThreadWake s = thread_wake s"
| "al_step E (ThreadWrite at) s = thread_write E at s"

section \<open>Specification\<close>

text \<open>The guards are where the logging thread is.\<close>

fun al_guard :: "al_event \<Rightarrow> AsyncLogging \<Rightarrow> bool" where
  "al_guard (Append m) s \<longleftrightarrow> True"
| "al_guard Stop s \<longleftrightarrow> True"
| "al_guard ThreadTop s \<longleftrightarrow> al_pc s = Top"
| "al_guard ThreadWake s \<longleftrightarrow> al_pc s = Waiting"
| "al_guard (ThreadWrite at) s \<longleftrightarrow> al_pc s = Writing"

abbreviation large_inv :: "FixedBuffer \<Rightarrow> bool" where
  "large_inv \<equiv> fb_inv cLargeBuffer"

definition spare :: "FixedBuffer option \<Rightarrow> bool" where
  "spare p \<longleftrightarrow> (case p of None \<Rightarrow> False | Some b \<Rightarrow> large_inv b \<and> fb_cur b = 0)"

text \<open>The invariant: there is a buffer to append to; without a spare buffer there is a full one; the thread has its two
  spare buffers at the top of the loop and can make up for those it gave away when it writes.\<close>

definition al_inv :: "log_env \<Rightarrow> AsyncLogging \<Rightarrow> bool" where
  "al_inv E s \<longleftrightarrow>
    (case currentBuffer s of None \<Rightarrow> False | Some c \<Rightarrow> large_inv c) \<and>
    (nextBuffer s = None \<and> buffers s \<noteq> [] \<or> spare (nextBuffer s)) \<and>
    list_all large_inv (buffers s) \<and> list_all large_inv (buffersToWrite s) \<and>
    (log_output s = None \<longrightarrow> al_pc s = Idle) \<and> pred_option (lf_inv E cLargeBuffer) (log_output s) \<and>
    (al_pc s = Top \<or> al_pc s = Waiting \<longrightarrow> spare (newBuffer1 s) \<and> spare (newBuffer2 s) \<and> buffersToWrite s = []) \<and>
    (al_pc s = Writing \<longrightarrow> newBuffer1 s = None \<and> buffersToWrite s \<noteq> [] \<and>
       (newBuffer2 s = None \<and> 2 \<le> length (buffersToWrite s) \<or> spare (newBuffer2 s)))"

definition texts :: "FixedBuffer list \<Rightarrow> string" where
  "texts bs = concat (map fb_toString bs)"

text \<open>What is on its way: written, taken by the thread, full, and being filled.\<close>

definition written :: "AsyncLogging \<Rightarrow> string" where
  "written s = (case log_output s of None \<Rightarrow> [] | Some l \<Rightarrow> lf_text l)"

definition pending :: "AsyncLogging \<Rightarrow> string" where
  "pending s = texts (if al_pc s = Writing then buffersToWrite s else []) @ texts (buffers s) @
    texts (case currentBuffer s of None \<Rightarrow> [] | Some c \<Rightarrow> [c])"

definition fits :: "string \<Rightarrow> string" where
  "fits m = (if length m < cLargeBuffer then m else [])"

text \<open>What a step adds to the text on its way; \<open>overrun\<close> is a write that drops buffers.\<close>

fun logged :: "al_event \<Rightarrow> string" where
  "logged (Append m) = fits m"
| "logged e = []"

fun overrun :: "al_event \<Rightarrow> AsyncLogging \<Rightarrow> bool" where
  "overrun (ThreadWrite at) s \<longleftrightarrow> 25 < length (buffersToWrite s)"
| "overrun e s \<longleftrightarrow> False"

section \<open>Lemmas\<close>

lemma rfold_map: "rfold (\<lambda>b. f (g b)) bs l = rfold f (map g bs) l"
  by (induction bs arbitrary: l) (simp_all cong: rbind_cong)

lemma large_range: "0 < cLargeBuffer" "cLargeBuffer < 2 ^ 31" "255 \<le> cLargeBuffer"
  by (simp_all add: cLargeBuffer_def)

lemma new_Buffer_inv [simp]: "large_inv new_Buffer" "fb_toString new_Buffer = []" "fb_cur new_Buffer = 0"
  "large_inv (fb_bzero new_Buffer)" "fb_toString (fb_bzero new_Buffer) = []" "fb_cur (fb_bzero new_Buffer) = 0"
  using large_range(2)
  by (simp_all add: new_Buffer_def fb_inv_def FixedBuffer_new_def fb_toString_def fb_length_def fb_bzero_def)

lemma texts_simps [simp]: "texts [] = []" "texts (b # bs) = fb_toString b @ texts bs" "texts (bs @ cs) = texts bs @ texts cs"
  by (simp_all add: texts_def)

lemma spare_simps [simp]: "\<not> spare None" "spare (Some b) \<longleftrightarrow> large_inv b \<and> fb_cur b = 0"
  by (simp_all add: spare_def)

lemma spare_text: "large_inv b \<Longrightarrow> fb_cur b = 0 \<Longrightarrow> fb_toString b = []"
  by (simp add: fb_toString_take)

lemma spare_empty: "spare p \<Longrightarrow> is_empty_buffer p"
  by (auto simp: spare_def is_empty_buffer_def fb_length_def split: option.splits)

lemma fb_append_large:
  assumes "large_inv b" and "length m < cLargeBuffer - fb_cur b"
  shows "ok (\<lambda>b'. large_inv b' \<and> fb_toString b' = fb_toString b @ m) (fb_append m b)"
  using ok_fb_append [OF assms(1), of m] by (rule ok_mono) (use assms(2) in \<open>simp add: appends_def\<close>)

lemma fb_append_fits:
  assumes "large_inv b" and "fb_cur b = 0"
  shows "ok (\<lambda>b'. large_inv b' \<and> fb_toString b' = fits m) (fb_append m b)"
  using ok_fb_append [OF assms(1), of m]
  by (rule ok_mono) (use assms spare_text in \<open>auto simp: appends_def fits_def\<close>)

lemma al_append_ok:
  assumes "al_inv E s"
  shows "ok (\<lambda>s'. al_inv E s' \<and> written s' = written s \<and> pending s' = pending s @ fits m \<and> al_pc s' = al_pc s) (al_append m s)"
proof -
  obtain c where c: "currentBuffer s = Some c" "large_inv c" using assms by (auto simp: al_inv_def split: option.splits)
  show ?thesis
  proof (cases "int (length m) < fb_vaild c")
    case True
    then have "length m < cLargeBuffer - fb_cur c" using fb_inv_vaild [OF c(2)] by simp
    moreover from fb_append_large [OF c(2) this] obtain b' where
      b': "fb_append m c = Inr b'" "large_inv b'" "fb_toString b' = fb_toString c @ m" by (auto simp: ok_iff)
    ultimately have "al_append m s = Inr (s\<lparr>currentBuffer := Some b'\<rparr>)" "fits m = m"
      using c(1) True by (auto simp: al_append_def get_ptr_def fits_def)
    then show ?thesis using assms c(1) b'(2,3) by (simp add: al_inv_def written_def pending_def)
  next
    case False
    have n: "ok (\<lambda>b'. large_inv b' \<and> fb_toString b' = fits m) (fb_append m (case nextBuffer s of None \<Rightarrow> new_Buffer | Some b \<Rightarrow> b))"
      using assms by (intro fb_append_fits) (auto simp: al_inv_def split: option.splits)
    define b where "b = (case nextBuffer s of None \<Rightarrow> new_Buffer | Some b \<Rightarrow> b)"
    from n obtain b' where b': "fb_append m b = Inr b'" "large_inv b'" "fb_toString b' = fits m" by (auto simp: ok_iff b_def)
    have "al_append m s = Inr (s\<lparr>buffers := buffers s @ [c], nextBuffer := None, currentBuffer := Some b'\<rparr>)"
      using c(1) False b'(1) by (cases "nextBuffer s") (simp_all add: al_append_def get_ptr_def Let_def b_def)
    then show ?thesis using assms c b'(2,3) by (simp add: al_inv_def written_def pending_def)
  qed
qed

lemma thread_wake_ok:
  assumes "al_inv E s" and "al_pc s = Top \<or> al_pc s = Waiting"
  shows "ok (\<lambda>s'. al_inv E s' \<and> written s' = written s \<and> pending s' = pending s) (thread_wake s)"
proof -
  obtain c b1 b2 where c: "currentBuffer s = Some c" "large_inv c" "newBuffer1 s = Some b1" "large_inv b1" "fb_cur b1 = 0"
    "newBuffer2 s = Some b2" "large_inv b2" "fb_cur b2 = 0" "buffersToWrite s = []"
    using assms by (auto simp: al_inv_def spare_def split: option.splits)
  have "al_pc s \<noteq> Writing" "al_pc s \<noteq> Idle" using assms(2) by auto
  then show ?thesis
    using assms(1) c spare_text [OF c(4,5)]
    by (auto simp: thread_wake_def get_ptr_def Let_def al_inv_def written_def pending_def Suc_le_eq split: option.splits)
qed

lemma thread_top_ok:
  assumes "al_inv E s" and "al_pc s = Top"
  shows "ok (\<lambda>s'. al_inv E s' \<and> written s' = written s \<and> pending s' = pending s) (thread_top s)"
proof -
  have sp: "is_empty_buffer (newBuffer1 s)" "is_empty_buffer (newBuffer2 s)" "buffersToWrite s = []"
    using assms spare_empty by (auto simp: al_inv_def)
  obtain l where l: "log_output s = Some l" "lf_inv E cLargeBuffer l"
    using assms by (auto simp: al_inv_def split: option.splits)
  show ?thesis
  proof (cases "al_running s \<and> buffers s \<noteq> []")
    case True
    then show ?thesis using sp thread_wake_ok [OF assms(1)] assms(2) by (simp add: thread_top_def)
  next
    case False
    then show ?thesis
      using sp l assms by (auto simp: thread_top_def get_ptr_def lf_flush_def al_inv_def written_def pending_def lf_inv_def split: option.splits)
  qed
qed

lemma length_large: "large_inv b \<Longrightarrow> length (fb_toString b) \<le> cLargeBuffer"
  by (simp add: length_fb_toString) (simp add: fb_inv_def)

lemma write_texts_ok:
  assumes "env_ok E" and "lf_inv E cLargeBuffer l" and "list_all large_inv bs"
  shows "ok (\<lambda>l'. lf_inv E cLargeBuffer l' \<and> lf_text l' = lf_text l @ texts bs) (rfold (\<lambda>b. lf_append E (fb_toString b)) bs l)"
proof -
  have "list_all (\<lambda>m. length m \<le> cLargeBuffer) (map fb_toString bs)"
    using assms(3) length_large by (auto simp: list_all_iff)
  from lf_run_ok [OF assms(1,2) this] show ?thesis
    unfolding rfold_map by (rule ok_mono) (simp add: texts_def)
qed

lemma notice_ok:
  assumes "env_ok E" and "lf_inv E cLargeBuffer l"
  shows "ok (\<lambda>l'. lf_inv E cLargeBuffer l' \<and> lf_text l' = lf_text l @ drop_notice at n) (lf_append E (drop_notice at n) l)"
proof -
  have "length (drop_notice at n) \<le> cLargeBuffer" using large_range(3) by (simp add: drop_notice_def snprintf_def)
  from lf_append_ok [OF assms this] show ?thesis by (rule ok_mono) simp
qed

lemma take_back_ok:
  assumes "spare p \<or> p = None \<and> bs \<noteq> []" and "list_all large_inv bs"
  shows "ok (\<lambda>(p', bs'). spare p' \<and> bs' = (if p = None then butlast bs else bs)) (take_back p bs)"
  using assms large_range(2) by (auto simp: take_back_def fb_reset_def fb_inv_def list_all_iff split: option.splits)

definition to_write :: "string \<Rightarrow> FixedBuffer list \<Rightarrow> string" where
  "to_write at bs = (if 25 < length bs then drop_notice at (length bs - 2) @ texts (take 2 bs) else texts bs)"

lemma thread_write_ok:
  assumes E: "env_ok E" and inv: "al_inv E s" and w: "al_pc s = Writing"
  shows "ok (\<lambda>s'. al_inv E s' \<and> written s' = written s @ to_write at (buffersToWrite s) \<and>
    pending s = texts (buffersToWrite s) @ pending s') (thread_write E at s)"
proof -
  let ?bs = "buffersToWrite s"
  obtain l where l: "log_output s = Some l" "lf_inv E cLargeBuffer l" using inv w by (auto simp: al_inv_def split: option.splits)
  have bs: "?bs \<noteq> []" "list_all large_inv ?bs" "newBuffer1 s = None"
    and two: "newBuffer2 s = None \<and> 2 \<le> length ?bs \<or> spare (newBuffer2 s)" using inv w by (auto simp: al_inv_def)
  define cs where "cs = (if 25 < length ?bs then take 2 ?bs else ?bs)"
  have cs: "cs \<noteq> []" "list_all large_inv cs" using bs by (auto simp: cs_def list_all_iff dest: in_set_takeD)
  have first: "ok (\<lambda>(l', bs'). lf_inv E cLargeBuffer l' \<and> bs' = cs \<and> lf_text l' @ texts cs = lf_text l @ to_write at ?bs)
    (if 25 < length ?bs then rbind (lf_append E (drop_notice at (length ?bs - 2)) l) (\<lambda>l. Inr (l, take 2 ?bs)) else Inr (l, ?bs))"
    using notice_ok [OF E l(2), of at "length ?bs - 2"] l(2) by (auto simp: ok_iff cs_def to_write_def)
  then obtain l1 where l1: "(if 25 < length ?bs then rbind (lf_append E (drop_notice at (length ?bs - 2)) l) (\<lambda>l. Inr (l, take 2 ?bs)) else Inr (l, ?bs))
      = Inr (l1, cs)" "lf_inv E cLargeBuffer l1" "lf_text l1 @ texts cs = lf_text l @ to_write at ?bs"
    by (auto simp: ok_iff)
  from write_texts_ok [OF E l1(2) cs(2)] obtain l2 where
    l2: "rfold (\<lambda>b. lf_append E (fb_toString b)) cs l1 = Inr l2" "lf_inv E cLargeBuffer l2" "lf_text l2 = lf_text l @ to_write at ?bs"
    using l1(3) by (auto simp: ok_iff)
  have t2: "list_all large_inv (take 2 cs)" using cs(2) by (auto simp: list_all_iff dest: in_set_takeD)
  obtain b1 where b1: "take_back None (take 2 cs) = Inr (b1, butlast (take 2 cs))" "spare b1"
    using take_back_ok [of None "take 2 cs"] cs(1) t2 by (auto simp: ok_iff)
  have len: "newBuffer2 s = None \<Longrightarrow> butlast (take 2 cs) \<noteq> []"
    using two cs(1) by (auto simp: cs_def simp flip: length_greater_0_conv)
  have "list_all large_inv (butlast (take 2 cs))" using t2 by (auto simp: list_all_iff dest: in_set_butlastD)
  from take_back_ok [OF _ this, of "newBuffer2 s"] obtain b2 bs2 where
    b2: "take_back (newBuffer2 s) (butlast (take 2 cs)) = Inr (b2, bs2)" "spare b2"
    using two len by (auto simp: ok_iff)
  have "lf_flush l2 = Inr l2" using l2(2) by (auto simp: lf_flush_def lf_inv_def split: option.splits)
  then have "thread_write E at s =
      Inr (s\<lparr>newBuffer1 := b1, newBuffer2 := b2, buffersToWrite := [], log_output := Some l2, al_pc := Top\<rparr>)"
    using bs(1,3) l(1) l1(1) l2(1) b1(1) b2(1) unfolding thread_write_def Let_def get_ptr_def by simp
  then show ?thesis
    using inv w l(1) l2(2,3) b1(2) b2(2) by (auto simp: al_inv_def written_def pending_def)
qed

lemma al_step_ok:
  assumes "env_ok E" and "al_inv E s" and "al_guard e s"
  shows "ok (\<lambda>s'. al_inv E s' \<and> (\<not> overrun e s \<longrightarrow> written s' @ pending s' = written s @ pending s @ logged e)) (al_step E e s)"
proof (cases e)
  case (Append m)
  then show ?thesis using al_append_ok [OF assms(2), of m] by (auto simp: ok_iff)
next
  case Stop
  then show ?thesis using assms(2) by (cases "log_output s") (simp_all add: al_stop_def al_inv_def written_def pending_def)
next
  case ThreadTop
  then show ?thesis using thread_top_ok [OF assms(2)] assms(3) by (auto simp: ok_iff)
next
  case ThreadWake
  then show ?thesis using thread_wake_ok [OF assms(2)] assms(3) by (auto simp: ok_iff)
next
  case (ThreadWrite at)
  then show ?thesis using thread_write_ok [OF assms(1,2), of at] assms(3) by (auto simp: ok_iff to_write_def)
qed

text \<open>Where the thread is after a step of its own.\<close>

lemma al_append_toWrite: "ok (\<lambda>s'. buffersToWrite s' = buffersToWrite s) (al_append m s) \<or> (\<exists>e. al_append m s = Inl e)"
  by (cases "nextBuffer s") (auto simp: al_append_def get_ptr_def Let_def rbind_def split: option.splits sum.splits)

lemma thread_wake_pc: "thread_wake s = Inr s' \<Longrightarrow> al_pc s' = Writing"
  by (auto simp: thread_wake_def rbind_eq_Inr Let_def)

lemma thread_write_pc: "thread_write E at s = Inr s' \<Longrightarrow> al_pc s' = Top \<and> al_running s' = al_running s"
  by (auto simp: thread_write_def rbind_eq_Inr Let_def split: if_splits)

interpretation async: guarded_machine "\<lambda>s. env_ok E \<and> al_inv E s" al_guard "al_step E" for E
proof
  fix s e
  assume "env_ok E \<and> al_inv E s" "al_guard e s"
  then show "ok (\<lambda>s. env_ok E \<and> al_inv E s) (al_step E e s)" using al_step_ok [of E s e] by (auto elim: ok_mono)
qed

text \<open>No write of a run drops buffers.\<close>

definition keeps_up :: "log_env \<Rightarrow> al_event list \<Rightarrow> AsyncLogging \<Rightarrow> bool" where
  "keeps_up E = guards (\<lambda>e s. al_guard e s \<and> \<not> overrun e s) (al_step E)"

lemma run_text:
  assumes E: "env_ok E"
  shows "al_inv E s \<Longrightarrow> keeps_up E es s \<Longrightarrow>
    ok (\<lambda>s'. al_inv E s' \<and> written s' @ pending s' = written s @ pending s @ concat (map logged es)) (rfold (al_step E) es s)"
proof (induction es arbitrary: s)
  case Nil
  then show ?case by simp
next
  case (Cons e es)
  have g: "al_guard e s" "\<not> overrun e s" using Cons.prems(2) by (auto simp: keeps_up_def)
  then obtain s' where s': "al_step E e s = Inr s'" "al_inv E s'" "written s' @ pending s' = written s @ pending s @ logged e"
    using al_step_ok [OF E Cons.prems(1), of e] by (auto simp: ok_iff)
  have "keeps_up E es s'" using Cons.prems(2) s'(1) by (simp add: keeps_up_def)
  from Cons.IH [OF s'(2) this] show ?case using s'(1,3) by (simp add: ok_iff) (metis append.assoc)
qed

lemma al_start_ok:
  assumes "env_ok E" and "CHR ''/'' \<notin> set base" and "0 \<le> roll"
  shows "ok (\<lambda>s. al_inv E s \<and> written s = [] \<and> pending s = [] \<and> al_pc s = Top) (al_start E base roll interval AsyncLogging_new)"
proof -
  obtain l where l: "LogFile_new E base roll interval 1024 0 = Inr l" "lf_inv E cLargeBuffer l" "lf_text l = []"
    using LogFile_new_ok [OF assms, of cLargeBuffer interval 1024] by (auto simp: ok_iff)
  then show ?thesis
    by (simp add: al_start_def thread_begin_def AsyncLogging_new_def al_inv_def written_def pending_def Let_def)
qed

section \<open>Properties\<close>


lemma demo_started: "\<exists>s. al_start demo_env ''app'' 1000 3 AsyncLogging_new = Inr s \<and> al_inv demo_env s \<and> al_pc s = Top"
  using al_start_ok [OF demo_env_ok, of "''app''" 1000 3] by (auto simp: ok_iff)




text \<open>C34: A message that is appended while the thread writes, before \<open>stop\<close> is called, is lost: the thread leaves its loop
  without writing it.\<close>

theorem stop_loses_messages:
  assumes "env_ok E" and "al_inv E s" and "al_pc s = Writing"
  shows "\<exists>s'. rfold (al_step E) [Append m, Stop, ThreadWrite at, ThreadTop] s = Inr s' \<and> al_pc s' = Finished \<and>
    written s' = written s @ to_write at (buffersToWrite s)"
proof -
  obtain s1 where s1: "al_append m s = Inr s1" "al_inv E s1" "written s1 = written s" "al_pc s1 = Writing"
    "buffersToWrite s1 = buffersToWrite s"
    using al_append_ok [OF assms(2), of m] al_append_toWrite [of s m] assms(3) by (auto simp: ok_iff)
  let ?s2 = "al_stop s1"
  have s2: "al_inv E ?s2" "al_pc ?s2 = Writing" using s1(2,4) by (auto simp: al_stop_def al_inv_def)
  obtain s3 where s3: "thread_write E at ?s2 = Inr s3" "al_inv E s3" "written s3 = written s @ to_write at (buffersToWrite s)"
    "al_pc s3 = Top" "\<not> al_running s3"
  proof -
    obtain s3 where "thread_write E at ?s2 = Inr s3" "al_inv E s3" "written s3 = written ?s2 @ to_write at (buffersToWrite ?s2)"
      using thread_write_ok [OF assms(1) s2, of at] by (auto simp: ok_iff)
    moreover have "written ?s2 = written s" "buffersToWrite ?s2 = buffersToWrite s" "\<not> al_running ?s2"
      using s1(3,5) by (simp_all add: al_stop_def written_def)
    ultimately show ?thesis using that thread_write_pc by metis
  qed
  have "\<exists>s'. thread_top s3 = Inr s' \<and> al_pc s' = Finished \<and> written s' = written s3"
    using s3(2,4,5) by (auto simp: thread_top_def al_inv_def get_ptr_def lf_flush_def lf_inv_def written_def split: option.splits)
  then show ?thesis using s1(1) s3(1,3) by auto
qed

theorem stop_loses_messages_witness:
  "\<exists>s s'. rfold (al_step demo_env) [Append ''lost'', Stop, ThreadWrite [], ThreadTop] s = Inr s' \<and> al_pc s' = Finished \<and>
    written s' = written s @ to_write [] (buffersToWrite s)"
proof -
  obtain s where s: "al_inv demo_env s" "al_pc s = Top" using demo_started by blast
  then obtain s1 where s1: "thread_wake s = Inr s1" "al_inv demo_env s1" "al_pc s1 = Writing"
    using thread_wake_ok [of demo_env s] thread_wake_pc [of s] by (auto simp: ok_iff)
  from stop_loses_messages [OF demo_env_ok s1(2,3)] show ?thesis by blast
qed

end
