(* ===== verification/LogPipeline.thy ===== *)
theory LogPipeline
  imports Logging AsyncLogging
begin

text \<open>
  The composition of \<open>Logging\<close>, \<open>AsyncLogging\<close> and \<open>LogFile\<close> that a program makes by giving \<open>AsyncLogging::append\<close> to \<open>Logger::setOutput\<close>:
  a statement of any thread makes its line and appends it, and the logging thread goes on in between. \<open>pl_logs\<close> has the thread-local
  variables of each thread, by its id, with the level and the zone that they share.
\<close>

section \<open>Model and specification\<close>

record statement =
  st_tid :: int
  st_us :: int
  st_macro :: macro
  st_file :: string
  st_line :: "32 word"
  st_func :: string
  st_items :: "item list"

record pipeline =
  pl_logs :: "int \<Rightarrow> LogState"
  pl_async :: AsyncLogging

datatype pipe_event = Statement statement | Backend al_event

text \<open>A fatal statement ends the process.\<close>

definition run_statement :: "(int \<Rightarrow> tm) \<Rightarrow> statement \<Rightarrow> LogState \<Rightarrow> LogState outcome res" where
  "run_statement gmtime_r x S =
    log_statement gmtime_r (st_tid x) (Time (st_us x)) (st_macro x) (st_file x) (st_line x) (st_func x) (st_items x) S"

fun pipe_step :: "(int \<Rightarrow> tm) \<Rightarrow> log_env \<Rightarrow> pipe_event \<Rightarrow> pipeline \<Rightarrow> pipeline res" where
  "pipe_step gmtime_r E (Statement x) p =
    (let S = pl_logs p (st_tid x) in
     rbind (run_statement gmtime_r x S) (\<lambda>r.
     case r of
       Aborts S' \<Rightarrow> Inl Abort
     | Returns S' \<Rightarrow>
         rbind (rfold al_append (drop (length (lines S)) (lines S')) (pl_async p)) (\<lambda>a.
         Inr (p\<lparr>pl_logs := (pl_logs p)(st_tid x := S'), pl_async := a\<rparr>))))"
| "pipe_step gmtime_r E (Backend e) p = rbind (al_step E e (pl_async p)) (\<lambda>a. Inr (p\<lparr>pl_async := a\<rparr>))"

text \<open>The line of a statement, and what it needs: a thread id, a time that the zone can break down, and a level below fatal.\<close>

definition statement_time :: "(int \<Rightarrow> tm) \<Rightarrow> TimeZone \<Rightarrow> statement \<Rightarrow> tm" where
  "statement_time gmtime_r tz x = projr (zone_time gmtime_r tz (st_us x div 1000000))"

definition statement_line :: "(int \<Rightarrow> tm) \<Rightarrow> LogLevel \<Rightarrow> TimeZone \<Rightarrow> statement \<Rightarrow> string" where
  "statement_line gmtime_r level tz x =
    (if checks_level (st_macro x) \<and> level_num (macro_level (st_macro x)) < level_num level then []
     else log_line (all_items (statement_time gmtime_r tz x) (st_us x mod 1000000) (TimeZone_vaild tz) (st_tid x) (st_macro x)
       (st_file x) (st_line x) (st_func x) (st_items x)))"

definition statement_ok :: "(int \<Rightarrow> tm) \<Rightarrow> TimeZone \<Rightarrow> statement \<Rightarrow> bool" where
  "statement_ok gmtime_r tz x \<longleftrightarrow> 0 < st_tid x \<and> st_tid x < 2 ^ 31 \<and> 1000000 \<le> st_us x \<and>
    (\<exists>t. zone_time gmtime_r tz (st_us x div 1000000) = Inr t \<and> tm_ok t) \<and> list_all text_ok (st_items x) \<and> macro_level (st_macro x) \<noteq> FATAL"

text \<open>The logging thread keeps up, and nothing but the statements appends.\<close>

fun pipe_guard :: "(int \<Rightarrow> tm) \<Rightarrow> TimeZone \<Rightarrow> pipe_event \<Rightarrow> pipeline \<Rightarrow> bool" where
  "pipe_guard gmtime_r tz (Statement x) p \<longleftrightarrow> statement_ok gmtime_r tz x"
| "pipe_guard gmtime_r tz (Backend e) p \<longleftrightarrow> al_guard e (pl_async p) \<and> \<not> overrun e (pl_async p) \<and> (\<forall>m. e \<noteq> Append m)"

fun stated :: "(int \<Rightarrow> tm) \<Rightarrow> LogLevel \<Rightarrow> TimeZone \<Rightarrow> pipe_event \<Rightarrow> string" where
  "stated gmtime_r level tz (Statement x) = statement_line gmtime_r level tz x"
| "stated gmtime_r level tz (Backend e) = []"

definition pipe_inv :: "(int \<Rightarrow> tm) \<Rightarrow> LogLevel \<Rightarrow> TimeZone \<Rightarrow> log_env \<Rightarrow> pipeline \<Rightarrow> bool" where
  "pipe_inv gmtime_r level tz E p \<longleftrightarrow> env_ok E \<and> al_inv E (pl_async p) \<and>
    (\<forall>i. log_inv gmtime_r i (pl_logs p i) \<and> g_logLevel (pl_logs p i) = level \<and> g_logTimeZone (pl_logs p i) = tz)"

definition pipe_text :: "pipeline \<Rightarrow> string" where
  "pipe_text p = written (pl_async p) @ pending (pl_async p)"

section \<open>Lemmas\<close>

lemma statement_ok_step:
  assumes inv: "pipe_inv gmtime_r level tz E p" and x: "statement_ok gmtime_r tz x"
  shows "ok (\<lambda>p'. pipe_inv gmtime_r level tz E p' \<and> pipe_text p' = pipe_text p @ statement_line gmtime_r level tz x)
    (pipe_step gmtime_r E (Statement x) p)"
proof (cases "checks_level (st_macro x) \<and> level_num (macro_level (st_macro x)) < level_num level")
  case True
  let ?S = "pl_logs p (st_tid x)"
  have "g_logLevel ?S = level" using inv by (simp add: pipe_inv_def)
  then have "run_statement gmtime_r x ?S = Inr (Returns ?S)" using True by (simp add: run_statement_def log_statement_def)
  then show ?thesis using inv True by (simp add: statement_line_def)
next
  case False
  let ?S = "pl_logs p (st_tid x)" and ?l = "statement_line gmtime_r level tz x"
  have S: "g_logLevel ?S = level" "g_logTimeZone ?S = tz" "log_inv gmtime_r (st_tid x) ?S" "al_inv E (pl_async p)" "env_ok E"
    using inv by (simp_all add: pipe_inv_def)
  have can: "can_log gmtime_r (st_tid x) (st_us x) ?S (statement_time gmtime_r tz x)"
    using x S by (auto simp: can_log_def statement_ok_def statement_time_def)
  have items: "\<And>y. y \<in> set (st_items x) \<Longrightarrow> text_ok y" and nf: "macro_level (st_macro x) \<noteq> FATAL"
    using x by (simp_all add: statement_ok_def list_all_iff)
  have low: "\<not> (checks_level (st_macro x) \<and> level_num (macro_level (st_macro x)) < level_num (g_logLevel ?S))" using False S(1) by simp
  obtain S' where S': "run_statement gmtime_r x ?S = Inr (Returns S')" "log_inv gmtime_r (st_tid x) S'" "g_logLevel S' = level"
    "g_logTimeZone S' = tz" "lines S' = lines ?S @ [?l]" "length ?l \<le> cSmallBuffer"
    using log_statement_ok [OF can items low, where fi = "st_file x" and li = "st_line x" and fu = "st_func x"] nf S(1,2) False
    by (auto simp: run_statement_def statement_line_def)
  then have "fits ?l = ?l" by (simp add: fits_def cSmallBuffer_def cLargeBuffer_def)
  then obtain a where a: "al_append ?l (pl_async p) = Inr a" "al_inv E a" "written a @ pending a = pipe_text p @ ?l"
    using al_append_ok [OF S(4), of ?l] by (auto simp: ok_iff pipe_text_def)
  show ?thesis using S'(1-5) a inv by (simp add: pipe_inv_def pipe_text_def)
qed

lemma pipe_step_ok:
  assumes "pipe_inv gmtime_r level tz E p" and "pipe_guard gmtime_r tz e p"
  shows "ok (\<lambda>p'. pipe_inv gmtime_r level tz E p' \<and> pipe_text p' = pipe_text p @ stated gmtime_r level tz e) (pipe_step gmtime_r E e p)"
proof (cases e)
  case (Statement x)
  then show ?thesis using statement_ok_step assms by simp
next
  case (Backend b)
  then have "logged b = []" using assms(2) by (cases b) auto
  then show ?thesis
    using Backend assms al_step_ok [of E "pl_async p" b] by (auto simp: pipe_inv_def pipe_text_def ok_iff)
qed

interpretation pipe: guarded_machine "pipe_inv gmtime_r level tz E" "pipe_guard gmtime_r tz" "pipe_step gmtime_r E" for gmtime_r level tz E
proof
  fix p e
  assume "pipe_inv gmtime_r level tz E p" "pipe_guard gmtime_r tz e p"
  from pipe_step_ok [OF this] show "ok (pipe_inv gmtime_r level tz E) (pipe_step gmtime_r E e p)" by (rule ok_mono) simp
qed

section \<open>Properties\<close>


definition demo_statement :: "int \<Rightarrow> macro \<Rightarrow> string \<Rightarrow> statement" where
  "demo_statement i m msg = \<lparr>st_tid = i, st_us = 1000000007000123, st_macro = m, st_file = ''net/EventLoop.cc'', st_line = 77, st_func = ''poll'',
    st_items = [ItStr msg]\<rparr>"


end
