(* ===== verification/StackTrace.thy ===== *)
theory StackTrace
  imports Prelude
begin

text \<open>
  \<^verbatim>\<open>stackTrace\<close> of \<^verbatim>\<open>src/netlib/base/CurrentThread.cc\<close> and the exceptions of \<^verbatim>\<open>Exception.cc\<close>, which carry it. The frames are what
  \<open>backtrace_symbols\<close> returns, \<open>None\<close> when it fails; \<open>cxa_demangle\<close> is the demangler of the C++ runtime, with \<open>None\<close> for a non-zero status.
  Pointers into a frame are offsets.
\<close>

section \<open>Model\<close>

text \<open>The inner loop: the offsets of the last opening parenthesis and the last plus sign seen.\<close>

fun scan_frame :: "string \<Rightarrow> nat \<Rightarrow> nat option \<Rightarrow> nat option \<Rightarrow> nat option \<times> nat option" where
  "scan_frame [] i left_par plus_p = (left_par, plus_p)"
| "scan_frame (c # cs) i left_par plus_p =
    (if c = CHR ''('' then scan_frame cs (Suc i) (Some i) plus_p
     else if c = CHR ''+'' then scan_frame cs (Suc i) left_par (Some i)
     else scan_frame cs (Suc i) left_par plus_p)"

text \<open>One turn of the outer loop. While the demangler runs, the plus sign is overwritten by a zero, which ends the symbol.\<close>

definition frame_text :: "bool \<Rightarrow> (string \<Rightarrow> string option) \<Rightarrow> string \<Rightarrow> string" where
  "frame_text demangle cxa_demangle frame =
    (let plain = frame @ [CHR 0x0A] in
     if demangle
     then case scan_frame frame 0 None None of
         (Some left_par, Some plus_p) \<Rightarrow>
           (case cxa_demangle (takeWhile (\<lambda>c. c \<noteq> CHR 0x00) (drop (left_par + 1) (frame[plus_p := CHR 0x00]))) of
              Some demangled \<Rightarrow> take (left_par + 1) frame @ demangled @ drop plus_p frame @ [CHR 0x0A]
            | None \<Rightarrow> plain)
       | _ \<Rightarrow> plain
     else plain)"

definition stackTrace :: "bool \<Rightarrow> (string \<Rightarrow> string option) \<Rightarrow> string list option \<Rightarrow> string" where
  "stackTrace demangle cxa_demangle strings =
    (case strings of
       None \<Rightarrow> []
     | Some fs \<Rightarrow> concat (map (\<lambda>i. frame_text demangle cxa_demangle (fs ! i)) [1..<length fs]))"

record Exception =
  ex_message :: string
  ex_stack :: string

definition Exception_new :: "string \<Rightarrow> string list option \<Rightarrow> Exception" where
  "Exception_new what strings = \<lparr>ex_message = what, ex_stack = stackTrace False (\<lambda>s. None) strings\<rparr>"

section \<open>Specification\<close>

text \<open>A frame as the runtime writes it, such as \<^verbatim>\<open>./server(_ZN6netlib9EventLoop4loopEv+0x1a) [0x4005]\<close>: the symbol is between the last opening
  parenthesis and the last plus sign.\<close>

datatype frame = Symbol string string string | Raw string

fun frame_string :: "frame \<Rightarrow> string" where
  "frame_string (Symbol module symbol offset) = module @ ''('' @ symbol @ ''+'' @ offset"
| "frame_string (Raw s) = s"

fun frame_ok :: "frame \<Rightarrow> bool" where
  "frame_ok (Symbol module symbol offset) \<longleftrightarrow>
    CHR ''('' \<notin> set symbol \<and> CHR ''('' \<notin> set offset \<and> CHR ''+'' \<notin> set offset \<and> CHR 0x00 \<notin> set symbol"
| "frame_ok (Raw s) \<longleftrightarrow> CHR ''('' \<notin> set s \<or> CHR ''+'' \<notin> set s"

fun demangled_line :: "(string \<Rightarrow> string option) \<Rightarrow> frame \<Rightarrow> string" where
  "demangled_line cxa (Symbol module symbol offset) =
    module @ ''('' @ (case cxa symbol of Some d \<Rightarrow> d | None \<Rightarrow> symbol) @ ''+'' @ offset @ [CHR 0x0A]"
| "demangled_line cxa (Raw s) = s @ [CHR 0x0A]"

section \<open>Lemmas\<close>

lemma scan_append:
  "scan_frame (xs @ ys) i l p = scan_frame ys (i + length xs) (fst (scan_frame xs i l p)) (snd (scan_frame xs i l p))"
  by (induction xs arbitrary: i l p) simp_all

lemma scan_no_par: "CHR ''('' \<notin> set xs \<Longrightarrow> fst (scan_frame xs i l p) = l"
  by (induction xs arbitrary: i p) auto

lemma scan_no_plus: "CHR ''+'' \<notin> set xs \<Longrightarrow> snd (scan_frame xs i l p) = p"
  by (induction xs arbitrary: i l) auto

lemma scan_symbol:
  assumes "frame_ok (Symbol module symbol offset)"
  shows "scan_frame (frame_string (Symbol module symbol offset)) 0 None None =
    (Some (length module), Some (length module + length symbol + 1))"
  using assms scan_no_par scan_no_plus by (simp add: scan_append prod_eq_iff)

lemma frame_text_symbol:
  assumes "frame_ok (Symbol module symbol offset)"
  shows "frame_text True cxa (frame_string (Symbol module symbol offset)) = demangled_line cxa (Symbol module symbol offset)"
proof -
  let ?f = "frame_string (Symbol module symbol offset)"
  have s: "\<forall>c \<in> set symbol. c \<noteq> CHR 0x00" using assms by auto
  have z: "?f[length module + length symbol + 1 := CHR 0x00] = module @ ''('' @ symbol @ CHR 0x00 # offset"
    by (simp add: list_update_append)
  have "takeWhile (\<lambda>c. c \<noteq> CHR 0x00) (drop (length module + 1) (?f[length module + length symbol + 1 := CHR 0x00])) = symbol"
    unfolding z using takeWhile_append2 [of symbol "\<lambda>c. c \<noteq> CHR 0x00"] s by simp
  then show ?thesis unfolding frame_text_def scan_symbol [OF assms] by (simp split: option.splits)
qed

lemma frame_text_raw:
  assumes "frame_ok (Raw s)"
  shows "frame_text True cxa s = s @ [CHR 0x0A]"
proof -
  have "fst (scan_frame s 0 None None) = None \<or> snd (scan_frame s 0 None None) = None"
    using assms scan_no_par scan_no_plus by auto
  then show ?thesis by (cases "scan_frame s 0 None None") (auto simp: frame_text_def Let_def split: option.splits)
qed

lemma frame_text_line: "frame_ok f \<Longrightarrow> frame_text True cxa (frame_string f) = demangled_line cxa f"
  using frame_text_symbol frame_text_raw by (cases f) (simp_all del: frame_ok.simps frame_string.simps(1) demangled_line.simps(1))

lemma map_tl_upt: "map (\<lambda>i. g (xs ! i)) [1..<length xs] = map g (tl xs)"
  by (rule nth_equalityI) (simp_all add: nth_tl)

section \<open>Properties\<close>

text \<open>C40: A stack trace has one line for each frame but that of the function itself, in order. Without demangling a line is the frame as the runtime wrote it; with
  demangling the symbol of a frame is replaced by its demangled name where the demangler knows it, and everything else, also
  a frame that has no symbol, is kept unchanged. The stack of an exception is the trace without demangling.\<close>

theorem stack_trace_lines:
  assumes "\<And>f. f \<in> set fs \<Longrightarrow> frame_ok f"
  shows "stackTrace True cxa (Some (map frame_string fs)) = concat (map (demangled_line cxa) (tl fs)) \<and>
    stackTrace False cxa (Some ss) = concat (map (\<lambda>s. s @ [CHR 0x0A]) (tl ss)) \<and>
    ex_stack (Exception_new what (Some ss)) = stackTrace False cxa (Some ss) \<and> stackTrace d cxa None = []"
proof -
  have "map (frame_text True cxa) (tl (map frame_string fs)) = map (demangled_line cxa) (tl fs)"
    using assms frame_text_line by (cases fs) auto
  then have "stackTrace True cxa (Some (map frame_string fs)) = concat (map (demangled_line cxa) (tl fs))"
    unfolding stackTrace_def option.case map_tl_upt [of "frame_text True cxa"] by simp
  moreover have "stackTrace False c (Some ss) = concat (map (\<lambda>s. s @ [CHR 0x0A]) (tl ss))" for c
    unfolding stackTrace_def option.case map_tl_upt [of "frame_text False c"]
    by (rule arg_cong [of _ _ concat]) (simp add: frame_text_def)
  ultimately show ?thesis by (simp add: Exception_new_def) (simp add: stackTrace_def)
qed

theorem stack_trace_lines_witness:
  "stackTrace True (\<lambda>s. if s = ''_Z1fv'' then Some ''f()'' else None)
      (Some [''x'', ''./a(_Z1fv+0x1a) [0x40]'', ''./a(main+0x2) [0x41]'', ''[0x42]'']) =
    ''./a(f()+0x1a) [0x40]'' @ [CHR 0x0A] @ ''./a(main+0x2) [0x41]'' @ [CHR 0x0A] @ ''[0x42]'' @ [CHR 0x0A]"
proof -
  let ?fs = "[Raw ''x'', Symbol ''./a'' ''_Z1fv'' ''0x1a) [0x40]'', Symbol ''./a'' ''main'' ''0x2) [0x41]'', Raw ''[0x42]'']"
  have "\<And>f. f \<in> set ?fs \<Longrightarrow> frame_ok f" by auto
  from stack_trace_lines [where fs = ?fs, OF this, where cxa = "\<lambda>s. if s = ''_Z1fv'' then Some ''f()'' else None"] show ?thesis by simp
qed

end
