(* ===== verification/EventLoopThread.thy ===== *)
theory EventLoopThread
  imports Formatting
begin

text \<open>
  \<^verbatim>\<open>src/netlib/base/Mutex.h\<close>, \<^verbatim>\<open>Condition.h\<close>, \<^verbatim>\<open>CountDownLatch.cc\<close>, \<^verbatim>\<open>Thread.cc\<close> and \<^verbatim>\<open>src/netlib/net/EventLoopThread.cc\<close>: how a thread
  with an event loop is started and stopped.

  Two threads take steps: the owner, which calls \<open>startLoop\<close> and the destructor, and the worker, which runs
  \<open>runInThread\<close> and \<open>threadFunc\<close>; \<open>m_pc\<close> and \<open>w_pc\<close> say where they are. Taking a mutex is a step, and so is what follows up
  to its release or to a wait. A wait puts the caller into the set of waiting threads and releases the mutex; it goes on when
  the thread has left the set, by a notification or spuriously, and the mutex is free. A step that has to wait is not
  enabled. Unlocking or waiting without holding the mutex is undefined and the fault \<open>LogicError\<close>.
\<close>

section \<open>Model\<close>

subsection \<open>Mutexes, conditions and the latch\<close>

text \<open>\<open>mx_owner\<close> is the state of the pthread mutex, \<open>mx_holder\<close> the member \<open>_holder\<close>.\<close>

record Mutex =
  mx_owner :: "int option"
  mx_holder :: int

definition Mutex_new :: Mutex where
  "Mutex_new = \<lparr>mx_owner = None, mx_holder = 0\<rparr>"

definition Mutex_free :: "Mutex \<Rightarrow> bool" where
  "Mutex_free m \<longleftrightarrow> mx_owner m = None"

definition Mutex_lock :: "int \<Rightarrow> Mutex \<Rightarrow> Mutex" where
  "Mutex_lock t m = m\<lparr>mx_owner := Some t, mx_holder := t\<rparr>"

definition Mutex_unlock :: "int \<Rightarrow> Mutex \<Rightarrow> Mutex res" where
  "Mutex_unlock t m =
    (if mx_owner m = Some t then Inr (m\<lparr>mx_holder := 0, mx_owner := None\<rparr>) else Inl (LogicError ''mutex''))"

definition isLockedByThisThread :: "int \<Rightarrow> Mutex \<Rightarrow> bool" where
  "isLockedByThisThread t m \<longleftrightarrow> mx_holder m = t"

text \<open>A condition is the set of the threads that wait. The two halves of \<open>wait\<close>: up to the release of the mutex, and from taking it again.\<close>

type_synonym Condition = "int set"

definition Condition_wait :: "int \<Rightarrow> Mutex \<Rightarrow> Condition \<Rightarrow> (Mutex \<times> Condition) res" where
  "Condition_wait t m c =
    (if mx_owner m = Some t then Inr (m\<lparr>mx_holder := 0, mx_owner := None\<rparr>, insert t c) else Inl (LogicError ''mutex''))"

definition Condition_resume :: "int \<Rightarrow> Mutex \<Rightarrow> Mutex" where
  "Condition_resume t m = m\<lparr>mx_owner := Some t, mx_holder := t\<rparr>"

definition notify :: "int \<Rightarrow> Condition \<Rightarrow> Condition" where
  "notify w c = c - {w}"

definition notifyAll :: "Condition \<Rightarrow> Condition" where
  "notifyAll c = {}"

record CountDownLatch =
  cd_mutex :: Mutex
  cd_cond :: Condition
  cd_count :: int

definition CountDownLatch_new :: "int \<Rightarrow> CountDownLatch" where
  "CountDownLatch_new n = \<lparr>cd_mutex = Mutex_new, cd_cond = {}, cd_count = n\<rparr>"

text \<open>A turn of the loop of \<open>wait\<close>, with the mutex held; the result says whether the loop has ended.\<close>

definition cd_wait :: "int \<Rightarrow> CountDownLatch \<Rightarrow> (bool \<times> CountDownLatch) res" where
  "cd_wait t L =
    (if 0 < cd_count L
     then rbind (Condition_wait t (cd_mutex L) (cd_cond L)) (\<lambda>(m, c). Inr (False, L\<lparr>cd_mutex := m, cd_cond := c\<rparr>))
     else rbind (Mutex_unlock t (cd_mutex L)) (\<lambda>m. Inr (True, L\<lparr>cd_mutex := m\<rparr>)))"

definition countDown :: "int \<Rightarrow> CountDownLatch \<Rightarrow> CountDownLatch res" where
  "countDown t L =
    (let n = cd_count L - 1; c = (if n = 0 then notifyAll (cd_cond L) else cd_cond L)
     in rbind (Mutex_unlock t (cd_mutex L)) (\<lambda>m. Inr (L\<lparr>cd_mutex := m, cd_cond := c, cd_count := n\<rparr>)))"

subsection \<open>Threads\<close>

record Thread =
  th_start :: bool
  th_join :: bool
  th_tid :: int
  th_latch :: CountDownLatch
  th_name :: string

definition setDefaultName :: "nat \<Rightarrow> string \<Rightarrow> string" where
  "setDefaultName numCreated name =
    (if name = [] then snd (snprintf 32 (''Thread'' @ dec_int (int numCreated + 1))) else name)"

definition Thread_new :: "nat \<Rightarrow> string \<Rightarrow> Thread" where
  "Thread_new numCreated name = \<lparr>th_start = False, th_join = False, th_tid = 0, th_latch = CountDownLatch_new 1,
    th_name = setDefaultName numCreated name\<rparr>"

text \<open>\<open>start\<close> up to the wait, with the result of \<open>pthread_create\<close>, and from it on.\<close>

definition Thread_start :: "bool \<Rightarrow> Thread \<Rightarrow> Thread res" where
  "Thread_start created th =
    (if th_start th then Inl AssertFail else if created then Inr (th\<lparr>th_start := True\<rparr>) else Inl Abort)"

definition Thread_started :: "Thread \<Rightarrow> unit res" where
  "Thread_started th = (if 0 < th_tid th then Inr () else Inl AssertFail)"

definition Thread_join :: "Thread \<Rightarrow> Thread res" where
  "Thread_join th = (if \<not> th_start th \<or> th_join th then Inl AssertFail else Inr (th\<lparr>th_join := True\<rparr>))"

definition Thread_detaches :: "Thread \<Rightarrow> bool" where
  "Thread_detaches th \<longleftrightarrow> th_start th \<and> \<not> th_join th"

subsection \<open>The thread of an event loop\<close>

datatype owner_pc = MNew | MLatchLock | MLatchTest | MLatchSleep | MStarted | MLock | MTest | MSleep | MDone | MJoin | MDestroyed

datatype worker_pc = WNone | WTid | WLatchLock | WCountDown | WInit | WLock | WPublish | WEnter | WLoop | WRelock | WClear | WUnlock | WEnd

text \<open>\<open>inits\<close> are the loops the callback was called with, \<open>loop_quit\<close> is \<open>_quit\<close> of the worker's loop, \<open>returned\<close> the result of \<open>startLoop\<close>.\<close>

record EventLoopThread =
  elt_thread :: Thread
  elt_callback :: bool
  exiting :: bool
  elt_mutex :: Mutex
  elt_cond :: Condition
  elt_loop :: "nat option"
  inits :: "nat list"
  loop_quit :: bool
  returned :: "nat option"
  m_pc :: owner_pc
  w_pc :: worker_pc

definition EventLoopThread_new :: "nat \<Rightarrow> bool \<Rightarrow> string \<Rightarrow> EventLoopThread" where
  "EventLoopThread_new numCreated cb name = \<lparr>elt_thread = Thread_new numCreated name, elt_callback = cb, exiting = False,
    elt_mutex = Mutex_new, elt_cond = {}, elt_loop = None, inits = [], loop_quit = False, returned = None, m_pc = MNew, w_pc = WNone\<rparr>"

abbreviation upd_latch :: "CountDownLatch \<Rightarrow> EventLoopThread \<Rightarrow> EventLoopThread" where
  "upd_latch L s \<equiv> s\<lparr>elt_thread := (elt_thread s)\<lparr>th_latch := L\<rparr>\<rparr>"

text \<open>The ids of the two threads and the address of the worker's loop.\<close>

record names =
  owner_tid :: int
  worker_tid :: int
  loop_ptr :: nat

definition startLoop :: "bool \<Rightarrow> EventLoopThread \<Rightarrow> EventLoopThread res" where
  "startLoop created s =
    (if th_start (elt_thread s) then Inl AssertFail
     else rbind (Thread_start created (elt_thread s)) (\<lambda>th. Inr (s\<lparr>elt_thread := th, m_pc := MLatchLock, w_pc := WTid\<rparr>)))"

text \<open>What the owner does next: the rest of \<open>Thread::start\<close>, of \<open>startLoop\<close> and of the destructor.\<close>

definition owner_step :: "names \<Rightarrow> EventLoopThread \<Rightarrow> EventLoopThread res" where
  "owner_step E s =
    (let t = owner_tid E; L = th_latch (elt_thread s) in
     case m_pc s of
       MLatchLock \<Rightarrow> Inr ((upd_latch (L\<lparr>cd_mutex := Mutex_lock t (cd_mutex L)\<rparr>) s)\<lparr>m_pc := MLatchTest\<rparr>)
     | MLatchTest \<Rightarrow> rbind (cd_wait t L) (\<lambda>(ended, L). Inr ((upd_latch L s)\<lparr>m_pc := if ended then MStarted else MLatchSleep\<rparr>))
     | MLatchSleep \<Rightarrow> Inr ((upd_latch (L\<lparr>cd_mutex := Condition_resume t (cd_mutex L)\<rparr>) s)\<lparr>m_pc := MLatchTest\<rparr>)
     | MStarted \<Rightarrow> rbind (Thread_started (elt_thread s)) (\<lambda>_. Inr (s\<lparr>m_pc := MLock\<rparr>))
     | MLock \<Rightarrow> Inr (s\<lparr>elt_mutex := Mutex_lock t (elt_mutex s), m_pc := MTest\<rparr>)
     | MTest \<Rightarrow>
         (case elt_loop s of
            None \<Rightarrow> rbind (Condition_wait t (elt_mutex s) (elt_cond s)) (\<lambda>(m, c). Inr (s\<lparr>elt_mutex := m, elt_cond := c, m_pc := MSleep\<rparr>))
          | Some l \<Rightarrow> rbind (Mutex_unlock t (elt_mutex s)) (\<lambda>m. Inr (s\<lparr>elt_mutex := m, returned := Some l, m_pc := MDone\<rparr>)))
     | MSleep \<Rightarrow> Inr (s\<lparr>elt_mutex := Condition_resume t (elt_mutex s), m_pc := MTest\<rparr>)
     | MJoin \<Rightarrow> Inr (s\<lparr>m_pc := MDestroyed\<rparr>)
     | _ \<Rightarrow> Inr s)"

text \<open>The destructor up to \<open>pthread_join\<close>; without a loop it is over.\<close>

definition EventLoopThread_delete :: "EventLoopThread \<Rightarrow> EventLoopThread res" where
  "EventLoopThread_delete s =
    (let s = s\<lparr>exiting := True\<rparr> in
     if elt_loop s \<noteq> None
     then rbind (Thread_join (elt_thread s)) (\<lambda>th. Inr (s\<lparr>loop_quit := True, elt_thread := th, m_pc := MJoin\<rparr>))
     else Inr (s\<lparr>m_pc := MDestroyed\<rparr>))"

text \<open>What the worker does next, in \<open>runInThread\<close> up to the latch and then in \<open>threadFunc\<close>; the waiter a notification wakes is \<open>w\<close>.
  The object it belongs to must still be there.\<close>

definition worker_step :: "names \<Rightarrow> int \<Rightarrow> EventLoopThread \<Rightarrow> EventLoopThread res" where
  "worker_step E w s =
    (let t = worker_tid E; L = th_latch (elt_thread s) in
     if m_pc s = MDestroyed \<and> w_pc s \<notin> {WEnter, WLoop} then Inl UseAfterFree else
     case w_pc s of
       WTid \<Rightarrow> Inr (s\<lparr>elt_thread := (elt_thread s)\<lparr>th_tid := t\<rparr>, w_pc := WLatchLock\<rparr>)
     | WLatchLock \<Rightarrow> Inr ((upd_latch (L\<lparr>cd_mutex := Mutex_lock t (cd_mutex L)\<rparr>) s)\<lparr>w_pc := WCountDown\<rparr>)
     | WCountDown \<Rightarrow> rbind (countDown t L) (\<lambda>L. Inr ((upd_latch L s)\<lparr>w_pc := WInit\<rparr>))
     | WInit \<Rightarrow> Inr (s\<lparr>inits := inits s @ (if elt_callback s then [loop_ptr E] else []), loop_quit := False, w_pc := WLock\<rparr>)
     | WLock \<Rightarrow> Inr (s\<lparr>elt_mutex := Mutex_lock t (elt_mutex s), w_pc := WPublish\<rparr>)
     | WPublish \<Rightarrow> rbind (Mutex_unlock t (elt_mutex s)) (\<lambda>m.
         Inr (s\<lparr>elt_loop := Some (loop_ptr E), elt_cond := notify w (elt_cond s), elt_mutex := m, w_pc := WEnter\<rparr>))
     | WEnter \<Rightarrow> Inr (s\<lparr>loop_quit := False, w_pc := WLoop\<rparr>)
     | WLoop \<Rightarrow> Inr (s\<lparr>w_pc := WRelock\<rparr>)
     | WRelock \<Rightarrow> Inr (s\<lparr>elt_mutex := Mutex_lock t (elt_mutex s), w_pc := WClear\<rparr>)
     | WClear \<Rightarrow> Inr (s\<lparr>elt_loop := None, w_pc := WUnlock\<rparr>)
     | WUnlock \<Rightarrow> rbind (Mutex_unlock t (elt_mutex s)) (\<lambda>m. Inr (s\<lparr>elt_mutex := m, w_pc := WEnd\<rparr>))
     | _ \<Rightarrow> Inr s)"

text \<open>The events of a run: the calls of the owner, steps of the two threads, a spurious wake-up, and a call of \<open>quit\<close> by user code on the loop.\<close>

datatype elt_event = StartLoop bool | Owner | Worker int | Spurious | Destroy | UserQuit

fun elt_step :: "names \<Rightarrow> elt_event \<Rightarrow> EventLoopThread \<Rightarrow> EventLoopThread res" where
  "elt_step E (StartLoop created) s = startLoop created s"
| "elt_step E Owner s = owner_step E s"
| "elt_step E (Worker w) s = worker_step E w s"
| "elt_step E Spurious s = Inr ((upd_latch ((th_latch (elt_thread s))\<lparr>cd_cond := {}\<rparr>) s)\<lparr>elt_cond := {}\<rparr>)"
| "elt_step E Destroy s = EventLoopThread_delete s"
| "elt_step E UserQuit s = Inr (s\<lparr>loop_quit := True\<rparr>)"

text \<open>When an event can happen: a lock needs a free mutex, a waiter must have been woken, a join needs the end of the worker and the loop
  runs until it is told to quit.\<close>

fun enabled :: "names \<Rightarrow> elt_event \<Rightarrow> EventLoopThread \<Rightarrow> bool" where
  "enabled E (StartLoop created) s \<longleftrightarrow> m_pc s = MNew"
| "enabled E Owner s \<longleftrightarrow>
    (let L = th_latch (elt_thread s) in
     case m_pc s of
       MLatchLock \<Rightarrow> Mutex_free (cd_mutex L) | MLatchSleep \<Rightarrow> owner_tid E \<notin> cd_cond L \<and> Mutex_free (cd_mutex L)
     | MLock \<Rightarrow> Mutex_free (elt_mutex s) | MSleep \<Rightarrow> owner_tid E \<notin> elt_cond s \<and> Mutex_free (elt_mutex s)
     | MJoin \<Rightarrow> w_pc s = WEnd | MNew \<Rightarrow> False | MDone \<Rightarrow> False | MDestroyed \<Rightarrow> False | _ \<Rightarrow> True)"
| "enabled E (Worker w) s \<longleftrightarrow>
    (case w_pc s of
       WNone \<Rightarrow> False | WEnd \<Rightarrow> False | WLatchLock \<Rightarrow> Mutex_free (cd_mutex (th_latch (elt_thread s)))
     | WLock \<Rightarrow> Mutex_free (elt_mutex s) | WRelock \<Rightarrow> Mutex_free (elt_mutex s) | WLoop \<Rightarrow> loop_quit s
     | WPublish \<Rightarrow> elt_cond s = {} \<or> w \<in> elt_cond s | _ \<Rightarrow> True)"
| "enabled E Spurious s \<longleftrightarrow> owner_tid E \<in> cd_cond (th_latch (elt_thread s)) \<or> owner_tid E \<in> elt_cond s"
| "enabled E Destroy s \<longleftrightarrow> m_pc s = MDone"
| "enabled E UserQuit s \<longleftrightarrow> w_pc s \<in> {WLock, WPublish, WEnter, WLoop}"

section \<open>Specification\<close>

text \<open>What the user of the class ensures: threads can be created, the loop is only told to quit by the destructor, and the destructor is
  not called before the worker has entered the loop.\<close>

fun elt_guard :: "names \<Rightarrow> elt_event \<Rightarrow> EventLoopThread \<Rightarrow> bool" where
  "elt_guard E (StartLoop created) s \<longleftrightarrow> enabled E (StartLoop created) s \<and> created"
| "elt_guard E Destroy s \<longleftrightarrow> enabled E Destroy s \<and> w_pc s = WLoop"
| "elt_guard E UserQuit s \<longleftrightarrow> False"
| "elt_guard E e s \<longleftrightarrow> enabled E e s"

definition tids_ok :: "names \<Rightarrow> bool" where
  "tids_ok E \<longleftrightarrow> 0 < owner_tid E \<and> 0 < worker_tid E \<and> owner_tid E \<noteq> worker_tid E"

definition held_by :: "int option \<Rightarrow> Mutex \<Rightarrow> bool" where
  "held_by t m \<longleftrightarrow> mx_owner m = t \<and> mx_holder m = (case t of None \<Rightarrow> 0 | Some t \<Rightarrow> t)"

definition latch_inv :: "names \<Rightarrow> EventLoopThread \<Rightarrow> bool" where
  "latch_inv E s \<longleftrightarrow> (let L = th_latch (elt_thread s) in
    held_by (if m_pc s = MLatchTest then Some (owner_tid E) else if w_pc s = WCountDown then Some (worker_tid E) else None) (cd_mutex L) \<and>
    \<not> (m_pc s = MLatchTest \<and> w_pc s = WCountDown) \<and>
    cd_count L = (if w_pc s \<in> {WNone, WTid, WLatchLock, WCountDown} then 1 else 0) \<and>
    (cd_cond L = {} \<or> cd_cond L = {owner_tid E} \<and> m_pc s = MLatchSleep \<and> cd_count L = 1) \<and>
    (m_pc s \<notin> {MNew, MLatchLock, MLatchTest, MLatchSleep} \<longrightarrow> cd_count L = 0) \<and>
    (w_pc s \<notin> {WNone, WTid} \<longrightarrow> th_tid (elt_thread s) = worker_tid E))"

definition loop_inv :: "names \<Rightarrow> EventLoopThread \<Rightarrow> bool" where
  "loop_inv E s \<longleftrightarrow>
    held_by (if m_pc s = MTest then Some (owner_tid E) else if w_pc s \<in> {WPublish, WClear, WUnlock} then Some (worker_tid E) else None) (elt_mutex s) \<and>
    \<not> (m_pc s = MTest \<and> w_pc s \<in> {WPublish, WClear, WUnlock}) \<and>
    elt_loop s = (if w_pc s \<in> {WEnter, WLoop, WRelock, WClear} then Some (loop_ptr E) else None) \<and>
    (elt_cond s = {} \<or> elt_cond s = {owner_tid E} \<and> m_pc s = MSleep \<and> elt_loop s = None)"

definition life_inv :: "names \<Rightarrow> EventLoopThread \<Rightarrow> bool" where
  "life_inv E s \<longleftrightarrow>
    (th_start (elt_thread s) \<longleftrightarrow> m_pc s \<noteq> MNew) \<and> (m_pc s = MNew \<longleftrightarrow> w_pc s = WNone) \<and>
    (th_join (elt_thread s) \<longleftrightarrow> m_pc s \<in> {MJoin, MDestroyed}) \<and>
    (w_pc s \<in> {WRelock, WClear, WUnlock, WEnd} \<longrightarrow> m_pc s \<in> {MJoin, MDestroyed}) \<and>
    (m_pc s = MJoin \<longrightarrow> w_pc s \<in> {WLoop, WRelock, WClear, WUnlock, WEnd}) \<and> (m_pc s = MDestroyed \<longrightarrow> w_pc s = WEnd) \<and>
    (loop_quit s \<longleftrightarrow> m_pc s \<in> {MJoin, MDestroyed}) \<and>
    (m_pc s \<in> {MDone, MJoin, MDestroyed} \<longrightarrow> w_pc s \<in> {WEnter, WLoop, WRelock, WClear, WUnlock, WEnd}) \<and>
    returned s = (if m_pc s \<in> {MDone, MJoin, MDestroyed} then Some (loop_ptr E) else None) \<and>
    inits s = (if elt_callback s \<and> w_pc s \<notin> {WNone, WTid, WLatchLock, WCountDown, WInit} then [loop_ptr E] else [])"

definition elt_inv :: "names \<Rightarrow> EventLoopThread \<Rightarrow> bool" where
  "elt_inv E s \<longleftrightarrow> tids_ok E \<and> latch_inv E s \<and> loop_inv E s \<and> life_inv E s"

section \<open>Lemmas\<close>

lemmas mutex_defs = Mutex_lock_def Mutex_unlock_def Condition_wait_def Condition_resume_def Mutex_free_def held_by_def
lemmas elt_invs = elt_inv_def tids_ok_def latch_inv_def loop_inv_def life_inv_def

lemma elt_inv_new: "tids_ok E \<Longrightarrow> elt_inv E (EventLoopThread_new n cb name)"
  by (simp add: elt_invs EventLoopThread_new_def Thread_new_def CountDownLatch_new_def Mutex_new_def held_by_def)

lemma owner_ok: "elt_inv E s \<Longrightarrow> enabled E Owner s \<Longrightarrow> ok (elt_inv E) (owner_step E s)"
  by (cases "m_pc s"; cases "w_pc s";
    simp add: owner_step_def elt_invs mutex_defs cd_wait_def Thread_started_def Let_def; fastforce)

lemma worker_ok: "elt_inv E s \<Longrightarrow> enabled E (Worker w) s \<Longrightarrow> ok (elt_inv E) (worker_step E w s)"
  by (cases "m_pc s"; cases "w_pc s";
    simp add: worker_step_def elt_invs mutex_defs countDown_def notify_def notifyAll_def Let_def; fastforce)

lemma elt_step_ok: "elt_inv E s \<Longrightarrow> elt_guard E e s \<Longrightarrow> ok (elt_inv E) (elt_step E e s)"
proof (cases e)
  case (StartLoop created)
  then show "elt_inv E s \<Longrightarrow> elt_guard E e s \<Longrightarrow> ok (elt_inv E) (elt_step E e s)"
    by (cases "m_pc s"; cases "w_pc s"; simp add: startLoop_def Thread_start_def elt_invs Let_def)
next
  case Destroy
  then show "elt_inv E s \<Longrightarrow> elt_guard E e s \<Longrightarrow> ok (elt_inv E) (elt_step E e s)"
    by (cases "m_pc s"; cases "w_pc s"; simp add: EventLoopThread_delete_def Thread_join_def elt_invs Let_def)
next
  case Spurious
  then show "elt_inv E s \<Longrightarrow> elt_guard E e s \<Longrightarrow> ok (elt_inv E) (elt_step E e s)"
    by (cases "m_pc s"; cases "w_pc s"; simp add: elt_invs Let_def)
qed (use owner_ok worker_ok in simp_all)

interpretation event_thread: guarded_machine "elt_inv E" "elt_guard E" "elt_step E" for E
  by unfold_locales (rule elt_step_ok)

text \<open>Every step but a spurious wake-up brings the two threads closer to their ends.\<close>

fun owner_rest :: "owner_pc \<Rightarrow> bool \<Rightarrow> nat" where
  "owner_rest MNew a = 11" | "owner_rest MLatchLock a = 10" | "owner_rest MLatchTest a = 9"
| "owner_rest MLatchSleep a = (if a then 8 else 10)" | "owner_rest MStarted a = 7" | "owner_rest MLock a = 6"
| "owner_rest MTest a = 5" | "owner_rest MSleep a = (if a then 4 else 6)" | "owner_rest MDone a = 2" | "owner_rest MJoin a = 1"
| "owner_rest MDestroyed a = 0"

fun worker_rest :: "worker_pc \<Rightarrow> nat" where
  "worker_rest WNone = 17" | "worker_rest WTid = 16" | "worker_rest WLatchLock = 15" | "worker_rest WCountDown = 14"
| "worker_rest WInit = 11" | "worker_rest WLock = 10" | "worker_rest WPublish = 9" | "worker_rest WEnter = 6" | "worker_rest WLoop = 5"
| "worker_rest WRelock = 4" | "worker_rest WClear = 3" | "worker_rest WUnlock = 2" | "worker_rest WEnd = 0"

definition rest :: "EventLoopThread \<Rightarrow> nat" where
  "rest s = owner_rest (m_pc s) (cd_cond (th_latch (elt_thread s)) \<noteq> {} \<or> elt_cond s \<noteq> {}) + worker_rest (w_pc s)"

lemma owner_rest_less: "elt_inv E s \<Longrightarrow> enabled E Owner s \<Longrightarrow> owner_step E s = Inr s' \<Longrightarrow> rest s' < rest s"
  by (cases "m_pc s"; cases "w_pc s";
    simp add: owner_step_def elt_invs mutex_defs cd_wait_def Thread_started_def Let_def rest_def split: if_splits; fastforce)

lemma worker_rest_less: "elt_inv E s \<Longrightarrow> enabled E (Worker w) s \<Longrightarrow> worker_step E w s = Inr s' \<Longrightarrow> rest s' < rest s"
  by (cases "m_pc s"; cases "w_pc s";
    simp add: worker_step_def elt_invs mutex_defs countDown_def notify_def notifyAll_def Let_def rest_def; fastforce)

lemma rest_step:
  assumes "elt_inv E s" and "elt_guard E e s" and "elt_step E e s = Inr s'"
  shows "rest s' + (if e = Spurious then 0 else 1) \<le> rest s + (if e = Spurious then 2 else 0)"
proof (cases e)
  case (StartLoop created)
  then have "m_pc s = MNew" "w_pc s = WNone" "m_pc s' = MLatchLock" "w_pc s' = WTid"
    using assms by (auto simp: startLoop_def Thread_start_def life_inv_def elt_inv_def split: if_splits)
  then show ?thesis using StartLoop by (simp add: rest_def)
next
  case Destroy
  then have "m_pc s = MDone" "w_pc s' = w_pc s" "m_pc s' = MJoin \<or> m_pc s' = MDestroyed"
    using assms by (auto simp: EventLoopThread_delete_def Thread_join_def Let_def split: if_splits)
  then show ?thesis using Destroy by (auto simp: rest_def)
next
  case Spurious
  then show ?thesis using assms(3) by (cases "m_pc s") (auto simp: rest_def)
next
  case Owner
  then show ?thesis using owner_rest_less [of E s s'] assms by simp
next
  case (Worker w)
  then show ?thesis using worker_rest_less [of E s w s'] assms by simp
qed (use assms in simp)

definition spurious :: "elt_event list \<Rightarrow> nat" where
  "spurious es = length (filter (\<lambda>e. e = Spurious) es)"

lemma rest_run:
  assumes "elt_inv E s" and "guards (elt_guard E) (elt_step E) es s" and "rfold (elt_step E) es s = Inr s'"
  shows "rest s' + length es \<le> rest s + 3 * spurious es"
  using assms
proof (induction es arbitrary: s)
  case Nil
  then show ?case by (simp add: spurious_def)
next
  case (Cons e es)
  then obtain t where t: "elt_step E e s = Inr t" "elt_inv E t" using elt_step_ok [of E s e] by (auto simp: ok_iff)
  then have "rest s' + length es \<le> rest t + 3 * spurious es" using Cons by simp
  then show ?case using rest_step [OF Cons.prems(1) _ t(1)] Cons.prems(2) by (auto simp: spurious_def split: if_splits)
qed

lemma no_deadlock:
  assumes "elt_inv E s" and "m_pc s \<notin> {MNew, MDone, MDestroyed}"
  shows "enabled E Owner s \<or> enabled E (Worker (owner_tid E)) s"
  using assms
  by (cases "m_pc s"; cases "w_pc s"; simp add: elt_invs mutex_defs Let_def; fastforce)

lemma isLocked_iff: "held_by t m \<Longrightarrow> 0 < u \<Longrightarrow> isLockedByThisThread u m \<longleftrightarrow> mx_owner m = Some u"
  by (auto simp: held_by_def isLockedByThisThread_def split: option.splits)

lemma mutexes_held: "elt_inv E s \<Longrightarrow> \<exists>t u. held_by t (elt_mutex s) \<and> held_by u (cd_mutex (th_latch (elt_thread s)))"
  unfolding elt_inv_def latch_inv_def loop_inv_def Let_def by blast

section \<open>Properties\<close>

text \<open>C15: Starting a thread with an event loop and destroying it succeed, whatever the interleaving of the two threads and however often a wait ends
  spuriously, if the destructor is called when the worker has entered its loop and nobody else makes the loop quit: no assertion fails, no mutex is
  misused and no destroyed object is touched; the run has at most 28 events and three for each spurious wake-up, and until \<open>startLoop\<close> or
  the destructor has returned one of the two threads can go on, so both return; what \<open>startLoop\<close> returns is the worker's loop,
  with the callback called exactly once; after the destructor the worker has ended and been joined; and a mutex says that it
  is locked by a thread exactly when that thread has it.\<close>

theorem event_thread_starts_and_stops:
  assumes "tids_ok E" and "guards (elt_guard E) (elt_step E) es (EventLoopThread_new n cb name)"
  shows "\<exists>s. rfold (elt_step E) es (EventLoopThread_new n cb name) = Inr s \<and>
    length es \<le> 28 + 3 * spurious es \<and>
    (m_pc s \<notin> {MNew, MDone, MDestroyed} \<longrightarrow> elt_guard E Owner s \<or> elt_guard E (Worker (owner_tid E)) s) \<and>
    (m_pc s = MDone \<longrightarrow> returned s = Some (loop_ptr E) \<and> inits s = (if elt_callback s then [loop_ptr E] else []) \<and>
      th_tid (elt_thread s) = worker_tid E) \<and>
    (m_pc s = MDestroyed \<longrightarrow> w_pc s = WEnd \<and> \<not> Thread_detaches (elt_thread s)) \<and>
    (\<forall>t m. 0 < t \<longrightarrow> m = elt_mutex s \<or> m = cd_mutex (th_latch (elt_thread s)) \<longrightarrow> (isLockedByThisThread t m \<longleftrightarrow> mx_owner m = Some t))"
proof -
  have i: "elt_inv E (EventLoopThread_new n cb name)" using elt_inv_new [OF assms(1)] .
  obtain s where s: "rfold (elt_step E) es (EventLoopThread_new n cb name) = Inr s" "elt_inv E s"
    using event_thread.run_ok [OF i assms(2)] by (auto simp: ok_iff)
  have "rest (EventLoopThread_new n cb name) = 28"
    by (simp add: rest_def EventLoopThread_new_def)
  then have "length es \<le> 28 + 3 * spurious es" using rest_run [OF i assms(2) s(1)] by simp
  moreover have "m_pc s = MDone \<longrightarrow> returned s = Some (loop_ptr E) \<and> inits s = (if elt_callback s then [loop_ptr E] else []) \<and>
      th_tid (elt_thread s) = worker_tid E"
    using s(2) by (cases "w_pc s") (simp_all add: elt_inv_def life_inv_def latch_inv_def Let_def)
  moreover have "m_pc s = MDestroyed \<longrightarrow> w_pc s = WEnd \<and> \<not> Thread_detaches (elt_thread s)"
    using s(2) by (simp add: elt_inv_def life_inv_def Thread_detaches_def)
  moreover have "\<forall>t m. 0 < t \<longrightarrow> m = elt_mutex s \<or> m = cd_mutex (th_latch (elt_thread s)) \<longrightarrow> (isLockedByThisThread t m \<longleftrightarrow> mx_owner m = Some t)"
    using mutexes_held [OF s(2)] isLocked_iff by blast
  ultimately show ?thesis using s no_deadlock [OF s(2)] by simp
qed

definition demo_names :: names where
  "demo_names = \<lparr>owner_tid = 10, worker_tid = 11, loop_ptr = 4096\<rparr>"

text \<open>The owner waits at the latch, wakes up spuriously and waits again before the worker goes on.\<close>

definition demo_run :: "elt_event list" where
  "demo_run = [StartLoop True, Owner, Owner, Spurious, Owner, Owner] @ replicate 3 (Worker 10) @ replicate 5 Owner @ replicate 3 (Worker 10) @
    replicate 2 Owner @ [Worker 10, Destroy] @ replicate 4 (Worker 10) @ [Owner]"

theorem event_thread_starts_and_stops_witness:
  "\<exists>s. rfold (elt_step demo_names) demo_run (EventLoopThread_new 0 True []) = Inr s \<and> m_pc s = MDestroyed \<and> w_pc s = WEnd \<and>
    th_name (elt_thread s) = ''Thread1''"
proof -
  have "guards (elt_guard demo_names) (elt_step demo_names) demo_run (EventLoopThread_new 0 True [])" by code_simp
  moreover have "tids_ok demo_names" by code_simp
  moreover have "(case rfold (elt_step demo_names) demo_run (EventLoopThread_new 0 True []) of
      Inl _ \<Rightarrow> False | Inr s \<Rightarrow> m_pc s = MDestroyed \<and> th_name (elt_thread s) = ''Thread1'')" by code_simp
  ultimately show ?thesis using event_thread_starts_and_stops [of demo_names demo_run 0 True "[]"] by auto
qed

text \<open>C39: Outside that discipline the class fails. When the destructor runs before the worker has entered its loop, its \<open>quit\<close> is overwritten by
  the start of the loop: the destructor waits for the worker for ever, since no event but a \<open>quit\<close> by somebody else
  is possible. And when user code makes the loop quit, the destructor can miss the loop and destroy the mutex that the worker is about to unlock.\<close>

theorem event_thread_races:
  assumes "tids_ok E"
  shows "(\<exists>es s. guards (enabled E) (elt_step E) es (EventLoopThread_new n cb name) \<and> UserQuit \<notin> set es \<and>
      rfold (elt_step E) es (EventLoopThread_new n cb name) = Inr s \<and> m_pc s = MJoin \<and> (\<forall>e. enabled E e s \<longrightarrow> e = UserQuit)) \<and>
    (\<exists>es. guards (enabled E) (elt_step E) es (EventLoopThread_new n cb name) \<and>
      rfold (elt_step E) es (EventLoopThread_new n cb name) = Inl UseAfterFree)"
proof -
  let ?w = "Worker (owner_tid E)" and ?s0 = "EventLoopThread_new n cb name"
  let ?up = "[StartLoop True, ?w, ?w, ?w, ?w, ?w, ?w, Owner, Owner, Owner, Owner, Owner]"
  note defs = startLoop_def Thread_start_def owner_step_def worker_step_def EventLoopThread_delete_def Thread_join_def mutex_defs countDown_def
    cd_wait_def Thread_started_def notify_def notifyAll_def Let_def EventLoopThread_new_def Thread_new_def CountDownLatch_new_def Mutex_new_def
  have p: "0 < worker_tid E" "0 < owner_tid E" using assms by (simp_all add: tids_ok_def)
  have "guards (enabled E) (elt_step E) (?up @ [Destroy, ?w]) ?s0" "UserQuit \<notin> set (?up @ [Destroy, ?w])"
    using p by (simp_all add: defs)
  moreover obtain s where "rfold (elt_step E) (?up @ [Destroy, ?w]) ?s0 = Inr s" "m_pc s = MJoin" "w_pc s = WLoop" "\<not> loop_quit s"
      "elt_cond s = {}" "cd_cond (th_latch (elt_thread s)) = {}"
    using p by (simp add: defs)
  moreover from this have "\<forall>e. enabled E e s \<longrightarrow> e = UserQuit"
  proof (intro allI impI)
    fix e assume "enabled E e s"
    then show "e = UserQuit" using \<open>m_pc s = MJoin\<close> \<open>w_pc s = WLoop\<close> \<open>\<not> loop_quit s\<close> \<open>elt_cond s = {}\<close> \<open>cd_cond (th_latch (elt_thread s)) = {}\<close>
      by (cases e) (simp_all add: Let_def)
  qed
  moreover have "guards (enabled E) (elt_step E) (?up @ [?w, UserQuit, ?w, ?w, ?w, Destroy, ?w]) ?s0"
    "rfold (elt_step E) (?up @ [?w, UserQuit, ?w, ?w, ?w, Destroy, ?w]) ?s0 = Inl UseAfterFree"
    using p by (simp_all add: defs)
  ultimately show ?thesis by blast
qed

theorem event_thread_races_witness:
  "\<exists>es s. rfold (elt_step demo_names) es (EventLoopThread_new 0 True []) = Inr s \<and> m_pc s = MJoin \<and> (\<forall>e. enabled demo_names e s \<longrightarrow> e = UserQuit)"
proof -
  have "tids_ok demo_names" by code_simp
  then show ?thesis using event_thread_races [of demo_names 0 True "[]"] by blast
qed

end
