(* ===== verification/Buffer.thy ===== *)
theory Buffer
  imports Prelude
begin

text \<open>
  The network buffer of \<^verbatim>\<open>src/netlib/net/Buffer.h\<close> and \<^verbatim>\<open>Buffer.cc\<close>: a byte vector with a
  reader and a writer index,
  \<^verbatim>\<open>0 <= readerIndex <= writerIndex <= size\<close>. Pointers into the vector (\<open>peek\<close>, \<open>beginWrite\<close>,
  the results of \<open>findEOL\<close>) are offsets from its start. Every \<open>assert\<close> is a branch that returns
  \<open>AssertFail\<close>, every access outside the vector one that returns \<open>OutOfRange\<close>, and the
  conversions between \<open>int\<close> indices and \<open>size_t\<close> counts are written out.

  The contract is \<open>content\<close>, the bytes between the two indices: \<open>append\<close> adds at its end,
  \<open>retrieve\<close> drops from its front, \<open>prepend\<close> adds at its front. The locale \<open>byte_stream\<close> states
  that contract, \<open>buffer_stream\<close> interprets it on the operations below.
\<close>

section \<open>Model\<close>

record buffer =
  buf :: "byte list"
  readerIndex :: int
  writerIndex :: int

definition cInitialSize :: int where
  "cInitialSize = 1024"

definition cCheapPrepend :: int where
  "cCheapPrepend = 8"

definition readAbleBytes :: "buffer \<Rightarrow> int" where
  "readAbleBytes b = size_t (writerIndex b - readerIndex b)"

definition writeAbleBytes :: "buffer \<Rightarrow> int" where
  "writeAbleBytes b = size_t (int (length (buf b)) - writerIndex b)"

definition prependAbleBytes :: "buffer \<Rightarrow> int" where
  "prependAbleBytes b = size_t (readerIndex b)"

text \<open>The constructor: the vector has \<open>cCheapPrepend + cInitialSize\<close> zero bytes whatever
  \<open>initialSize\<close> is.\<close>

definition Buffer_new :: "int \<Rightarrow> buffer res" where
  "Buffer_new initialSize =
    (let b = \<lparr>buf = replicate (nat (cCheapPrepend + cInitialSize)) 0,
              readerIndex = cCheapPrepend, writerIndex = cCheapPrepend\<rparr>
     in if readAbleBytes b = 0 \<and> writeAbleBytes b = cInitialSize
          \<and> prependAbleBytes b = cCheapPrepend
        then Inr b else Inl AssertFail)"

definition Buffer_swap :: "buffer \<Rightarrow> buffer \<Rightarrow> buffer \<times> buffer" where
  "Buffer_swap this that = (that, this)"

text \<open>Reading \<open>n\<close> bytes at offset \<open>i\<close> and copying bytes to offset \<open>i\<close>.\<close>

definition read_at :: "int \<Rightarrow> int \<Rightarrow> buffer \<Rightarrow> byte list res" where
  "read_at i n b =
    (if 0 \<le> i \<and> 0 \<le> n \<and> i + n \<le> int (length (buf b))
     then Inr (slice (nat i) (nat n) (buf b)) else Inl OutOfRange)"

definition copy_to :: "int \<Rightarrow> byte list \<Rightarrow> buffer \<Rightarrow> buffer res" where
  "copy_to i ys b =
    (if 0 \<le> i \<and> i + int (length ys) \<le> int (length (buf b))
     then Inr (b\<lparr>buf := overwrite (nat i) ys (buf b)\<rparr>) else Inl OutOfRange)"

definition resize_to :: "int \<Rightarrow> buffer \<Rightarrow> buffer res" where
  "resize_to n b =
    (if n \<le> 2 ^ 63 - 1 then Inr (b\<lparr>buf := vec_resize (nat n) 0 (buf b)\<rparr>) else Inl LengthError)"

definition makeSpace :: "int \<Rightarrow> buffer \<Rightarrow> buffer res" where
  "makeSpace len b =
    (if size_t (writeAbleBytes b + prependAbleBytes b) < size_t (len + cCheapPrepend)
     then resize_to (size_t (writerIndex b + len)) b
     else if \<not> cCheapPrepend < size_t (readerIndex b) then Inl AssertFail
     else
       let readAble = readAbleBytes b in
       rbind (read_at (readerIndex b) (writerIndex b - readerIndex b) b) (\<lambda>moved.
       rbind (copy_to cCheapPrepend moved b) (\<lambda>b.
       let b = b\<lparr>readerIndex := cCheapPrepend, writerIndex := int32 (cCheapPrepend + readAble)\<rparr>
       in if readAble = readAbleBytes b then Inr b else Inl AssertFail)))"

definition ensureWriteAbleBytes :: "int \<Rightarrow> buffer \<Rightarrow> buffer res" where
  "ensureWriteAbleBytes len b =
    rbind (if writeAbleBytes b < len then makeSpace len b else Inr b) (\<lambda>b.
    if len \<le> writeAbleBytes b then Inr b else Inl AssertFail)"

definition hasWritten :: "int \<Rightarrow> buffer \<Rightarrow> buffer res" where
  "hasWritten len b =
    (if len \<le> writeAbleBytes b then Inr (b\<lparr>writerIndex := int32 (writerIndex b + len)\<rparr>)
     else Inl AssertFail)"

definition unWrite :: "int \<Rightarrow> buffer \<Rightarrow> buffer res" where
  "unWrite len b =
    (if len \<le> readAbleBytes b then Inr (b\<lparr>writerIndex := int32 (writerIndex b - len)\<rparr>)
     else Inl AssertFail)"

definition Buffer_append :: "byte list \<Rightarrow> buffer \<Rightarrow> buffer res" where
  "Buffer_append data b =
    rbind (ensureWriteAbleBytes (int (length data)) b) (\<lambda>b.
    rbind (copy_to (writerIndex b) data b) (\<lambda>b.
    hasWritten (int (length data)) b))"

text \<open>\<open>memchr\<close> over the bytes from an offset on; the result is an offset.\<close>

fun memchr :: "byte \<Rightarrow> byte list \<Rightarrow> nat option" where
  "memchr c [] = None"
| "memchr c (x # xs) = (if x = c then Some 0 else map_option Suc (memchr c xs))"

definition findEOL :: "buffer \<Rightarrow> int option res" where
  "findEOL b =
    rbind (read_at (readerIndex b) (readAbleBytes b) b) (\<lambda>bs.
    Inr (map_option (\<lambda>k. readerIndex b + int k) (memchr 10 bs)))"

definition findEOL_from :: "int \<Rightarrow> buffer \<Rightarrow> int option res" where
  "findEOL_from start b =
    (if \<not> readerIndex b \<le> start then Inl AssertFail
     else if \<not> start \<le> writerIndex b then Inl AssertFail
     else rbind (read_at start (writerIndex b - start) b) (\<lambda>bs.
       Inr (map_option (\<lambda>k. start + int k) (memchr 10 bs))))"

definition Buffer_toString :: "buffer \<Rightarrow> byte list res" where
  "Buffer_toString b =
    (let n = int32 (readAbleBytes b)
     in if n < 0 then Inl LengthError else read_at (readerIndex b) n b)"

definition retrieveAll :: "buffer \<Rightarrow> buffer" where
  "retrieveAll b = b\<lparr>readerIndex := cCheapPrepend, writerIndex := cCheapPrepend\<rparr>"

definition retrieve :: "int \<Rightarrow> buffer \<Rightarrow> buffer res" where
  "retrieve n b =
    (if \<not> n \<le> readAbleBytes b then Inl AssertFail
     else if n < readAbleBytes b then Inr (b\<lparr>readerIndex := int32 (readerIndex b + n)\<rparr>)
     else Inr (retrieveAll b))"

definition retrieveUntil :: "int \<Rightarrow> buffer \<Rightarrow> buffer res" where
  "retrieveUntil end b =
    (if \<not> readerIndex b \<le> end then Inl AssertFail
     else if \<not> end \<le> writerIndex b then Inl AssertFail
     else retrieve (size_t (end - readerIndex b)) b)"

definition retrieveAsString :: "int \<Rightarrow> buffer \<Rightarrow> (byte list \<times> buffer) res" where
  "retrieveAsString len b =
    (if \<not> len \<le> readAbleBytes b then Inl AssertFail
     else rbind (read_at (readerIndex b) len b) (\<lambda>ret.
       rbind (retrieve len b) (\<lambda>b. Inr (ret, b))))"

definition retrieveAllAsString :: "buffer \<Rightarrow> (byte list \<times> buffer) res" where
  "retrieveAllAsString b = retrieveAsString (readAbleBytes b) b"

definition prepend :: "byte list \<Rightarrow> buffer \<Rightarrow> buffer res" where
  "prepend data b =
    (if \<not> int (length data) \<le> prependAbleBytes b then Inl AssertFail
     else let b = b\<lparr>readerIndex := int32 (readerIndex b - int (length data))\<rparr>
       in copy_to (readerIndex b) data b)"

definition shrink :: "int \<Rightarrow> buffer \<Rightarrow> buffer res" where
  "shrink reserve b =
    rbind (Buffer_new cInitialSize) (\<lambda>other.
    rbind (ensureWriteAbleBytes (size_t (readAbleBytes b + reserve)) other) (\<lambda>other.
    rbind (Buffer_toString b) (\<lambda>str.
    rbind (Buffer_append str other) (\<lambda>other. Inr (fst (Buffer_swap b other))))))"

text \<open>Integers in network byte order. \<open>htobe\<close> and \<open>be..toh\<close> swap the bytes of the object.\<close>

definition appendInt64 :: "64 word \<Rightarrow> buffer \<Rightarrow> buffer res" where
  "appendInt64 x b = Buffer_append (mem_bytes 8 (bswap 8 x)) b"

definition appendInt32 :: "32 word \<Rightarrow> buffer \<Rightarrow> buffer res" where
  "appendInt32 x b = Buffer_append (mem_bytes 4 (bswap 4 x)) b"

definition appendInt16 :: "16 word \<Rightarrow> buffer \<Rightarrow> buffer res" where
  "appendInt16 x b = Buffer_append (mem_bytes 2 (bswap 2 x)) b"

definition appendInt8 :: "8 word \<Rightarrow> buffer \<Rightarrow> buffer res" where
  "appendInt8 x b = Buffer_append (mem_bytes 1 x) b"

definition prependInt64 :: "64 word \<Rightarrow> buffer \<Rightarrow> buffer res" where
  "prependInt64 x b = prepend (mem_bytes 8 (bswap 8 x)) b"

definition prependInt32 :: "32 word \<Rightarrow> buffer \<Rightarrow> buffer res" where
  "prependInt32 x b = prepend (mem_bytes 4 (bswap 4 x)) b"

definition prependInt16 :: "16 word \<Rightarrow> buffer \<Rightarrow> buffer res" where
  "prependInt16 x b = prepend (mem_bytes 2 (bswap 2 x)) b"

definition prependInt8 :: "8 word \<Rightarrow> buffer \<Rightarrow> buffer res" where
  "prependInt8 x b = prepend (mem_bytes 1 x) b"

definition peekInt64 :: "buffer \<Rightarrow> 64 word res" where
  "peekInt64 b =
    (if \<not> 8 \<le> readAbleBytes b then Inl AssertFail
     else rbind (read_at (readerIndex b) 8 b) (\<lambda>bs. Inr (bswap 8 (of_mem bs))))"

definition peekInt32 :: "buffer \<Rightarrow> 32 word res" where
  "peekInt32 b =
    (if \<not> 4 \<le> readAbleBytes b then Inl AssertFail
     else rbind (read_at (readerIndex b) 4 b) (\<lambda>bs. Inr (bswap 4 (of_mem bs))))"

definition peekInt16 :: "buffer \<Rightarrow> 16 word res" where
  "peekInt16 b =
    (if \<not> 2 \<le> readAbleBytes b then Inl AssertFail
     else rbind (read_at (readerIndex b) 2 b) (\<lambda>bs. Inr (bswap 2 (of_mem bs))))"

definition peekInt8 :: "buffer \<Rightarrow> 8 word res" where
  "peekInt8 b =
    (if \<not> 1 \<le> readAbleBytes b then Inl AssertFail
     else rbind (read_at (readerIndex b) 1 b) (\<lambda>bs. Inr (of_mem bs)))"

definition retrieveInt64 :: "buffer \<Rightarrow> buffer res" where
  "retrieveInt64 b = retrieve 8 b"

definition retrieveInt32 :: "buffer \<Rightarrow> buffer res" where
  "retrieveInt32 b = retrieve 4 b"

definition retrieveInt16 :: "buffer \<Rightarrow> buffer res" where
  "retrieveInt16 b = retrieve 2 b"

definition retrieveInt8 :: "buffer \<Rightarrow> buffer res" where
  "retrieveInt8 b = retrieve 1 b"

definition readInt64 :: "buffer \<Rightarrow> (64 word \<times> buffer) res" where
  "readInt64 b = rbind (peekInt64 b) (\<lambda>ret. rbind (retrieveInt64 b) (\<lambda>b. Inr (ret, b)))"

text \<open>\<open>readInt32\<close> is declared to return \<open>int64_t\<close>: the value is sign-extended.\<close>

definition readInt32 :: "buffer \<Rightarrow> (64 word \<times> buffer) res" where
  "readInt32 b = rbind (peekInt32 b) (\<lambda>ret. rbind (retrieveInt32 b) (\<lambda>b. Inr (scast ret, b)))"

definition readInt16 :: "buffer \<Rightarrow> (16 word \<times> buffer) res" where
  "readInt16 b = rbind (peekInt16 b) (\<lambda>ret. rbind (retrieveInt16 b) (\<lambda>b. Inr (ret, b)))"

definition readInt8 :: "buffer \<Rightarrow> (8 word \<times> buffer) res" where
  "readInt8 b = rbind (peekInt8 b) (\<lambda>ret. rbind (retrieveInt8 b) (\<lambda>b. Inr (ret, b)))"

text \<open>
  \<open>readFd\<close> with the result of \<^verbatim>\<open>readv(2)\<close> as the parameter \<open>rv\<close>: a function of the number of bytes
  the iovecs can take, which returns an errno or the bytes the kernel stored. The kernel fills the
  writable part of the vector first, then the 65536 bytes of \<open>extrabuf\<close>. The triple is the return
  value, the errno stored through \<open>savedErrno\<close> (if any) and the buffer.
\<close>

definition extrabuf_size :: int where
  "extrabuf_size = 65536"

definition readFd :: "(nat \<Rightarrow> int + byte list) \<Rightarrow> buffer \<Rightarrow> (int \<times> int option \<times> buffer) res" where
  "readFd rv b =
    (let writeAble = writeAbleBytes b;
         cap = (if writeAble < extrabuf_size then writeAble + extrabuf_size else writeAble)
     in case rv (nat cap) of
          Inl errno \<Rightarrow> Inr (-1, Some errno, b)
        | Inr bs \<Rightarrow>
            let n = int (length bs) in
            if cap < n then Inl OutOfRange
            else rbind (copy_to (writerIndex b) (take (nat writeAble) bs) b) (\<lambda>b.
              if n \<le> writeAble
              then Inr (n, None, b\<lparr>writerIndex := int32 (writerIndex b + n)\<rparr>)
              else rbind (Buffer_append (drop (nat writeAble) bs)
                            (b\<lparr>writerIndex := int32 (int (length (buf b)))\<rparr>)) (\<lambda>b.
                   Inr (n, None, b))))"

text \<open>What the kernel promises of \<open>readv\<close>: it never stores more than the iovecs hold.\<close>

definition readv_contract :: "(nat \<Rightarrow> int + byte list) \<Rightarrow> bool" where
  "readv_contract rv \<longleftrightarrow> (\<forall>cap bs. rv cap = Inr bs \<longrightarrow> length bs \<le> cap)"

section \<open>Abstraction and invariant\<close>

definition buffer_inv :: "buffer \<Rightarrow> bool" where
  "buffer_inv b \<longleftrightarrow> 0 \<le> readerIndex b \<and> readerIndex b \<le> writerIndex b \<and>
    writerIndex b \<le> int (length (buf b)) \<and> cCheapPrepend \<le> int (length (buf b)) \<and>
    int (length (buf b)) < 2 ^ 31"

definition content :: "buffer \<Rightarrow> byte list" where
  "content b = slice (nat (readerIndex b)) (nat (writerIndex b - readerIndex b)) (buf b)"

subsection \<open>Counts\<close>


named_theorems buffer_simps \<open>counts of a well-formed buffer\<close>

lemma buffer_invD:
  assumes "buffer_inv b"
  shows "0 \<le> readerIndex b" "readerIndex b \<le> writerIndex b"
    "writerIndex b \<le> int (length (buf b))" "8 \<le> int (length (buf b))"
    "int (length (buf b)) < 2147483648"
  using assms by (simp_all add: buffer_inv_def cCheapPrepend_def)

lemma readAble_eq [buffer_simps]: "buffer_inv b \<Longrightarrow> readAbleBytes b = writerIndex b - readerIndex b"
  using buffer_invD [of b] by (simp add: readAbleBytes_def)

lemma writeAble_eq [buffer_simps]:
  "buffer_inv b \<Longrightarrow> writeAbleBytes b = int (length (buf b)) - writerIndex b"
  using buffer_invD [of b] by (simp add: writeAbleBytes_def)

lemma prependAble_eq [buffer_simps]: "buffer_inv b \<Longrightarrow> prependAbleBytes b = readerIndex b"
  using buffer_invD [of b] by (simp add: prependAbleBytes_def)

lemma length_content [buffer_simps]:
  "buffer_inv b \<Longrightarrow> int (length (content b)) = writerIndex b - readerIndex b"
  using buffer_invD [of b] by (simp add: content_def)

lemma readAble_content: "buffer_inv b \<Longrightarrow> readAbleBytes b = int (length (content b))"
  by (simp add: buffer_simps)

lemma read_at_content:
  assumes "buffer_inv b" "0 \<le> n" "n \<le> int (length (content b))"
  shows "read_at (readerIndex b) n b = Inr (take (nat n) (content b))"
  using assms buffer_invD [of b] length_content [of b]
  by (simp add: read_at_def content_def)

subsection \<open>Making room, appending\<close>

text \<open>Making room keeps the content and leaves room for \<open>len\<close> bytes.\<close>

definition roomy :: "buffer \<Rightarrow> int \<Rightarrow> buffer \<Rightarrow> bool" where
  "roomy b len b' \<longleftrightarrow> buffer_inv b' \<and> content b' = content b \<and>
    writerIndex b' + len \<le> int (length (buf b')) \<and>
    int (length (buf b')) \<le> max (int (length (buf b))) (int (length (content b)) + 2 * len + 8)"

lemma makeSpace_ok:
  assumes inv: "buffer_inv b" and len: "0 \<le> len" "writeAbleBytes b < len"
    and small: "int (length (content b)) + 2 * len + 8 < 2 ^ 31"
  shows "ok (roomy b len) (makeSpace len b)"
proof -
  note D = buffer_invD [OF inv] and E = buffer_simps [OF inv]
  have lc: "int (length (content b)) = writerIndex b - readerIndex b" using E by simp
  have wa: "writeAbleBytes b = int (length (buf b)) - writerIndex b" using E by simp
  have sum: "size_t (writeAbleBytes b + prependAbleBytes b)
      = int (length (buf b)) - writerIndex b + readerIndex b"
    using D E by (simp add: size_t_def)
  have need: "size_t (len + 8) = len + 8"
    using len small by simp
  show ?thesis
  proof (cases "int (length (buf b)) - writerIndex b + readerIndex b < len + 8")
    case True
    let ?b = "b\<lparr>buf := vec_resize (nat (writerIndex b + len)) 0 (buf b)\<rparr>"
    have "makeSpace len b = Inr ?b"
      using True D len small lc by (simp add: makeSpace_def resize_to_def sum need cCheapPrepend_def)
    moreover have "content ?b = content b"
      unfolding content_def using D len by (simp add: slice_vec_resize)
    moreover have "buffer_inv ?b"
      using True D len small lc wa by (simp add: buffer_inv_def cCheapPrepend_def)
    ultimately show ?thesis
      using True D len lc by (simp add: roomy_def)
  next
    case False
    let ?b = "b\<lparr>buf := overwrite 8 (content b) (buf b), readerIndex := 8,
      writerIndex := 8 + int (length (content b))\<rparr>"
    have r: "8 < readerIndex b" using False len wa by simp
    have fits: "8 + length (content b) \<le> length (buf b)"
      using D r lc by linarith
    have rd: "read_at (readerIndex b) (int (length (content b))) b = Inr (content b)"
      using read_at_content [OF inv, of "int (length (content b))"] by simp
    have inv': "buffer_inv ?b"
      using D fits by (simp add: buffer_inv_def cCheapPrepend_def)
    have "makeSpace len b = Inr ?b"
      using False D r fits lc [symmetric]
      by (simp add: makeSpace_def sum need rd copy_to_def cCheapPrepend_def readAbleBytes_def Let_def)
    moreover have "content ?b = content b"
      using fits by (simp add: content_def [of ?b] slice_overwrite_same)
    ultimately show ?thesis
      using inv' False D len lc fits by (simp add: roomy_def)
  qed
qed

lemma ensureWriteAbleBytes_ok [ok_rules]:
  assumes inv: "buffer_inv b" and len: "0 \<le> len"
    and small: "int (length (content b)) + 2 * len + 8 < 2 ^ 31"
  shows "ok (roomy b len) (ensureWriteAbleBytes len b)"
proof -
  have "ok (roomy b len) (if writeAbleBytes b < len then makeSpace len b else Inr b)"
    using makeSpace_ok [OF assms(1,2) _ small] inv len
    by (auto simp: roomy_def buffer_simps)
  then show ?thesis
    unfolding ensureWriteAbleBytes_def
    by (rule ok_rbind) (auto simp: roomy_def buffer_simps)
qed

lemma Buffer_append_ok:
  assumes inv: "buffer_inv b"
    and small: "length (content b) + 2 * length xs + 8 < 2 ^ 31"
  shows "ok (\<lambda>b'. buffer_inv b' \<and> content b' = content b @ xs \<and>
     length (buf b') \<le> max (length (buf b)) (length (content b) + 2 * length xs + 8))
    (Buffer_append xs b)"
  unfolding Buffer_append_def
proof (rule ok_rbind [OF ensureWriteAbleBytes_ok [OF inv]])
  fix c
  assume c: "roomy b (int (length xs)) c"
  then have inv: "buffer_inv c" and co: "content c = content b"
    and room: "writerIndex c + int (length xs) \<le> int (length (buf c))"
    by (simp_all add: roomy_def)
  note D = buffer_invD [OF inv]
  let ?c = "c\<lparr>buf := overwrite (nat (writerIndex c)) xs (buf c)\<rparr>"
  let ?d = "?c\<lparr>writerIndex := writerIndex c + int (length xs)\<rparr>"
  have cp: "copy_to (writerIndex c) xs c = Inr ?c"
    using D room by (simp add: copy_to_def)
  have wr: "hasWritten (int (length xs)) ?c = Inr ?d"
    using D room by (simp add: hasWritten_def writeAbleBytes_def)
  have n: "nat (writerIndex c + int (length xs) - readerIndex c)
      = nat (writerIndex c - readerIndex c) + length xs"
    "nat (readerIndex c) + nat (writerIndex c - readerIndex c) = nat (writerIndex c)"
    using D by auto
  have "content ?d = content c @ xs"
    using D room by (simp add: content_def n slice_add slice_overwrite_before slice_overwrite_same)
  moreover have "buffer_inv ?d" using D room by (simp add: buffer_inv_def cCheapPrepend_def)
  ultimately show "ok (\<lambda>b'. buffer_inv b' \<and> content b' = content b @ xs \<and>
     length (buf b') \<le> max (length (buf b)) (length (content b) + 2 * length xs + 8))
    (rbind (copy_to (writerIndex c) xs c) (hasWritten (int (length xs))))"
    using c co D room by (auto simp: cp wr roomy_def)
qed (use small in simp_all)

lemma retrieve_ok:
  assumes inv: "buffer_inv b" and n: "0 \<le> n" "n \<le> int (length (content b))"
  shows "ok (\<lambda>b'. buffer_inv b' \<and> content b' = drop (nat n) (content b) \<and> buf b' = buf b)
    (retrieve n b)"
proof -
  note D = buffer_invD [OF inv] and lc = length_content [OF inv]
  show ?thesis
  proof (cases "n < int (length (content b))")
    case True
    let ?b = "b\<lparr>readerIndex := readerIndex b + n\<rparr>"
    have "retrieve n b = Inr ?b"
      using True n D lc by (simp add: retrieve_def readAble_eq [OF inv])
    moreover have "content ?b = drop (nat n) (content b)"
      using D n True lc by (simp add: content_def drop_slice nat_add_distrib nat_diff_distrib' diff_diff_eq)
    moreover have "buffer_inv ?b"
      using True n D lc by (simp add: buffer_inv_def cCheapPrepend_def)
    ultimately show ?thesis by simp
  next
    case False
    then have "retrieve n b = Inr (retrieveAll b)"
      using n lc by (simp add: retrieve_def readAble_eq [OF inv])
    then show ?thesis
      using False n D by (simp add: retrieveAll_def buffer_inv_def content_def [of "b\<lparr>readerIndex := r, writerIndex := w\<rparr>" for r w] cCheapPrepend_def)
  qed
qed

lemma retrieveAsString_ok:
  assumes inv: "buffer_inv b" and n: "0 \<le> n" "n \<le> int (length (content b))"
  shows "ok (\<lambda>(s, b'). s = take (nat n) (content b) \<and> buffer_inv b' \<and>
      content b' = drop (nat n) (content b))
    (retrieveAsString n b)"
  using retrieve_ok [OF assms] n
  by (auto simp: retrieveAsString_def readAble_content [OF inv] read_at_content [OF assms] ok_iff)

lemma prepend_ok:
  assumes inv: "buffer_inv b" and len: "int (length xs) \<le> prependAbleBytes b"
  shows "ok (\<lambda>b'. buffer_inv b' \<and> content b' = xs @ content b \<and> writerIndex b' = writerIndex b)
    (prepend xs b)"
proof -
  note D = buffer_invD [OF inv]
  have len': "int (length xs) \<le> readerIndex b" using len by (simp add: prependAble_eq [OF inv])
  let ?i = "nat (readerIndex b - int (length xs))"
  let ?b = "b\<lparr>buf := overwrite ?i xs (buf b), readerIndex := readerIndex b - int (length xs)\<rparr>"
  have "prepend xs b = Inr ?b"
    using len len' D by (simp add: prepend_def copy_to_def)
  moreover have n: "nat (writerIndex b - (readerIndex b - int (length xs)))
      = length xs + nat (writerIndex b - readerIndex b)"
    "?i + length xs = nat (readerIndex b)" "nat (readerIndex b) \<le> length (buf b)"
    using D len' by auto
  moreover have "content ?b = xs @ content b"
    using D len' n by (simp add: content_def slice_add slice_overwrite_after slice_overwrite_same)
  moreover have "buffer_inv ?b"
    using D len' n by (simp add: buffer_inv_def cCheapPrepend_def)
  ultimately show ?thesis by simp
qed

lemma Buffer_new_ok: "ok (\<lambda>b. buffer_inv b \<and> content b = [] \<and> length (buf b) = 1032 \<and>
   readerIndex b = 8) (Buffer_new n)"
  by (simp add: Buffer_new_def buffer_inv_def content_def cCheapPrepend_def cInitialSize_def
      readAbleBytes_def writeAbleBytes_def prependAbleBytes_def)

lemma toString_ok: "buffer_inv b \<Longrightarrow> Buffer_toString b = Inr (content b)"
  using buffer_invD [of b] length_content [of b] read_at_content [of b "int (length (content b))"]
  by (simp add: Buffer_toString_def readAble_content)

lemma shrink_ok:
  assumes inv: "buffer_inv b" and res: "0 \<le> k"
    and small: "2 * (int (length (content b)) + k) + 8 < 2 ^ 31"
      "3 * length (content b) + 8 < 2 ^ 31"
  shows "ok (\<lambda>b'. buffer_inv b' \<and> content b' = content b) (shrink k b)"
  unfolding shrink_def
proof (rule ok_rbind [OF Buffer_new_ok])
  fix c
  assume c: "buffer_inv c \<and> content c = [] \<and> length (buf c) = 1032 \<and> readerIndex c = 8"
  have "size_t (readAbleBytes b + k) = int (length (content b)) + k"
    using small res by (simp add: readAble_content [OF inv])
  moreover have "ok (roomy c (int (length (content b)) + k))
      (ensureWriteAbleBytes (int (length (content b)) + k) c)"
    using c small res by (intro ensureWriteAbleBytes_ok) auto
  ultimately have e: "ok (roomy c (int (length (content b)) + k))
      (ensureWriteAbleBytes (size_t (readAbleBytes b + k)) c)" by simp
  show "ok (\<lambda>b'. buffer_inv b' \<and> content b' = content b)
    (rbind (ensureWriteAbleBytes (size_t (readAbleBytes b + k)) c)
      (\<lambda>other. rbind (Buffer_toString b)
        (\<lambda>str. rbind (Buffer_append str other) (\<lambda>other. Inr (fst (Buffer_swap b other))))))"
  proof (rule ok_rbind [OF e])
    fix d
    assume "roomy c (int (length (content b)) + k) d"
    then have d: "buffer_inv d" "content d = []" using c by (simp_all add: roomy_def)
    then have "ok (\<lambda>b'. buffer_inv b' \<and> content b' = content b) (Buffer_append (content b) d)"
      using Buffer_append_ok [of d "content b"] small by (auto elim: ok_mono)
    then show "ok (\<lambda>b'. buffer_inv b' \<and> content b' = content b)
      (rbind (Buffer_toString b) (\<lambda>str. rbind (Buffer_append str d)
        (\<lambda>other. Inr (fst (Buffer_swap b other)))))"
      by (auto simp: toString_ok [OF inv] Buffer_swap_def ok_iff)
  qed
qed

subsection \<open>Reading from a descriptor\<close>


definition readv_cap :: "buffer \<Rightarrow> nat" where
  "readv_cap b = nat (if writeAbleBytes b < extrabuf_size then writeAbleBytes b + extrabuf_size
     else writeAbleBytes b)"

lemma readFd_error:
  "rv (readv_cap b) = Inl e \<Longrightarrow> readFd rv b = Inr (-1, Some e, b)"
  by (simp add: readFd_def readv_cap_def Let_def)

lemma fill_ok:
  assumes inv: "buffer_inv b" and len: "int (length xs) \<le> writeAbleBytes b"
  shows "ok (\<lambda>c. c = b\<lparr>buf := buf c\<rparr> \<and> length (buf c) = length (buf b) \<and>
      buffer_inv (c\<lparr>writerIndex := writerIndex b + int (length xs)\<rparr>) \<and>
      content (c\<lparr>writerIndex := writerIndex b + int (length xs)\<rparr>) = content b @ xs)
    (copy_to (writerIndex b) xs b)"
proof -
  note D = buffer_invD [OF inv]
  have room: "writerIndex b + int (length xs) \<le> int (length (buf b))"
    using len by (simp add: writeAble_eq [OF inv])
  let ?c = "b\<lparr>buf := overwrite (nat (writerIndex b)) xs (buf b)\<rparr>"
  let ?d = "?c\<lparr>writerIndex := writerIndex b + int (length xs)\<rparr>"
  have "copy_to (writerIndex b) xs b = Inr ?c"
    using D room by (simp add: copy_to_def)
  moreover have n: "nat (writerIndex b + int (length xs) - readerIndex b)
      = nat (writerIndex b - readerIndex b) + length xs"
    "nat (readerIndex b) + nat (writerIndex b - readerIndex b) = nat (writerIndex b)"
    using D by auto
  have "content ?d = content b @ xs"
    using D room by (simp add: content_def n slice_add slice_overwrite_before slice_overwrite_same)
  moreover have "buffer_inv ?d" using D room by (simp add: buffer_inv_def cCheapPrepend_def)
  moreover have "length (buf ?c) = length (buf b)" using D room by simp
  ultimately show ?thesis by simp
qed

lemma readFd_data:
  assumes inv: "buffer_inv b" and rv: "readv_contract rv" and bs: "rv (readv_cap b) = Inr bs"
    and small: "length (buf b) + 2 * 65536 + 8 < 2 ^ 31"
  shows "ok (\<lambda>(n, e, b'). n = int (length bs) \<and> e = None \<and> buffer_inv b' \<and> content b' = content b @ bs)
    (readFd rv b)"
proof -
  note D = buffer_invD [OF inv]
  let ?w = "nat (writeAbleBytes b)"
  have wa: "writeAbleBytes b = int (length (buf b)) - writerIndex b"
    by (rule writeAble_eq [OF inv])
  then have w0: "0 \<le> writeAbleBytes b" using D by simp
  have cap: "length bs \<le> readv_cap b" using rv bs by (simp add: readv_contract_def)
  have fill: "int (length (take ?w bs)) \<le> writeAbleBytes b" using w0 by simp
  have "ok (\<lambda>(n, e, b'). n = int (length bs) \<and> e = None \<and> buffer_inv b' \<and> content b' = content b @ bs)
    (rbind (copy_to (writerIndex b) (take ?w bs) b) (\<lambda>c.
        if int (length bs) \<le> writeAbleBytes b
        then Inr (int (length bs), None, c\<lparr>writerIndex := int32 (writerIndex c + int (length bs))\<rparr>)
        else rbind (Buffer_append (drop ?w bs)
               (c\<lparr>writerIndex := int32 (int (length (buf c)))\<rparr>)) (\<lambda>d. Inr (int (length bs), None, d))))"
  proof (rule ok_rbind [OF fill_ok [OF inv fill]], goal_cases)
    case (1 c)
    let ?d = "c\<lparr>writerIndex := writerIndex b + int (length (take ?w bs))\<rparr>"
    have wc: "writerIndex c = writerIndex b" using 1 by (metis buffer.select_convs(3) buffer.surjective buffer.update_convs(1))
    have len: "length (buf c) = length (buf b)" using 1 by blast
    have d: "buffer_inv ?d" "content ?d = content b @ take ?w bs" using 1 by blast+
    show ?case
    proof (cases "int (length bs) \<le> writeAbleBytes b")
      case True
      then have "take ?w bs = bs" by simp
      then show ?thesis using True d wc D wa by (simp add: int32_id)
    next
      case False
      then have w: "writerIndex b + int (length (take ?w bs)) = int (length (buf c))"
        using w0 wa len by simp
      have "length (drop ?w bs) \<le> 65536"
        using False cap w0 by (auto simp: readv_cap_def extrabuf_size_def split: if_splits)
      moreover have "length (content ?d) \<le> length (buf b)"
        using length_content [OF d(1)] buffer_invD [OF d(1)] len by simp
      ultimately have "length (content ?d) + 2 * length (drop ?w bs) + 8 < 2 ^ 31"
        using small by linarith
      from Buffer_append_ok [OF d(1) this] show ?thesis
        using False d w D len by (auto simp: ok_iff int32_id)
    qed
  qed
  then show ?thesis
    using bs cap w0 by (auto simp: readFd_def readv_cap_def Let_def extrabuf_size_def split: if_splits)
qed

subsection \<open>Integers\<close>

lemma readInt_generic:
  assumes inv: "buffer_inv b" and c: "content b = rev (mem_bytes n w) @ rest"
    and len: "LENGTH('a) = 8 * n"
  shows "\<not> readAbleBytes b < int n"
    and "read_at (readerIndex b) (int n) b = Inr (rev (mem_bytes n (w::'a::len word)))"
    and "bswap n (of_mem (rev (mem_bytes n w)) :: 'a word) = w"
    and "ok (\<lambda>b'. buffer_inv b' \<and> content b' = rest) (retrieve (int n) b)"
proof -
  show "\<not> readAbleBytes b < int n" using c by (simp add: readAble_content [OF inv])
  show "read_at (readerIndex b) (int n) b = Inr (rev (mem_bytes n w))"
    using read_at_content [OF inv, of "int n"] c by simp
  show "bswap n (of_mem (rev (mem_bytes n w)) :: 'a word) = w"
    using len by (simp add: bswap_def)
  show "ok (\<lambda>b'. buffer_inv b' \<and> content b' = rest) (retrieve (int n) b)"
    using retrieve_ok [OF inv, of "int n"] c by (auto elim: ok_mono)
qed

lemma readInt64_ok:
  assumes inv: "buffer_inv b" and c: "content b = rev (mem_bytes 8 (w::64 word)) @ rest"
  shows "ok (\<lambda>(x, b'). x = w \<and> buffer_inv b' \<and> content b' = rest) (readInt64 b)"
  using readInt_generic [OF inv c]
  by (auto simp: readInt64_def peekInt64_def retrieveInt64_def not_less ok_iff)

lemma readInt32_ok:
  assumes inv: "buffer_inv b" and c: "content b = rev (mem_bytes 4 (w::32 word)) @ rest"
  shows "ok (\<lambda>(x, b'). x = scast w \<and> buffer_inv b' \<and> content b' = rest) (readInt32 b)"
  using readInt_generic [OF inv c]
  by (auto simp: readInt32_def peekInt32_def retrieveInt32_def not_less ok_iff)

lemma readInt16_ok:
  assumes inv: "buffer_inv b" and c: "content b = rev (mem_bytes 2 (w::16 word)) @ rest"
  shows "ok (\<lambda>(x, b'). x = w \<and> buffer_inv b' \<and> content b' = rest) (readInt16 b)"
  using readInt_generic [OF inv c]
  by (auto simp: readInt16_def peekInt16_def retrieveInt16_def not_less ok_iff)

lemma readInt8_ok:
  assumes inv: "buffer_inv b" and c: "content b = rev (mem_bytes 1 (w::8 word)) @ rest"
  shows "ok (\<lambda>(x, b'). x = w \<and> buffer_inv b' \<and> content b' = rest) (readInt8 b)"
  using readInt_generic [OF inv c]
  by (auto simp: readInt8_def peekInt8_def retrieveInt8_def not_less ok_iff mem_bytes_def)


section \<open>The byte stream contract\<close>

text \<open>
  A client of a buffer puts byte strings in and gets byte strings out. The specification machine
  \<open>spec_run\<close> does so on a plain list, \<open>stream_run\<close> on an implementation. A stream with bound
  \<open>cap\<close> has to accept a string as long as its content and twice the string stay below the bound.
\<close>

datatype stream_op = Put "byte list" | Get nat

fun puts :: "stream_op list \<Rightarrow> byte list" where
  "puts [] = []"
| "puts (Put xs # ops) = xs @ puts ops"
| "puts (Get n # ops) = puts ops"

fun spec_run :: "nat \<Rightarrow> stream_op list \<Rightarrow> byte list \<Rightarrow> (byte list list \<times> byte list) option" where
  "spec_run cap [] q = Some ([], q)"
| "spec_run cap (Put xs # ops) q =
    (if length q + 2 * length xs + 8 < cap then spec_run cap ops (q @ xs) else None)"
| "spec_run cap (Get n # ops) q =
    (if n \<le> length q
     then map_option (\<lambda>(outs, q'). (take n q # outs, q')) (spec_run cap ops (drop n q)) else None)"

fun stream_run ::
  "(byte list \<Rightarrow> 's \<Rightarrow> 's res) \<Rightarrow> (nat \<Rightarrow> 's \<Rightarrow> (byte list \<times> 's) res) \<Rightarrow> stream_op list \<Rightarrow> 's
    \<Rightarrow> (byte list list \<times> 's) res" where
  "stream_run put get [] s = Inr ([], s)"
| "stream_run put get (Put xs # ops) s = rbind (put xs s) (stream_run put get ops)"
| "stream_run put get (Get n # ops) s =
    rbind (get n s) (\<lambda>(out, s). rbind (stream_run put get ops s) (\<lambda>(outs, s). Inr (out # outs, s)))"

lemma spec_run_fifo: "spec_run cap ops q = Some (outs, q') \<Longrightarrow> concat outs @ q' = q @ puts ops"
proof (induction cap ops q arbitrary: outs q' rule: spec_run.induct)
  case (3 cap n ops q)
  from "3.prems" obtain outs' where n: "n \<le> length q"
    and r: "spec_run cap ops (drop n q) = Some (outs', q')" and o: "outs = take n q # outs'"
    by (auto split: if_splits)
  have "concat outs' @ q' = drop n q @ puts ops" by (rule "3.IH" [OF n r])
  then have "take n q @ concat outs' @ q' = (take n q @ drop n q) @ puts ops" by simp
  then show ?case by (simp add: o)
qed (auto split: if_splits)

locale byte_stream =
  fixes inv :: "'s \<Rightarrow> bool"
    and bytes :: "'s \<Rightarrow> byte list"
    and put :: "byte list \<Rightarrow> 's \<Rightarrow> 's res"
    and get :: "nat \<Rightarrow> 's \<Rightarrow> (byte list \<times> 's) res"
    and cap :: nat
  assumes put_ok: "inv s \<Longrightarrow> length (bytes s) + 2 * length xs + 8 < cap \<Longrightarrow>
      ok (\<lambda>s'. inv s' \<and> bytes s' = bytes s @ xs) (put xs s)"
    and get_ok: "inv s \<Longrightarrow> n \<le> length (bytes s) \<Longrightarrow>
      ok (\<lambda>(out, s'). out = take n (bytes s) \<and> inv s' \<and> bytes s' = drop n (bytes s)) (get n s)"
begin

lemma run_refines:
  "inv s \<Longrightarrow> spec_run cap ops (bytes s) = Some (outs, q) \<Longrightarrow>
    ok (\<lambda>(outs', s'). outs' = outs \<and> inv s' \<and> bytes s' = q) (stream_run put get ops s)"
proof (induction ops arbitrary: s outs)
  case Nil
  then show ?case by simp
next
  case (Cons op ops)
  show ?case
  proof (cases op)
    case (Put xs)
    with Cons.prems have "ok (\<lambda>s'. inv s' \<and> bytes s' = bytes s @ xs) (put xs s)"
      by (intro put_ok) (auto split: if_splits)
    then show ?thesis
      using Cons.IH Cons.prems Put by (auto simp: ok_iff split: if_splits)
  next
    case (Get n)
    with Cons.prems have n: "n \<le> length (bytes s)" by (auto split: if_splits)
    from Cons.prems Get n obtain outs' where r: "spec_run cap ops (drop n (bytes s)) = Some (outs', q)"
      and o: "outs = take n (bytes s) # outs'" by auto
    from get_ok [OF Cons.prems(1) n] obtain s' where g: "get n s = Inr (take n (bytes s), s')"
      and s': "inv s'" "bytes s' = drop n (bytes s)" by (auto simp: ok_iff)
    with Cons.IH [of s' outs'] r show ?thesis
      by (auto simp: Get g o ok_iff)
  qed
qed

end

interpretation buffer_stream: byte_stream buffer_inv content Buffer_append
  "\<lambda>n. retrieveAsString (int n)" "2 ^ 31"
proof unfold_locales
  fix s and xs :: "byte list"
  assume "buffer_inv s" "length (content s) + 2 * length xs + 8 < 2 ^ 31"
  then show "ok (\<lambda>s'. buffer_inv s' \<and> content s' = content s @ xs) (Buffer_append xs s)"
    by (rule ok_mono [OF Buffer_append_ok]) auto
next
  fix s n
  assume "buffer_inv s" "n \<le> length (content s)"
  then show "ok (\<lambda>(out, s'). out = take n (content s) \<and> buffer_inv s' \<and> content s' = drop n (content s))
      (retrieveAsString (int n) s)"
    using retrieveAsString_ok [of s "int n"] by simp
qed

lemma memchr_None: "memchr c xs = None \<longleftrightarrow> c \<notin> set xs"
  by (induction xs) auto

lemma memchr_Some:
  "memchr c xs = Some k \<longleftrightarrow> k < length xs \<and> xs ! k = c \<and> c \<notin> set (take k xs)"
proof (induction xs arbitrary: k)
  case (Cons x xs)
  then show ?case by (cases k) auto
qed simp

lemma findEOL_ok:
  assumes "buffer_inv b"
  shows "ok (\<lambda>r. case r of
        None \<Rightarrow> 10 \<notin> set (content b)
      | Some p \<Rightarrow> \<exists>k < length (content b). p = readerIndex b + int k \<and> content b ! k = 10 \<and>
          10 \<notin> set (take k (content b)))
    (findEOL b)"
  using read_at_content [OF assms, of "int (length (content b))"]
  by (auto simp: findEOL_def readAble_content [OF assms] memchr_None memchr_Some
      split: option.splits)


subsection \<open>Sequences of integer operations\<close>

lemma appendInt_ok:
  assumes "LENGTH('a) = 8 * n" and "buffer_inv b" and "length (content b) + 2 * n + 8 < 2 ^ 31"
  shows "ok (\<lambda>b'. buffer_inv b' \<and> content b' = content b @ rev (mem_bytes n (w::'a::len word)))
    (Buffer_append (mem_bytes n (bswap n w)) b)"
  using Buffer_append_ok [of b "mem_bytes n (bswap n w)"] assms
  by (auto simp: mem_bytes_bswap elim: ok_mono)

lemma rev_mem_bytes_1 [simp]: "rev (mem_bytes (Suc 0) z) = mem_bytes (Suc 0) z"
  by (simp add: mem_bytes_def)

lemma appendInts_ok:
  assumes inv: "buffer_inv b" and small: "length (content b) < 2 ^ 31 - 256"
  shows "ok (\<lambda>b'. buffer_inv b' \<and> content b' = content b @ rev (mem_bytes 8 w) @ rev (mem_bytes 4 x)
      @ rev (mem_bytes 2 y) @ rev (mem_bytes 1 z))
    (rbind (appendInt64 w b) (\<lambda>b. rbind (appendInt32 x b) (\<lambda>b. rbind (appendInt16 y b) (appendInt8 z))))"
proof -
  obtain b1 where b1: "appendInt64 w b = Inr b1" "buffer_inv b1"
    "content b1 = content b @ rev (mem_bytes 8 w)"
    using appendInt_ok [of 8 b w] inv small by (auto simp: appendInt64_def ok_iff)
  obtain b2 where b2: "appendInt32 x b1 = Inr b2" "buffer_inv b2"
    "content b2 = content b1 @ rev (mem_bytes 4 x)"
    using appendInt_ok [of 4 b1 x] b1 small by (auto simp: appendInt32_def ok_iff)
  obtain b3 where b3: "appendInt16 y b2 = Inr b3" "buffer_inv b3"
    "content b3 = content b2 @ rev (mem_bytes 2 y)"
    using appendInt_ok [of 2 b2 y] b1 b2 small by (auto simp: appendInt16_def ok_iff)
  show ?thesis
    using Buffer_append_ok [of b3 "mem_bytes 1 z"] b1 b2 b3 small
    by (auto simp: appendInt8_def elim: ok_mono)
qed

subsection \<open>All operations\<close>

text \<open>Every operation that changes a buffer. \<open>Fill\<close> is a write behind \<open>beginWrite\<close> followed by \<open>hasWritten\<close>, \<open>ReadFd\<close> a \<open>readFd\<close> for which the
  kernel has these bytes; a failed \<open>readFd\<close> changes nothing.\<close>

datatype buf_op =
    Append_op "byte list" | Retrieve_op int | RetrieveAll_op | Prepend_op "byte list" | Shrink_op int | Ensure_op int
  | Fill_op "byte list" | UnWrite_op int | ReadFd_op "byte list"

fun buf_step :: "buf_op \<Rightarrow> buffer \<Rightarrow> buffer res" where
  "buf_step (Append_op xs) b = Buffer_append xs b"
| "buf_step (Retrieve_op n) b = retrieve n b"
| "buf_step RetrieveAll_op b = Inr (retrieveAll b)"
| "buf_step (Prepend_op xs) b = prepend xs b"
| "buf_step (Shrink_op k) b = shrink k b"
| "buf_step (Ensure_op n) b = ensureWriteAbleBytes n b"
| "buf_step (Fill_op xs) b = rbind (copy_to (writerIndex b) xs b) (hasWritten (int (length xs)))"
| "buf_step (UnWrite_op n) b = unWrite n b"
| "buf_step (ReadFd_op xs) b = rbind (readFd (\<lambda>cap. Inr (take cap xs)) b) (\<lambda>(n, e, b). Inr b)"

text \<open>The counts the assertions ask for, and room in the index type.\<close>

fun buf_guard :: "buf_op \<Rightarrow> buffer \<Rightarrow> bool" where
  "buf_guard (Append_op xs) b \<longleftrightarrow> length (content b) + 2 * length xs + 8 < 2 ^ 31"
| "buf_guard (Retrieve_op n) b \<longleftrightarrow> 0 \<le> n \<and> n \<le> readAbleBytes b"
| "buf_guard RetrieveAll_op b \<longleftrightarrow> True"
| "buf_guard (Prepend_op xs) b \<longleftrightarrow> int (length xs) \<le> prependAbleBytes b"
| "buf_guard (Shrink_op k) b \<longleftrightarrow> 0 \<le> k \<and> 3 * (int (length (content b)) + k) + 8 < 2 ^ 31"
| "buf_guard (Ensure_op n) b \<longleftrightarrow> 0 \<le> n \<and> int (length (content b)) + 2 * n + 8 < 2 ^ 31"
| "buf_guard (Fill_op xs) b \<longleftrightarrow> int (length xs) \<le> writeAbleBytes b"
| "buf_guard (UnWrite_op n) b \<longleftrightarrow> 0 \<le> n \<and> n \<le> readAbleBytes b"
| "buf_guard (ReadFd_op xs) b \<longleftrightarrow> length xs \<le> readv_cap b \<and> length (buf b) + 2 * 65536 + 8 < 2 ^ 31"

text \<open>What they do to the readable bytes.\<close>

fun deque :: "buf_op \<Rightarrow> byte list \<Rightarrow> byte list" where
  "deque (Append_op xs) q = q @ xs"
| "deque (Retrieve_op n) q = drop (nat n) q"
| "deque RetrieveAll_op q = []"
| "deque (Prepend_op xs) q = xs @ q"
| "deque (Shrink_op k) q = q"
| "deque (Ensure_op n) q = q"
| "deque (Fill_op xs) q = q @ xs"
| "deque (UnWrite_op n) q = take (length q - nat n) q"
| "deque (ReadFd_op xs) q = q @ xs"

lemma retrieveAll_ok: "buffer_inv b \<Longrightarrow> buffer_inv (retrieveAll b) \<and> content (retrieveAll b) = []"
  by (auto simp: buffer_inv_def retrieveAll_def content_def slice_def cCheapPrepend_def)

lemma unWrite_ok:
  assumes inv: "buffer_inv b" and n: "0 \<le> n" "n \<le> readAbleBytes b"
  shows "ok (\<lambda>b'. buffer_inv b' \<and> content b' = take (length (content b) - nat n) (content b)) (unWrite n b)"
  using assms buffer_invD [OF inv] readAble_eq [OF inv] length_content [OF inv]
  by (auto simp: unWrite_def buffer_inv_def content_def slice_def nat_diff_distrib add.commute)

lemma Fill_ok:
  assumes inv: "buffer_inv b" and "int (length xs) \<le> writeAbleBytes b"
  shows "ok (\<lambda>b'. buffer_inv b' \<and> content b' = content b @ xs) (rbind (copy_to (writerIndex b) xs b) (hasWritten (int (length xs))))"
proof -
  from fill_ok [OF assms] obtain x where x: "copy_to (writerIndex b) xs b = Inr x" "x = b\<lparr>buf := buf x\<rparr>" "length (buf x) = length (buf b)"
    "buffer_inv (x\<lparr>writerIndex := writerIndex b + int (length xs)\<rparr>)" "content (x\<lparr>writerIndex := writerIndex b + int (length xs)\<rparr>) = content b @ xs"
    by (auto simp: ok_iff)
  have w: "writerIndex x = writerIndex b" using arg_cong [OF x(2), of writerIndex] by simp
  then have "writeAbleBytes x = writeAbleBytes b" using x(3) by (simp add: writeAbleBytes_def)
  moreover have "int32 (writerIndex b + int (length xs)) = writerIndex b + int (length xs)"
    using assms(2) buffer_invD [OF inv] writeAble_eq [OF inv] by (intro int32_id) simp_all
  ultimately show ?thesis using x(1,4,5) w assms(2) by (simp add: hasWritten_def)
qed

lemma buf_step_ok:
  assumes "buffer_inv b" and "buf_guard op b"
  shows "ok (\<lambda>b'. buffer_inv b' \<and> content b' = deque op (content b)) (buf_step op b)"
proof (cases op)
  case (Append_op xs)
  then show ?thesis using Buffer_append_ok [OF assms(1), of xs] assms(2) by (auto elim: ok_mono)
next
  case (ReadFd_op xs)
  have "readv_contract (\<lambda>cap. Inr (take cap xs))" by (simp add: readv_contract_def)
  from readFd_data [OF assms(1) this, of xs] show ?thesis using ReadFd_op assms(2) by (auto simp: ok_iff)
next
  case (Retrieve_op n)
  then show ?thesis using retrieve_ok [OF assms(1), of n] assms(2) readAble_content [OF assms(1)] by (auto elim: ok_mono)
next
  case RetrieveAll_op
  then show ?thesis using retrieveAll_ok [OF assms(1)] by simp
next
  case (Prepend_op xs)
  then show ?thesis using prepend_ok [OF assms(1), of xs] assms(2) by (auto elim: ok_mono)
next
  case (Shrink_op k)
  then show ?thesis using shrink_ok [OF assms(1), of k] assms(2) by simp
next
  case (Ensure_op n)
  then show ?thesis using ensureWriteAbleBytes_ok [OF assms(1), of n] assms(2) by (auto simp: roomy_def elim: ok_mono)
next
  case (Fill_op xs)
  then show ?thesis using Fill_ok [OF assms(1), of xs] assms(2) by simp
next
  case (UnWrite_op n)
  then show ?thesis using unWrite_ok [OF assms(1), of n] assms(2) by simp
qed

interpretation buffer_ops: guarded_machine buffer_inv buf_guard buf_step
proof
  fix b op
  assume "buffer_inv b" "buf_guard op b"
  from buf_step_ok [OF this] show "ok buffer_inv (buf_step op b)" by (rule ok_mono) simp
qed

section \<open>Properties\<close>

text \<open>C4: Any sequence of appends and retrievals that the list queue accepts runs on a fresh buffer
  without a failed assertion or an access outside the vector, returns what the queue returns and
  leaves its content: bytes come out in the order they went in, none lost, duplicated or changed.\<close>

theorem buffer_run_fifo:
  assumes "spec_run (2 ^ 31) ops [] = Some (outs, q)"
  shows "ok (\<lambda>(outs', b). outs' = outs \<and> buffer_inv b \<and> content b = q \<and> concat outs' @ content b = puts ops)
    (rbind (Buffer_new initialSize) (stream_run Buffer_append (\<lambda>n. retrieveAsString (int n)) ops))"
proof (rule ok_rbind [OF Buffer_new_ok])
  fix b
  assume "buffer_inv b \<and> content b = [] \<and> length (buf b) = 1032 \<and> readerIndex b = 8"
  with buffer_stream.run_refines [of b ops outs q] assms spec_run_fifo [OF assms]
  show "ok (\<lambda>(outs', b). outs' = outs \<and> buffer_inv b \<and> content b = q \<and> concat outs' @ content b = puts ops)
     (stream_run Buffer_append (\<lambda>n. retrieveAsString (int n)) ops b)"
    by (auto simp: ok_iff)
qed

theorem buffer_run_fifo_witness:
  "ok (\<lambda>(outs', b). outs' = [[1, 2]] \<and> buffer_inv b \<and> content b = [3] \<and> concat outs' @ content b = [1, 2, 3])
    (rbind (Buffer_new 5) (stream_run Buffer_append (\<lambda>n. retrieveAsString (int n)) [Put [1, 2, 3], Get 2]))"
  using buffer_run_fifo [of "[Put [1, 2, 3], Get 2]" "[[1, 2]]" "[3]" 5] by simp


text \<open>\<open>append\<close> adds the bytes at the end of the content and keeps the invariant, and the vector
  grows to at most the old content plus twice the new bytes plus the prepend area: space before the
  reader index is reused before the vector is enlarged past that.\<close>

theorem append_bounded:
  assumes "buffer_inv b" and "length (content b) + 2 * length xs + 8 < 2 ^ 31"
  shows "ok (\<lambda>b'. buffer_inv b' \<and> content b' = content b @ xs \<and>
      length (buf b') \<le> max (length (buf b)) (length (content b) + 2 * length xs + 8))
    (Buffer_append xs b)"
  using assms by (rule Buffer_append_ok)

theorem append_bounded_witness:
  "ok (\<lambda>b'. buffer_inv b' \<and> content b' = [0, 0, 7, 9] \<and> length (buf b') \<le> 14)
    (Buffer_append [7, 9] \<lparr>buf = replicate 12 0, readerIndex = 10, writerIndex = 12\<rparr>)"
proof -
  let ?b = "\<lparr>buf = replicate 12 0, readerIndex = 10, writerIndex = 12\<rparr>"
  have i: "buffer_inv ?b" and c: "content ?b = [0, 0]" by code_simp+
  show ?thesis using append_bounded [OF i, of "[7, 9]"] by (simp add: c)
qed

text \<open>\<open>readFd\<close> returns what \<open>readv\<close> returns: on an error the buffer is unchanged, the result is
  negative and the errno is saved; otherwise the bytes the kernel delivered, spilling into the
  extra buffer or not, are exactly what is added to the content.\<close>

theorem readFd_spec:
  assumes "buffer_inv b" and "readv_contract rv" and "length (buf b) + 2 * 65536 + 8 < 2 ^ 31"
  shows "case rv (readv_cap b) of
      Inl e \<Rightarrow> readFd rv b = Inr (-1, Some e, b)
    | Inr bs \<Rightarrow> ok (\<lambda>(n, e, b'). n = int (length bs) \<and> e = None \<and> buffer_inv b' \<and>
        content b' = content b @ bs) (readFd rv b)"
  using readFd_error [of rv b] readFd_data [OF assms(1,2) _ assms(3)] by (simp split: sum.split)

theorem readFd_spec_witness:
  "ok (\<lambda>(n, e, b'). n = 20 \<and> e = None \<and> buffer_inv b' \<and> content b' = replicate 20 7)
    (readFd (\<lambda>cap. Inr (replicate (min 20 cap) 7)) \<lparr>buf = replicate 12 0, readerIndex = 8, writerIndex = 8\<rparr>)"
  using readFd_spec [of "\<lparr>buf = replicate 12 0, readerIndex = 8, writerIndex = 8\<rparr>"
      "\<lambda>cap. Inr (replicate (min 20 cap) 7)"]
  by (simp add: buffer_inv_def readv_contract_def content_def cCheapPrepend_def readv_cap_def
      writeAbleBytes_def extrabuf_size_def)

text \<open>C24: Integers written with \<open>appendInt64/32/16/8\<close> into an empty buffer are read back by
  \<open>readInt64/32/16/8\<close> in the same order with the same value (\<open>readInt32\<close> sign-extends to 64 bits),
  and the buffer is empty again.\<close>

theorem int_roundtrip:
  assumes "buffer_inv b" and "content b = []"
  shows "ok (\<lambda>(w', x', y', z', b'). w' = w \<and> x' = scast x \<and> y' = y \<and> z' = z \<and> content b' = [])
    (rbind (appendInt64 w b) (\<lambda>b. rbind (appendInt32 x b) (\<lambda>b. rbind (appendInt16 y b) (\<lambda>b.
     rbind (appendInt8 z b) (\<lambda>b. rbind (readInt64 b) (\<lambda>(w', b). rbind (readInt32 b) (\<lambda>(x', b).
     rbind (readInt16 b) (\<lambda>(y', b). rbind (readInt8 b) (\<lambda>(z', b). Inr (w', x', y', z', b))))))))))"
proof -
  obtain c where c: "rbind (appendInt64 w b) (\<lambda>b. rbind (appendInt32 x b) (\<lambda>b.
      rbind (appendInt16 y b) (appendInt8 z))) = Inr c" "buffer_inv c"
    "content c = rev (mem_bytes 8 w) @ rev (mem_bytes 4 x) @ rev (mem_bytes 2 y) @ rev (mem_bytes 1 z)"
    using appendInts_ok [of b w x y z] assms by (auto simp: ok_iff)
  obtain c1 where c1: "readInt64 c = Inr (w, c1)" "buffer_inv c1"
    "content c1 = rev (mem_bytes 4 x) @ rev (mem_bytes 2 y) @ rev (mem_bytes 1 z)"
    using readInt64_ok [OF c(2,3)] by (auto simp: ok_iff)
  obtain c2 where c2: "readInt32 c1 = Inr (scast x, c2)" "buffer_inv c2"
    "content c2 = rev (mem_bytes 2 y) @ rev (mem_bytes 1 z)"
    using readInt32_ok [OF c1(2,3)] by (auto simp: ok_iff)
  obtain c3 where c3: "readInt16 c2 = Inr (y, c3)" "buffer_inv c3"
    "content c3 = rev (mem_bytes 1 z) @ []"
    using readInt16_ok [OF c2(2,3)] by (auto simp: ok_iff)
  obtain c4 where c4: "readInt8 c3 = Inr (z, c4)" "content c4 = []"
    using readInt8_ok [OF c3(2,3)] by (auto simp: ok_iff)
  from c(1) c1(1) c2(1) c3(1) c4 show ?thesis
    by (auto simp: rbind_eq_Inr)
qed

theorem int_roundtrip_witness:
  "ok (\<lambda>(w', x', y', z', b'). w' = - 1 \<and> x' = - 3 \<and> y' = - 2 \<and> z' = 72 \<and> content b' = [])
    (let b = \<lparr>buf = replicate 12 0, readerIndex = 8, writerIndex = 8\<rparr> in
     rbind (appendInt64 (- 1) b) (\<lambda>b. rbind (appendInt32 (- 3) b) (\<lambda>b. rbind (appendInt16 (- 2) b) (\<lambda>b.
     rbind (appendInt8 72 b) (\<lambda>b. rbind (readInt64 b) (\<lambda>(w', b). rbind (readInt32 b) (\<lambda>(x', b).
     rbind (readInt16 b) (\<lambda>(y', b). rbind (readInt8 b) (\<lambda>(z', b). Inr (w', x', y', z', b))))))))))"
  using int_roundtrip [of "\<lparr>buf = replicate 12 0, readerIndex = 8, writerIndex = 8\<rparr>" "- 1" "- 3" "- 2" 72]
  by (simp add: buffer_inv_def content_def cCheapPrepend_def)

text \<open>Framing: a 32-bit length put in front of a payload with \<open>prependInt32\<close> (there is room as long
  as four bytes are free before the reader index) is what \<open>readInt32\<close> returns, and the payload is
  what is left.\<close>

theorem prepend_length_roundtrip:
  assumes "buffer_inv b" and "4 \<le> prependAbleBytes b"
  shows "ok (\<lambda>(n, b'). n = scast len \<and> buffer_inv b' \<and> content b' = content b)
    (rbind (prependInt32 len b) readInt32)"
proof -
  obtain c where c: "prependInt32 len b = Inr c" "buffer_inv c"
    "content c = rev (mem_bytes 4 len) @ content b"
    using prepend_ok [of b "mem_bytes 4 (bswap 4 len)"] assms
    by (auto simp: prependInt32_def mem_bytes_bswap ok_iff)
  with readInt32_ok [OF c(2,3)] show ?thesis by simp
qed

theorem prepend_length_roundtrip_witness:
  "ok (\<lambda>(n, b'). n = 2 \<and> buffer_inv b' \<and> content b' = [0, 0])
    (rbind (prependInt32 2 \<lparr>buf = replicate 12 0, readerIndex = 8, writerIndex = 10\<rparr>) readInt32)"
proof -
  let ?b = "\<lparr>buf = replicate 12 0, readerIndex = 8, writerIndex = 10\<rparr>"
  have i: "buffer_inv ?b" and c: "content ?b = [0, 0]" and r: "4 \<le> prependAbleBytes ?b" by code_simp+
  show ?thesis using prepend_length_roundtrip [OF i r, of 2] by (simp add: c)
qed

text \<open>\<open>findEOL\<close> finds the first newline of the content or reports that there is none, and
  \<open>retrieveUntil\<close> up to the offset it returns drops exactly the bytes before that newline.\<close>

theorem findEOL_spec:
  assumes "buffer_inv b"
  shows "ok (\<lambda>r. case r of
        None \<Rightarrow> 10 \<notin> set (content b)
      | Some p \<Rightarrow> \<exists>k < length (content b). content b ! k = 10 \<and> 10 \<notin> set (take k (content b)) \<and>
          ok (\<lambda>b'. buffer_inv b' \<and> content b' = drop k (content b)) (retrieveUntil p b))
    (findEOL b)"
proof (rule ok_mono [OF findEOL_ok [OF assms]], goal_cases)
  case (1 r)
  show ?case
  proof (cases r)
    case None
    with 1 show ?thesis by simp
  next
    case (Some p)
    with 1 obtain k where k: "k < length (content b)" "p = readerIndex b + int k"
      "content b ! k = 10" "10 \<notin> set (take k (content b))" by auto
    have "retrieveUntil p b = retrieve (int k) b"
      using k length_content [OF assms] buffer_invD [OF assms] by (simp add: retrieveUntil_def)
    then have "ok (\<lambda>b'. buffer_inv b' \<and> content b' = drop k (content b)) (retrieveUntil p b)"
      using retrieve_ok [OF assms, of "int k"] k by (auto elim: ok_mono)
    with Some k show ?thesis by auto
  qed
qed

theorem findEOL_spec_witness:
  "ok (\<lambda>r. case r of
        None \<Rightarrow> 10 \<notin> set [65, 10, 66 :: byte]
      | Some p \<Rightarrow> \<exists>k < length [65, 10, 66 :: byte]. [65, 10, 66] ! k = (10 :: byte) \<and>
          10 \<notin> set (take k [65, 10, 66 :: byte]) \<and>
          ok (\<lambda>b'. buffer_inv b' \<and> content b' = drop k [65, 10, 66])
            (retrieveUntil p \<lparr>buf = [0, 0, 0, 0, 0, 0, 0, 0, 65, 10, 66], readerIndex = 8, writerIndex = 11\<rparr>))
    (findEOL \<lparr>buf = [0, 0, 0, 0, 0, 0, 0, 0, 65, 10, 66], readerIndex = 8, writerIndex = 11\<rparr>)"
proof -
  let ?b = "\<lparr>buf = [0, 0, 0, 0, 0, 0, 0, 0, 65, 10, 66], readerIndex = 8, writerIndex = 11\<rparr>"
  have i: "buffer_inv ?b" and c: "content ?b = [65, 10, 66]" by code_simp+
  show ?thesis using findEOL_spec [OF i] unfolding c .
qed

text \<open>\<open>shrink\<close> keeps the readable bytes.\<close>

theorem shrink_content:
  assumes "buffer_inv b" and "0 \<le> k"
    and "2 * (int (length (content b)) + k) + 8 < 2 ^ 31" and "3 * length (content b) + 8 < 2 ^ 31"
  shows "ok (\<lambda>b'. buffer_inv b' \<and> content b' = content b) (shrink k b)"
  using assms by (rule shrink_ok)

theorem shrink_content_witness:
  "ok (\<lambda>b'. buffer_inv b' \<and> content b' = [0, 0])
    (shrink 0 \<lparr>buf = replicate 12 0, readerIndex = 8, writerIndex = 10\<rparr>)"
proof -
  let ?b = "\<lparr>buf = replicate 12 0, readerIndex = 8, writerIndex = 10\<rparr>"
  have i: "buffer_inv ?b" and c: "content ?b = [0, 0]" by code_simp+
  show ?thesis using shrink_content [OF i, of 0] by (simp add: c)
qed

text \<open>C23: A buffer is well formed at every moment: after any sequence of operations on a fresh buffer that respects the counts the
  assertions ask for, no operation has failed, the indices are in order and inside the vector, which fits into \<open>int\<close>, and the readable bytes are those of a
  double-ended queue on which the same operations were performed.\<close>

theorem buffer_well_formed:
  assumes "Buffer_new n = Inr b" and "guards buf_guard buf_step ops b"
  shows "\<exists>b'. rfold buf_step ops b = Inr b' \<and>
    0 \<le> readerIndex b' \<and> readerIndex b' \<le> writerIndex b' \<and> writerIndex b' \<le> int (length (buf b')) \<and> int (length (buf b')) < 2 ^ 31 \<and>
    content b' = fold deque ops []"
proof -
  have b: "buffer_inv b" "content b = []" using Buffer_new_ok [of n] assms(1) by simp_all
  have "content t = deque op (content s)" if "buffer_inv s" "buf_guard op s" "buf_step op s = Inr t" for s op t
    using buf_step_ok [OF that(1,2)] that(3) by simp
  note c = buffer_ops.run_simulates [of content deque, OF this b(1) assms(2)]
  from ok_conj [OF buffer_ops.run_ok [OF b(1) assms(2)] c] obtain b' where b': "rfold buf_step ops b = Inr b'" "buffer_inv b'"
    "content b' = fold deque ops []" unfolding ok_iff b(2) by blast
  show ?thesis using b'(1,3) buffer_invD [OF b'(2)] by simp
qed

definition demo_ops :: "buf_op list" where
  "demo_ops = [Append_op [1, 2, 3], Prepend_op [9], UnWrite_op 1, Retrieve_op 2]"

text \<open>The guards of these operations, as far as they can be evaluated.\<close>

fun demo_buf_guard :: "buf_op \<Rightarrow> buffer \<Rightarrow> bool" where
  "demo_buf_guard (Append_op xs) b \<longleftrightarrow> length (content b) \<le> 3 \<and> length xs \<le> 3"
| "demo_buf_guard (Retrieve_op n) b \<longleftrightarrow> 0 \<le> n \<and> n \<le> readAbleBytes b"
| "demo_buf_guard (Prepend_op xs) b \<longleftrightarrow> int (length xs) \<le> prependAbleBytes b"
| "demo_buf_guard (UnWrite_op n) b \<longleftrightarrow> 0 \<le> n \<and> n \<le> readAbleBytes b"
| "demo_buf_guard op b \<longleftrightarrow> False"

theorem buffer_well_formed_witness:
  "\<exists>b b'. Buffer_new 0 = Inr b \<and> rfold buf_step demo_ops b = Inr b' \<and> content b' = [2]"
proof -
  obtain b where b: "Buffer_new 0 = Inr b" using Buffer_new_ok [of 0] by (auto simp: ok_iff)
  have "guards demo_buf_guard buf_step demo_ops (projr (Buffer_new 0))" by code_simp
  then have "guards buf_guard buf_step demo_ops b"
    unfolding b sum.sel by (rule guards_weaken) (auto simp: demo_ops_def)
  from buffer_well_formed [OF b this] b show ?thesis by (auto simp: demo_ops_def)
qed

end
