(* ===== verification/Chnnel.thy ===== *)
theory Chnnel
  imports Timestamps
begin

text \<open>
  \<^verbatim>\<open>src/netlib/net/Chnnel.h\<close> and \<^verbatim>\<open>Chnnel.cc\<close>: a channel, that is a file descriptor with the events it
  is interested in and the callbacks for them.

  The record has the members of the class; a callback slot is the flag whether a callback is set,
  and the weak pointer \<open>_tie\<close> is the identity of the object it refers to. \<open>events_dispatched\<close> is the
  sequence of callbacks that \<open>handleEventWithGuard\<close> makes for the returned events; the loop of
  \<open>EventLoop\<close> runs them. The uninitialised member \<open>_logHup\<close>, which only guards a log message, and
  the log messages are left out. What \<open>update\<close> and \<open>remove\<close> do in the event loop is in the theory
  \<open>EventLoop\<close>.
\<close>

unbundle bit_operations_syntax

section \<open>Model\<close>

type_synonym events = "32 word"

definition POLLIN :: events where "POLLIN = 0x001"
definition POLLPRI :: events where "POLLPRI = 0x002"
definition POLLOUT :: events where "POLLOUT = 0x004"
definition POLLERR :: events where "POLLERR = 0x008"
definition POLLHUP :: events where "POLLHUP = 0x010"
definition POLLNVAL :: events where "POLLNVAL = 0x020"
definition POLLWRBAND :: events where "POLLWRBAND = 0x200"
definition POLLRDHUP :: events where "POLLRDHUP = 0x2000"

definition cNonEvent :: events where "cNonEvent = 0"
definition cReadEvent :: events where "cReadEvent = POLLIN OR POLLPRI"
definition cWriteEvent :: events where "cWriteEvent = POLLOUT"

record Chnnel =
  ch_fd :: int
  ch_events :: events
  ch_revents :: events
  ch_flag :: int
  addedToLoop :: bool
  eventHanding :: bool
  tied :: bool
  ch_tie :: nat
  errorCallBack :: bool
  writeCallBack :: bool
  readCallBack :: bool
  closeCallBack :: bool

definition Chnnel_new :: "int \<Rightarrow> Chnnel" where
  "Chnnel_new fd = \<lparr>ch_fd = fd, ch_events = 0, ch_revents = 0, ch_flag = -1, addedToLoop = False,
    eventHanding = False, tied = False, ch_tie = 0, errorCallBack = False, writeCallBack = False,
    readCallBack = False, closeCallBack = False\<rparr>"

definition tie :: "nat \<Rightarrow> Chnnel \<Rightarrow> Chnnel" where
  "tie obj c = c\<lparr>ch_tie := obj, tied := True\<rparr>"

definition isWriting :: "Chnnel \<Rightarrow> bool" where
  "isWriting c \<longleftrightarrow> ch_events c AND cWriteEvent \<noteq> 0"

definition isReading :: "Chnnel \<Rightarrow> bool" where
  "isReading c \<longleftrightarrow> ch_events c AND cReadEvent \<noteq> 0"

definition isNoneEvent :: "Chnnel \<Rightarrow> bool" where
  "isNoneEvent c \<longleftrightarrow> ch_events c = cNonEvent"

definition setRevents :: "events \<Rightarrow> Chnnel \<Rightarrow> Chnnel" where
  "setRevents r c = c\<lparr>ch_revents := r\<rparr>"

definition setFlag :: "int \<Rightarrow> Chnnel \<Rightarrow> Chnnel" where
  "setFlag f c = c\<lparr>ch_flag := f\<rparr>"

definition setErrorCallBack :: "Chnnel \<Rightarrow> Chnnel" where "setErrorCallBack c = c\<lparr>errorCallBack := True\<rparr>"
definition setReadCallBack :: "Chnnel \<Rightarrow> Chnnel" where "setReadCallBack c = c\<lparr>readCallBack := True\<rparr>"
definition setWriteCallBack :: "Chnnel \<Rightarrow> Chnnel" where "setWriteCallBack c = c\<lparr>writeCallBack := True\<rparr>"
definition setCloseCallBack :: "Chnnel \<Rightarrow> Chnnel" where "setCloseCallBack c = c\<lparr>closeCallBack := True\<rparr>"

definition eventsToString :: "int \<Rightarrow> events \<Rightarrow> string" where
  "eventsToString fd ev = dec_int fd @ '':'' @
    (if ev AND POLLIN \<noteq> 0 then ''IN '' else '''') @
    (if ev AND POLLPRI \<noteq> 0 then ''PRI '' else '''') @
    (if ev AND POLLOUT \<noteq> 0 then ''OUT '' else '''') @
    (if ev AND POLLHUP \<noteq> 0 then ''HUP '' else '''') @
    (if ev AND POLLRDHUP \<noteq> 0 then ''RDHUP '' else '''') @
    (if ev AND POLLERR \<noteq> 0 then ''ERR '' else '''') @
    (if ev AND POLLNVAL \<noteq> 0 then ''NVAL '' else '''')"

definition reventsToString :: "Chnnel \<Rightarrow> string" where
  "reventsToString c = eventsToString (ch_fd c) (ch_revents c)"

definition Chnnel_eventsToString :: "Chnnel \<Rightarrow> string" where
  "Chnnel_eventsToString c = eventsToString (ch_fd c) (ch_events c)"

datatype callback_kind = ErrorCallBack | CloseCallBack | ReadCallBack Time | WriteCallBack

text \<open>The callbacks in the order they are made. \<open>_revevts\<close> is set by the poller only, so the
  callbacks themselves do not change which of them follow.\<close>

definition events_dispatched :: "Time \<Rightarrow> Chnnel \<Rightarrow> callback_kind list" where
  "events_dispatched receiveTime c =
    (let r = ch_revents c in
     (if r AND (POLLNVAL OR POLLERR) \<noteq> 0 \<and> errorCallBack c then [ErrorCallBack] else []) @
     (if r AND POLLHUP \<noteq> 0 \<and> \<not> (r AND POLLIN \<noteq> 0) \<and> closeCallBack c then [CloseCallBack] else []) @
     (if r AND (POLLIN OR POLLPRI OR POLLRDHUP) \<noteq> 0 \<and> readCallBack c then [ReadCallBack receiveTime] else []) @
     (if r AND (POLLOUT OR POLLWRBAND) \<noteq> 0 \<and> writeCallBack c then [WriteCallBack] else []))"

text \<open>\<open>handleEvent\<close>: a tied channel dispatches only while the object it is tied to is alive.\<close>

definition handleEvent_callbacks :: "nat set \<Rightarrow> Time \<Rightarrow> Chnnel \<Rightarrow> callback_kind list" where
  "handleEvent_callbacks alive receiveTime c =
    (if tied c then if ch_tie c \<in> alive then events_dispatched receiveTime c else []
     else events_dispatched receiveTime c)"

fun callback_rank :: "callback_kind \<Rightarrow> nat" where
  "callback_rank ErrorCallBack = 0"
| "callback_rank CloseCallBack = 1"
| "callback_rank (ReadCallBack t) = 2"
| "callback_rank WriteCallBack = 3"

section \<open>Lemmas\<close>

lemmas poll_consts = POLLIN_def POLLPRI_def POLLOUT_def POLLERR_def POLLHUP_def POLLNVAL_def POLLWRBAND_def
  POLLRDHUP_def cNonEvent_def cReadEvent_def cWriteEvent_def

text \<open>A mask of several event bits is hit when one of them is.\<close>

lemma or_zero: "(a :: events) OR b = 0 \<longleftrightarrow> a = 0 \<and> b = 0"
  by (auto simp: bit_eq_iff bit_or_iff)

lemma and_or_nonzero: "(r :: events) AND (a OR b) \<noteq> 0 \<longleftrightarrow> r AND a \<noteq> 0 \<or> r AND b \<noteq> 0"
  by (simp add: bit.conj_disj_distrib or_zero)

text \<open>Enabling and disabling one direction leaves the other alone.\<close>

lemma write_bits:
  "(e OR cWriteEvent) AND cWriteEvent \<noteq> 0" "(e AND NOT cWriteEvent) AND cWriteEvent = 0"
  "(e OR cWriteEvent) AND cReadEvent = e AND cReadEvent" "(e AND NOT cWriteEvent) AND cReadEvent = e AND cReadEvent"
proof -
  have d: "cWriteEvent AND cReadEvent = 0" "NOT cWriteEvent AND cReadEvent = cReadEvent"
    "NOT cWriteEvent AND cWriteEvent = 0" "cWriteEvent AND cWriteEvent = cWriteEvent" "cWriteEvent \<noteq> 0"
    by code_simp+
  show "(e OR cWriteEvent) AND cWriteEvent \<noteq> 0" using d by (simp add: bit.conj_disj_distrib2)
  show "(e AND NOT cWriteEvent) AND cWriteEvent = 0" using d by (simp add: and.assoc)
  show "(e OR cWriteEvent) AND cReadEvent = e AND cReadEvent" using d by (simp add: bit.conj_disj_distrib2)
  show "(e AND NOT cWriteEvent) AND cReadEvent = e AND cReadEvent" using d by (simp add: and.assoc)
qed

section \<open>Properties\<close>



end
