(* ===== verification/Epoller.thy ===== *)
theory Epoller
  imports Chnnel
begin

text \<open>
  \<^verbatim>\<open>src/netlib/net/Epoller.h\<close> and \<^verbatim>\<open>Epoller.cc\<close>: the registration of channels with epoll.

  Channels are objects in a store \<open>chans\<close> from addresses to records, because the poller and the kernel
  hold raw pointers to them. The epoll instance is a value \<open>epollFd\<close> of an arbitrary type \<open>'k\<close>: the
  system call \<open>epoll_ctl\<close> is the argument \<open>ctl\<close>, which returns whether it succeeded and the new
  instance, and \<open>epoll_contract\<close> states what the manual page promises about it in terms of the
  interest list. \<open>epoll_wait\<close> is represented by its outcome. Reports with \<open>LOG_SYSERR\<close> do not change
  the state; \<open>LOG_SYSFATAL\<close> aborts.
\<close>

section \<open>Model\<close>

definition cNew :: int where "cNew = -1"
definition cAdded :: int where "cAdded = 1"
definition cDeleted :: int where "cDeleted = 2"

definition cEventsInitSize :: nat where "cEventsInitSize = 8"

datatype ctl_op = EPOLL_CTL_ADD | EPOLL_CTL_MOD | EPOLL_CTL_DEL

type_synonym 'k epoll_ctl = "ctl_op \<Rightarrow> int \<Rightarrow> events \<times> addr \<Rightarrow> 'k \<Rightarrow> bool \<times> 'k"

record 'k Epoller =
  chans :: "addr \<rightharpoonup> Chnnel"
  chnnels :: "int \<rightharpoonup> addr"
  eventsSize :: nat
  epollFd :: 'k
  inLoopThread :: bool

definition chan_at :: "addr \<Rightarrow> ('k, 'z) Epoller_scheme \<Rightarrow> Chnnel res" where
  "chan_at p s = (case chans s p of None \<Rightarrow> Inl UseAfterFree | Some c \<Rightarrow> Inr c)"

definition set_chan :: "addr \<Rightarrow> Chnnel \<Rightarrow> ('k, 'z) Epoller_scheme \<Rightarrow> ('k, 'z) Epoller_scheme" where
  "set_chan p c s = s\<lparr>chans := (chans s)(p \<mapsto> c)\<rparr>"

definition assertInLoopThread :: "('k, 'z) Epoller_scheme \<Rightarrow> unit res" where
  "assertInLoopThread s = (if inLoopThread s then Inr () else Inl Abort)"

definition operationToString :: "ctl_op \<Rightarrow> string" where
  "operationToString op = (case op of EPOLL_CTL_DEL \<Rightarrow> ''EPOLL_CTL_DEL'' | EPOLL_CTL_ADD \<Rightarrow> ''EPOLL_CTL_ADD''
    | EPOLL_CTL_MOD \<Rightarrow> ''EPOLL_CTL_MOD'')"

definition Epoller_update :: "'k epoll_ctl \<Rightarrow> ctl_op \<Rightarrow> addr \<Rightarrow> ('k, 'z) Epoller_scheme \<Rightarrow> ('k, 'z) Epoller_scheme res" where
  "Epoller_update ctl op p s =
    rbind (chan_at p s) (\<lambda>c.
    let (success, k) = ctl op (ch_fd c) (ch_events c, p) (epollFd s); s = s\<lparr>epollFd := k\<rparr>
    in if \<not> success \<and> op \<noteq> EPOLL_CTL_DEL then Inl Abort else Inr s)"

definition Epoller_updateChnnel :: "'k epoll_ctl \<Rightarrow> addr \<Rightarrow> ('k, 'z) Epoller_scheme \<Rightarrow> ('k, 'z) Epoller_scheme res" where
  "Epoller_updateChnnel ctl p s =
    rbind (assertInLoopThread s) (\<lambda>_.
    rbind (chan_at p s) (\<lambda>c.
    let flag = ch_flag c; fd = ch_fd c in
    if flag = cNew \<or> flag = cDeleted
    then rbind
      (if flag = cNew
       then if chnnels s fd \<noteq> None then Inl AssertFail else Inr (s\<lparr>chnnels := (chnnels s)(fd \<mapsto> p)\<rparr>)
       else if chnnels s fd \<noteq> Some p then Inl AssertFail else Inr s)
      (\<lambda>s. Epoller_update ctl EPOLL_CTL_ADD p (set_chan p (setFlag cAdded c) s))
    else if chnnels s fd \<noteq> Some p \<or> flag \<noteq> cAdded then Inl AssertFail
    else if isNoneEvent c
    then rbind (Epoller_update ctl EPOLL_CTL_DEL p s) (\<lambda>s. Inr (set_chan p (setFlag cDeleted c) s))
    else Epoller_update ctl EPOLL_CTL_MOD p s))"

definition Epoller_removeChnnel :: "'k epoll_ctl \<Rightarrow> addr \<Rightarrow> ('k, 'z) Epoller_scheme \<Rightarrow> ('k, 'z) Epoller_scheme res" where
  "Epoller_removeChnnel ctl p s =
    rbind (assertInLoopThread s) (\<lambda>_.
    rbind (chan_at p s) (\<lambda>c.
    let fd = ch_fd c; flag = ch_flag c in
    if chnnels s fd \<noteq> Some p \<or> \<not> isNoneEvent c \<or> \<not> (flag = cAdded \<or> flag = cDeleted) then Inl AssertFail
    else
      let s = s\<lparr>chnnels := (chnnels s)(fd := None)\<rparr> in
      rbind (if flag = cAdded then Epoller_update ctl EPOLL_CTL_DEL p s else Inr s)
        (\<lambda>s. Inr (set_chan p (setFlag cNew c) s))))"

definition Epoller_hasChnnel :: "addr \<Rightarrow> ('k, 'z) Epoller_scheme \<Rightarrow> bool res" where
  "Epoller_hasChnnel p s =
    rbind (assertInLoopThread s) (\<lambda>_.
    rbind (chan_at p s) (\<lambda>c. Inr (chnnels s (ch_fd c) = Some p)))"

text \<open>\<open>poll\<close>: \<open>wait\<close> is what \<open>epoll_wait\<close> returned, the events stored in the vector or an error.\<close>

definition fillActiveChnnels ::
    "(events \<times> addr) list \<Rightarrow> addr list \<Rightarrow> ('k, 'z) Epoller_scheme \<Rightarrow> (addr list \<times> ('k, 'z) Epoller_scheme) res" where
  "fillActiveChnnels evs activeChnnels s =
    (if eventsSize s < length evs then Inl AssertFail
     else rfold (\<lambda>(ev, p) (active, s). rbind (chan_at p s) (\<lambda>c.
            Inr (active @ [p], set_chan p (setRevents ev c) s))) evs (activeChnnels, s))"

definition poll ::
    "(events \<times> addr) list option \<Rightarrow> addr list \<Rightarrow> ('k, 'z) Epoller_scheme \<Rightarrow> (addr list \<times> ('k, 'z) Epoller_scheme) res" where
  "poll wait activeChnnels s =
    (case wait of
       None \<Rightarrow> Inr (activeChnnels, s)
     | Some evs \<Rightarrow>
         if evs = [] then Inr (activeChnnels, s)
         else rbind (fillActiveChnnels evs activeChnnels s) (\<lambda>(active, s).
              Inr (active, if length evs = eventsSize s then s\<lparr>eventsSize := eventsSize s * 2\<rparr> else s)))"

definition Epoller_new :: "'k \<Rightarrow> 'k Epoller" where
  "Epoller_new k = \<lparr>chans = Map.empty, chnnels = Map.empty, eventsSize = cEventsInitSize, epollFd = k, inLoopThread = True\<rparr>"

section \<open>Specification\<close>

text \<open>\<^verbatim>\<open>epoll_ctl(2)\<close>, for the descriptors \<open>usable\<close>: adding a descriptor that is not on the interest list,
  and modifying and deleting one that is, succeed and do just that.\<close>

definition epoll_contract :: "'k epoll_ctl \<Rightarrow> ('k \<Rightarrow> int \<rightharpoonup> events \<times> addr) \<Rightarrow> int set \<Rightarrow> bool" where
  "epoll_contract ctl interest usable \<longleftrightarrow>
    (\<forall>k fd e. fd \<in> usable \<longrightarrow> interest k fd = None \<longrightarrow>
      fst (ctl EPOLL_CTL_ADD fd e k) \<and> interest (snd (ctl EPOLL_CTL_ADD fd e k)) = (interest k)(fd \<mapsto> e)) \<and>
    (\<forall>k fd e. interest k fd \<noteq> None \<longrightarrow>
      fst (ctl EPOLL_CTL_MOD fd e k) \<and> interest (snd (ctl EPOLL_CTL_MOD fd e k)) = (interest k)(fd \<mapsto> e)) \<and>
    (\<forall>k fd e. interest k fd \<noteq> None \<longrightarrow>
      fst (ctl EPOLL_CTL_DEL fd e k) \<and> interest (snd (ctl EPOLL_CTL_DEL fd e k)) = (interest k)(fd := None))"

text \<open>The abstract poller: for every registered descriptor the channel and the events the kernel watches,
  \<open>None\<close> when the channel is registered but not watched. The invariant says that the three records of
  this, the flags of the channels, the map of the poller and the interest list of the kernel, agree.
  \<open>skip\<close> is a channel whose events are being changed.\<close>

definition chan_inv :: "('k \<Rightarrow> int \<rightharpoonup> events \<times> addr) \<Rightarrow> addr option \<Rightarrow> ('k, 'z) Epoller_scheme \<Rightarrow> addr \<Rightarrow> Chnnel \<Rightarrow> bool" where
  "chan_inv interest skip s p c \<longleftrightarrow>
    (ch_flag c = cNew \<and> chnnels s (ch_fd c) \<noteq> Some p \<or>
     ch_flag c = cDeleted \<and> chnnels s (ch_fd c) = Some p \<and> interest (epollFd s) (ch_fd c) = None \<or>
     ch_flag c = cAdded \<and> chnnels s (ch_fd c) = Some p \<and>
       (\<exists>e. interest (epollFd s) (ch_fd c) = Some (e, p) \<and> (skip \<noteq> Some p \<longrightarrow> e = ch_events c)))"

definition ep_inv :: "('k \<Rightarrow> int \<rightharpoonup> events \<times> addr) \<Rightarrow> int set \<Rightarrow> addr option \<Rightarrow> ('k, 'z) Epoller_scheme \<Rightarrow> bool" where
  "ep_inv interest usable skip s \<longleftrightarrow> inLoopThread s \<and>
    (\<forall>p c. chans s p = Some c \<longrightarrow> ch_fd c \<in> usable \<and> chan_inv interest skip s p c) \<and>
    (\<forall>fd p. chnnels s fd = Some p \<longrightarrow> (\<exists>c. chans s p = Some c \<and> ch_fd c = fd)) \<and>
    (\<forall>fd. chnnels s fd = None \<longrightarrow> interest (epollFd s) fd = None)"

section \<open>Lemmas\<close>

lemmas flag_consts = cNew_def cAdded_def cDeleted_def

lemma ep_invD:
  assumes "ep_inv interest usable skip s"
  shows "inLoopThread s" "\<And>p c. chans s p = Some c \<Longrightarrow> ch_fd c \<in> usable \<and> chan_inv interest skip s p c"
    "\<And>fd p. chnnels s fd = Some p \<Longrightarrow> \<exists>c. chans s p = Some c \<and> ch_fd c = fd"
    "\<And>fd. chnnels s fd = None \<Longrightarrow> interest (epollFd s) fd = None"
  using assms unfolding ep_inv_def by blast+

lemma ep_inv_assert: "ep_inv interest usable skip s \<Longrightarrow> assertInLoopThread s = Inr ()"
  by (simp add: ep_inv_def assertInLoopThread_def)

text \<open>A state that differs in what is recorded about one channel keeps the invariant when the records
  about this channel agree.\<close>

lemma ep_inv_change:
  assumes inv: "ep_inv interest usable (Some p) s" and c: "chans s p = Some c" and c': "ch_fd c' = ch_fd c"
    and s': "chans s' = (chans s)(p \<mapsto> c')" "\<And>fd. fd \<noteq> ch_fd c \<Longrightarrow> chnnels s' fd = chnnels s fd"
      "\<And>fd. fd \<noteq> ch_fd c \<Longrightarrow> interest (epollFd s') fd = interest (epollFd s) fd" "inLoopThread s'"
    and own: "chan_inv interest None s' p c'" and none: "chnnels s' (ch_fd c) = None \<Longrightarrow> interest (epollFd s') (ch_fd c) = None"
    and mine: "chnnels s (ch_fd c) = None \<or> chnnels s (ch_fd c) = Some p"
      "chnnels s' (ch_fd c) = None \<or> chnnels s' (ch_fd c) = Some p"
  shows "ep_inv interest usable None s'"
  unfolding ep_inv_def
proof (intro conjI allI impI)
  fix r d
  assume d: "chans s' r = Some d"
  show "ch_fd d \<in> usable"
    using d s'(1) c' ep_invD(2) [OF inv c] ep_invD(2) [OF inv] by (cases "r = p") auto
  show "chan_inv interest None s' r d"
  proof (cases "r = p")
    case True
    then show ?thesis using own d s'(1) by simp
  next
    case False
    then have r: "chans s r = Some d" using d s'(1) by simp
    have i: "chan_inv interest (Some p) s r d" using ep_invD(2) [OF inv r] by blast
    show ?thesis
    proof (cases "ch_fd d = ch_fd c")
      case True
      then have "ch_flag d = cNew" using i mine(1) False by (auto simp: chan_inv_def)
      then show ?thesis using True mine(2) False by (auto simp: chan_inv_def)
    next
      case fd: False
      then show ?thesis using i False s'(2,3) by (auto simp: chan_inv_def)
    qed
  qed
next
  fix fd r
  assume "chnnels s' fd = Some r"
  then show "\<exists>d. chans s' r = Some d \<and> ch_fd d = fd"
    using mine(2) s'(1,2) c' ep_invD(3) [OF inv, of fd r] c by (cases "fd = ch_fd c"; cases "r = p") auto
next
  fix fd
  assume "chnnels s' fd = None"
  then show "interest (epollFd s') fd = None"
    using none s'(2,3) ep_invD(4) [OF inv, of fd] by (cases "fd = ch_fd c") auto
qed (rule s'(4))


lemma epoll_contractD:
  assumes "epoll_contract ctl interest usable"
  shows "fd \<in> usable \<Longrightarrow> interest k fd = None \<Longrightarrow>
      \<exists>k'. ctl EPOLL_CTL_ADD fd e k = (True, k') \<and> interest k' = (interest k)(fd \<mapsto> e)"
    "interest k fd \<noteq> None \<Longrightarrow> \<exists>k'. ctl EPOLL_CTL_MOD fd e k = (True, k') \<and> interest k' = (interest k)(fd \<mapsto> e)"
    "interest k fd \<noteq> None \<Longrightarrow> \<exists>k'. ctl EPOLL_CTL_DEL fd e k = (True, k') \<and> interest k' = (interest k)(fd := None)"
proof -
  have pair: "\<exists>k'. x = (True, k') \<and> interest k' = m" if "fst x \<and> interest (snd x) = m" for x m
    using that by (cases x) simp
  note con = assms [unfolded epoll_contract_def]
  show "fd \<in> usable \<Longrightarrow> interest k fd = None \<Longrightarrow>
      \<exists>k'. ctl EPOLL_CTL_ADD fd e k = (True, k') \<and> interest k' = (interest k)(fd \<mapsto> e)"
    by (rule pair) (use con in blast)
  show "interest k fd \<noteq> None \<Longrightarrow> \<exists>k'. ctl EPOLL_CTL_MOD fd e k = (True, k') \<and> interest k' = (interest k)(fd \<mapsto> e)"
    by (rule pair) (use con in blast)
  show "interest k fd \<noteq> None \<Longrightarrow> \<exists>k'. ctl EPOLL_CTL_DEL fd e k = (True, k') \<and> interest k' = (interest k)(fd := None)"
    by (rule pair) (use con in blast)
qed

text \<open>The next flag of a channel that is updated.\<close>

definition next_flag :: "Chnnel \<Rightarrow> int" where
  "next_flag c = (if ch_flag c = cAdded \<and> isNoneEvent c then cDeleted else cAdded)"

lemma updateChnnel_ok:
  assumes con: "epoll_contract ctl interest usable" and inv: "ep_inv interest usable (Some p) s"
    and c: "chans s p = Some c" and new: "ch_flag c = cNew \<Longrightarrow> chnnels s (ch_fd c) = None"
  shows "\<exists>k'. Epoller_updateChnnel ctl p s = Inr (s\<lparr>chans := (chans s)(p \<mapsto> setFlag (next_flag c) c),
        chnnels := (chnnels s)(ch_fd c \<mapsto> p), epollFd := k'\<rparr>) \<and>
      interest k' = (interest (epollFd s))(ch_fd c := (if next_flag c = cAdded then Some (ch_events c, p) else None))"
    (is "\<exists>k'. _ = Inr (?s k') \<and> _")
proof -
  note i = ep_invD [OF inv]
  have u: "ch_fd c \<in> usable" and ci: "chan_inv interest (Some p) s p c" using i(2) [OF c] by blast+
  have as: "assertInLoopThread s = Inr ()" by (rule ep_inv_assert [OF inv])
  have at: "chan_at p s = Inr c" using c by (simp add: chan_at_def)
  let ?fd = "ch_fd c" and ?e = "(ch_events c, p)"
  consider (fresh) "ch_flag c = cNew" "chnnels s ?fd = None"
    | (deleted) "ch_flag c = cDeleted" "chnnels s ?fd = Some p" "interest (epollFd s) ?fd = None"
    | (added) "ch_flag c = cAdded" "chnnels s ?fd = Some p" "interest (epollFd s) ?fd \<noteq> None"
    using ci new by (auto simp: chan_inv_def)
  then show ?thesis
  proof cases
    case fresh
    then obtain k' where "ctl EPOLL_CTL_ADD ?fd ?e (epollFd s) = (True, k')"
      "interest k' = (interest (epollFd s))(?fd \<mapsto> ?e)"
      using epoll_contractD(1) [OF con u i(4), of "?e"] by blast
    with fresh as at show ?thesis
      by (intro exI [of _ k']) (simp add: Epoller_updateChnnel_def Epoller_update_def chan_at_def set_chan_def
          setFlag_def next_flag_def flag_consts)
  next
    case deleted
    then obtain k' where "ctl EPOLL_CTL_ADD ?fd ?e (epollFd s) = (True, k')"
      "interest k' = (interest (epollFd s))(?fd \<mapsto> ?e)"
      using epoll_contractD(1) [OF con u, of "epollFd s" "?e"] by blast
    with deleted as at show ?thesis
      by (intro exI [of _ k']) (simp add: Epoller_updateChnnel_def Epoller_update_def chan_at_def set_chan_def
          setFlag_def next_flag_def flag_consts fun_upd_idem)
  next
    case added
    show ?thesis
    proof (cases "isNoneEvent c")
      case True
      obtain k' where "ctl EPOLL_CTL_DEL ?fd ?e (epollFd s) = (True, k')"
        "interest k' = (interest (epollFd s))(?fd := None)"
        using epoll_contractD(3) [OF con added(3), of "?e"] by blast
      with added True as at show ?thesis
        by (intro exI [of _ k']) (simp add: Epoller_updateChnnel_def Epoller_update_def chan_at_def set_chan_def
            setFlag_def next_flag_def flag_consts fun_upd_idem)
    next
      case False
      obtain k' where "ctl EPOLL_CTL_MOD ?fd ?e (epollFd s) = (True, k')"
        "interest k' = (interest (epollFd s))(?fd \<mapsto> ?e)"
        using epoll_contractD(2) [OF con added(3), of "?e"] by blast
      moreover have "(chans s)(p \<mapsto> c\<lparr>ch_flag := 1\<rparr>) = chans s"
        using added(1) c by (simp add: fun_upd_idem flag_consts)
      ultimately show ?thesis
        using added False as at by (intro exI [of _ k']) (simp add: Epoller_updateChnnel_def Epoller_update_def
            chan_at_def set_chan_def setFlag_def next_flag_def flag_consts fun_upd_idem)
    qed
  qed
qed

lemma updateChnnel_inv:
  assumes con: "epoll_contract ctl interest usable" and inv: "ep_inv interest usable (Some p) s"
    and c: "chans s p = Some c" and new: "ch_flag c = cNew \<Longrightarrow> chnnels s (ch_fd c) = None"
  shows "ok (ep_inv interest usable None) (Epoller_updateChnnel ctl p s)"
proof -
  obtain k' where k': "Epoller_updateChnnel ctl p s = Inr (s\<lparr>chans := (chans s)(p \<mapsto> setFlag (next_flag c) c),
        chnnels := (chnnels s)(ch_fd c \<mapsto> p), epollFd := k'\<rparr>)"
    "interest k' = (interest (epollFd s))(ch_fd c := (if next_flag c = cAdded then Some (ch_events c, p) else None))"
    using updateChnnel_ok [OF assms] by blast
  have mine: "chnnels s (ch_fd c) = None \<or> chnnels s (ch_fd c) = Some p"
    using ep_invD(2) [OF inv c] new by (auto simp: chan_inv_def)
  have "ep_inv interest usable None (s\<lparr>chans := (chans s)(p \<mapsto> setFlag (next_flag c) c),
      chnnels := (chnnels s)(ch_fd c \<mapsto> p), epollFd := k'\<rparr>)"
    by (rule ep_inv_change [OF inv c, of "setFlag (next_flag c) c"])
      (use k'(2) mine ep_invD(1) [OF inv] in \<open>auto simp: setFlag_def chan_inv_def next_flag_def flag_consts\<close>)
  then show ?thesis by (simp add: k'(1))
qed

lemma removeChnnel_ok:
  assumes con: "epoll_contract ctl interest usable" and inv: "ep_inv interest usable None s"
    and c: "chans s p = Some c" and "isNoneEvent c" and "ch_flag c \<noteq> cNew"
  shows "\<exists>k'. Epoller_removeChnnel ctl p s = Inr (s\<lparr>chans := (chans s)(p \<mapsto> setFlag cNew c),
      chnnels := (chnnels s)(ch_fd c := None), epollFd := k'\<rparr>) \<and>
    interest k' = (interest (epollFd s))(ch_fd c := None)"
proof -
  have as: "assertInLoopThread s = Inr ()" by (rule ep_inv_assert [OF inv])
  have at: "chan_at p s = Inr c" using c by (simp add: chan_at_def)
  have ci: "chan_inv interest None s p c" using ep_invD(2) [OF inv c] by blast
  let ?fd = "ch_fd c" and ?e = "(ch_events c, p)"
  from ci assms(5) consider (deleted) "ch_flag c = cDeleted" "chnnels s ?fd = Some p" "interest (epollFd s) ?fd = None"
    | (added) "ch_flag c = cAdded" "chnnels s ?fd = Some p" "interest (epollFd s) ?fd \<noteq> None"
    by (auto simp: chan_inv_def)
  then show ?thesis
  proof cases
    case deleted
    with as at assms(4) show ?thesis
      by (intro exI [of _ "epollFd s"]) (simp add: Epoller_removeChnnel_def set_chan_def setFlag_def flag_consts fun_upd_idem)
  next
    case added
    then obtain k' where "ctl EPOLL_CTL_DEL ?fd ?e (epollFd s) = (True, k')"
      "interest k' = (interest (epollFd s))(?fd := None)"
      using epoll_contractD(3) [OF con added(3), of "?e"] by blast
    with added as at assms(4) show ?thesis
      by (intro exI [of _ k']) (simp add: Epoller_removeChnnel_def Epoller_update_def chan_at_def set_chan_def
          setFlag_def flag_consts)
  qed
qed

lemma ep_inv_skip: "ep_inv interest usable None s \<Longrightarrow> ep_inv interest usable (Some p) s"
proof -
  have "chan_inv interest None s r c \<Longrightarrow> chan_inv interest (Some p) s r c" for r c
    unfolding chan_inv_def by blast
  then show "ep_inv interest usable None s \<Longrightarrow> ep_inv interest usable (Some p) s"
    unfolding ep_inv_def by blast
qed

lemma removeChnnel_inv:
  assumes con: "epoll_contract ctl interest usable" and inv: "ep_inv interest usable None s"
    and c: "chans s p = Some c" and "isNoneEvent c" and "ch_flag c \<noteq> cNew"
  shows "ok (ep_inv interest usable None) (Epoller_removeChnnel ctl p s)"
proof -
  obtain k' where k': "Epoller_removeChnnel ctl p s = Inr (s\<lparr>chans := (chans s)(p \<mapsto> setFlag cNew c),
      chnnels := (chnnels s)(ch_fd c := None), epollFd := k'\<rparr>)" "interest k' = (interest (epollFd s))(ch_fd c := None)"
    using removeChnnel_ok [OF assms] by blast
  have mine: "chnnels s (ch_fd c) = Some p"
    using ep_invD(2) [OF inv c] assms(5) by (auto simp: chan_inv_def)
  have "ep_inv interest usable None (s\<lparr>chans := (chans s)(p \<mapsto> setFlag cNew c),
      chnnels := (chnnels s)(ch_fd c := None), epollFd := k'\<rparr>)"
    by (rule ep_inv_change [OF ep_inv_skip [OF inv] c, of "setFlag cNew c"])
      (use k'(2) mine ep_invD(1) [OF inv] in \<open>auto simp: setFlag_def chan_inv_def flag_consts\<close>)
  then show ?thesis by (simp add: k'(1))
qed

end
