(* ===== verification/TimerQueue.thy ===== *)
theory TimerQueue
  imports Timestamps "HOL-Library.Product_Lexorder"
begin

text \<open>
  \<^verbatim>\<open>src/netlib/net/Timer.h\<close>, \<^verbatim>\<open>Timer.cc\<close>, \<^verbatim>\<open>TimerId.h\<close>, \<^verbatim>\<open>TimerQueue.h\<close> and \<^verbatim>\<open>TimerQueue.cc\<close>: the timer queue of
  an event loop.

  Timers live in an explicit heap from addresses to \<open>Timer\<close> objects, because what matters here is
  ownership: the queue holds raw pointers, deletes timers when they are cancelled or have expired,
  and an address can be reused by a later allocation. Reading or deleting an address with no object
  is the fault \<open>UseAfterFree\<close>. \<open>std::set\<close> is a HOL set; the order of its elements is the
  lexicographic order on pairs.

  The environment consists of three arguments: \<open>alloc\<close>, the address the next \<open>new Timer\<close> gives
  (\<open>None\<close> when it throws \<open>std::bad_alloc\<close>); \<open>tod\<close>, the result of the \<open>n\<close>-th call of \<open>gettimeofday\<close>;
  and \<open>body\<close>, the actions on the queue that a user callback performs when it is run in a given
  state. A run is determined by these, so quantifying over all \<open>body\<close> covers callbacks that react to
  the results of their own calls. An action carries the flag whether its caller is the loop thread;
  calls of other threads are queued as pending functors, as \<open>EventLoop::runInLoop\<close> does.

  \<open>timerFd\<close> is the last value given to \<open>timerfd_settime\<close> since the descriptor last fired, with the
  clock reading it was computed from.
\<close>

section \<open>Model\<close>

record 'c Timer =
  callback :: 'c
  expiration :: Time
  interval :: double
  repeat :: bool
  sequence :: int

datatype TimerId = TimerId addr int

definition TimerId_default :: TimerId where
  "TimerId_default = TimerId 0 0"

text \<open>The functors that \<open>addTimer\<close> and \<open>cancleTimer\<close> bind for the loop.\<close>

datatype tq_functor = AddTimerInLoop addr | CancleInLoop TimerId

record 'c TimerQueue =
  heap :: "addr \<rightharpoonup> 'c Timer"
  INDEX :: int
  timers :: "(Time \<times> addr) set"
  activeTimers :: "(addr \<times> int) set"
  canllingTimers :: "(addr \<times> int) set"
  callingExpiredTimer :: bool
  timerFd :: "(Time \<times> (int \<times> int)) option"
  fdReading :: bool
  inLoop :: bool
  pending :: "tq_functor list"
  calls :: nat

type_synonym 'c allocator = "'c TimerQueue \<Rightarrow> addr option"
type_synonym clock = "nat \<Rightarrow> int \<times> int"

definition UINTPTR_MAX :: addr where
  "UINTPTR_MAX = 2 ^ 64 - 1"

subsection \<open>Timer objects\<close>

definition deref :: "addr \<Rightarrow> 'c TimerQueue \<Rightarrow> 'c Timer res" where
  "deref p q = (case heap q p of None \<Rightarrow> Inl UseAfterFree | Some t \<Rightarrow> Inr t)"

definition delete :: "addr \<Rightarrow> 'c TimerQueue \<Rightarrow> 'c TimerQueue res" where
  "delete p q = rbind (deref p q) (\<lambda>_. Inr (q\<lparr>heap := (heap q)(p := None)\<rparr>))"

definition Timer_new :: "'c \<Rightarrow> Time \<Rightarrow> double \<Rightarrow> int \<Rightarrow> 'c Timer" where
  "Timer_new cb when ival seq =
    \<lparr>callback = cb, expiration = when, interval = ival, repeat = 0 < mant ival, sequence = seq\<rparr>"

definition new_Timer :: "'c allocator \<Rightarrow> 'c \<Rightarrow> Time \<Rightarrow> double \<Rightarrow> 'c TimerQueue \<Rightarrow> (addr \<times> 'c TimerQueue) res" where
  "new_Timer alloc cb when ival q =
    (case alloc q of
       None \<Rightarrow> Inl OutOfMemory
     | Some p \<Rightarrow>
         let seq = INDEX q + 1
         in Inr (p, q\<lparr>heap := (heap q)(p \<mapsto> Timer_new cb when ival seq), INDEX := seq\<rparr>))"

definition restart :: "Time \<Rightarrow> 'c Timer \<Rightarrow> 'c Timer res" where
  "restart now t =
    (if repeat t then rbind (addTime now (interval t)) (\<lambda>e. Inr (t\<lparr>expiration := e\<rparr>))
     else Inr (t\<lparr>expiration := Time_invaild\<rparr>))"

subsection \<open>The timer descriptor\<close>

definition tq_now :: "clock \<Rightarrow> 'c TimerQueue \<Rightarrow> Time \<times> 'c TimerQueue" where
  "tq_now tod q = (Time_now (tod (calls q)), q\<lparr>calls := calls q + 1\<rparr>)"

definition howMuchTimeFromNow :: "Time \<Rightarrow> Time \<Rightarrow> (int \<times> int) res" where
  "howMuchTimeFromNow when now =
    (let microSeconds = getMicroSecondsSinceEpoch when - getMicroSecondsSinceEpoch now
     in if \<not> in_int64 microSeconds then Inl Overflow else
        let microSeconds = (if microSeconds < 100 then 100 else microSeconds)
        in Inr (microSeconds sdiv cMicroSecondsPerSecond, microSeconds smod cMicroSecondsPerSecond * 1000))"

definition readTimerFd :: "'c TimerQueue \<Rightarrow> 'c TimerQueue" where
  "readTimerFd q = q\<lparr>timerFd := None\<rparr>"

definition resetTimerFd :: "clock \<Rightarrow> Time \<Rightarrow> 'c TimerQueue \<Rightarrow> 'c TimerQueue res" where
  "resetTimerFd tod when q =
    (let (now, q) = tq_now tod q
     in rbind (howMuchTimeFromNow when now) (\<lambda>newValue. Inr (q\<lparr>timerFd := Some (now, newValue)\<rparr>)))"

subsection \<open>The queue\<close>

definition TimerQueue_new :: "'c TimerQueue" where
  "TimerQueue_new = \<lparr>heap = Map.empty, INDEX = 0, timers = {}, activeTimers = {}, canllingTimers = {},
    callingExpiredTimer = False, timerFd = None, fdReading = True, inLoop = True, pending = [], calls = 0\<rparr>"

definition tq_assertInLoopThread :: "'c TimerQueue \<Rightarrow> unit res" where
  "tq_assertInLoopThread q = (if inLoop q then Inr () else Inl Abort)"

definition sizes_agree :: "'c TimerQueue \<Rightarrow> unit res" where
  "sizes_agree q = (if card (timers q) = card (activeTimers q) then Inr () else Inl AssertFail)"

definition tq_insert :: "addr \<Rightarrow> 'c TimerQueue \<Rightarrow> (bool \<times> 'c TimerQueue) res" where
  "tq_insert timer q =
    rbind (tq_assertInLoopThread q) (\<lambda>_.
    rbind (sizes_agree q) (\<lambda>_.
    rbind (deref timer q) (\<lambda>t.
    let when = expiration t;
        earliestChange = (timers q = {} \<or> when < fst (Min (timers q)))
    in Inr (earliestChange, q\<lparr>timers := insert (when, timer) (timers q),
         activeTimers := insert (timer, sequence t) (activeTimers q)\<rparr>))))"

definition addTimerInLoop :: "clock \<Rightarrow> addr \<Rightarrow> 'c TimerQueue \<Rightarrow> 'c TimerQueue res" where
  "addTimerInLoop tod timer q =
    rbind (tq_assertInLoopThread q) (\<lambda>_.
    rbind (tq_insert timer q) (\<lambda>(earliestChange, q).
    if earliestChange then rbind (deref timer q) (\<lambda>t. resetTimerFd tod (expiration t) q)
    else Inr q))"

definition cancleInLoop :: "TimerId \<Rightarrow> 'c TimerQueue \<Rightarrow> 'c TimerQueue res" where
  "cancleInLoop timerId q =
    rbind (tq_assertInLoopThread q) (\<lambda>_.
    rbind (sizes_agree q) (\<lambda>_.
    case timerId of TimerId p seq \<Rightarrow>
    rbind
      (if (p, seq) \<in> activeTimers q
       then rbind (deref p q) (\<lambda>t.
            if (expiration t, p) \<notin> timers q then Inl AssertFail
            else rbind (delete p (q\<lparr>timers := timers q - {(expiration t, p)}\<rparr>)) (\<lambda>q.
                 Inr (q\<lparr>activeTimers := activeTimers q - {(p, seq)}\<rparr>)))
       else Inr (if callingExpiredTimer q then q\<lparr>canllingTimers := insert (p, seq) (canllingTimers q)\<rparr> else q))
      (\<lambda>q. rbind (sizes_agree q) (\<lambda>_. Inr q))))"

definition run_functor :: "clock \<Rightarrow> tq_functor \<Rightarrow> 'c TimerQueue \<Rightarrow> 'c TimerQueue res" where
  "run_functor tod f q =
    (case f of AddTimerInLoop p \<Rightarrow> addTimerInLoop tod p q | CancleInLoop tid \<Rightarrow> cancleInLoop tid q)"

definition tq_runInLoop :: "clock \<Rightarrow> tq_functor \<Rightarrow> 'c TimerQueue \<Rightarrow> 'c TimerQueue res" where
  "tq_runInLoop tod f q =
    (if inLoop q then run_functor tod f q else Inr (q\<lparr>pending := pending q @ [f]\<rparr>))"

definition addTimer ::
    "'c allocator \<Rightarrow> clock \<Rightarrow> 'c \<Rightarrow> Time \<Rightarrow> double \<Rightarrow> 'c TimerQueue \<Rightarrow> (TimerId \<times> 'c TimerQueue) res" where
  "addTimer alloc tod cb when ival q =
    rbind (new_Timer alloc cb when ival q) (\<lambda>(p, q).
    rbind (tq_runInLoop tod (AddTimerInLoop p) q) (\<lambda>q.
    rbind (deref p q) (\<lambda>t. Inr (TimerId p (sequence t), q))))"

definition cancleTimer :: "clock \<Rightarrow> TimerId \<Rightarrow> 'c TimerQueue \<Rightarrow> 'c TimerQueue res" where
  "cancleTimer tod timerId q = tq_runInLoop tod (CancleInLoop timerId) q"

subsection \<open>Expiry\<close>

definition getExpired :: "Time \<Rightarrow> 'c TimerQueue \<Rightarrow> ((Time \<times> addr) list \<times> 'c TimerQueue) res" where
  "getExpired now q =
    rbind (sizes_agree q) (\<lambda>_.
    let sentry = (now, UINTPTR_MAX);
        expired = sorted_list_of_set (Set.filter (\<lambda>e. e < sentry) (timers q));
        rest = Set.filter (\<lambda>e. \<not> e < sentry) (timers q)
    in if rest \<noteq> {} \<and> \<not> now < fst (Min rest) then Inl AssertFail
       else rbind
         (rfold (\<lambda>(_, p) q. rbind (deref p q) (\<lambda>t.
            if (p, sequence t) \<notin> activeTimers q then Inl AssertFail
            else Inr (q\<lparr>activeTimers := activeTimers q - {(p, sequence t)}\<rparr>)))
          expired (q\<lparr>timers := rest\<rparr>))
         (\<lambda>q. rbind (sizes_agree q) (\<lambda>_. Inr (expired, q))))"

definition reset_one :: "Time \<Rightarrow> Time \<times> addr \<Rightarrow> 'c TimerQueue \<Rightarrow> 'c TimerQueue res" where
  "reset_one now it q =
    (let p = snd it in
     rbind (deref p q) (\<lambda>t.
     if repeat t \<and> (p, sequence t) \<notin> canllingTimers q
     then rbind (restart now t) (\<lambda>t.
          rbind (tq_insert p (q\<lparr>heap := (heap q)(p \<mapsto> t)\<rparr>)) (\<lambda>(_, q). Inr q))
     else delete p q))"

definition tq_reset :: "clock \<Rightarrow> (Time \<times> addr) list \<Rightarrow> Time \<Rightarrow> 'c TimerQueue \<Rightarrow> 'c TimerQueue res" where
  "tq_reset tod expired now q =
    rbind (rfold (reset_one now) expired q) (\<lambda>q.
    rbind (if timers q = {} then Inr Time_default
           else rbind (deref (snd (Min (timers q))) q) (\<lambda>t. Inr (expiration t))) (\<lambda>nextExpired.
    if Time_vaild nextExpired then resetTimerFd tod nextExpired q else Inr q))"

text \<open>What a user callback does to the queue.\<close>

datatype 'c act = Add bool 'c Time double | Cancel bool TimerId

fun do_act :: "'c allocator \<Rightarrow> clock \<Rightarrow> 'c act \<Rightarrow> 'c TimerQueue \<Rightarrow> 'c TimerQueue res" where
  "do_act alloc tod (Add l cb when ival) q =
    rbind (addTimer alloc tod cb when ival (q\<lparr>inLoop := l\<rparr>)) (\<lambda>(_, q). Inr (q\<lparr>inLoop := True\<rparr>))"
| "do_act alloc tod (Cancel l tid) q =
    rbind (cancleTimer tod tid (q\<lparr>inLoop := l\<rparr>)) (\<lambda>q. Inr (q\<lparr>inLoop := True\<rparr>))"

definition Timer_run ::
    "('c \<Rightarrow> 'c TimerQueue \<Rightarrow> 'c act list) \<Rightarrow> 'c allocator \<Rightarrow> clock \<Rightarrow> Time \<times> addr \<Rightarrow> 'c TimerQueue \<Rightarrow> 'c TimerQueue res" where
  "Timer_run body alloc tod it q =
    rbind (deref (snd it) q) (\<lambda>t. rfold (do_act alloc tod) (body (callback t) q) q)"

definition tq_handleRead ::
    "('c \<Rightarrow> 'c TimerQueue \<Rightarrow> 'c act list) \<Rightarrow> 'c allocator \<Rightarrow> clock \<Rightarrow> 'c TimerQueue \<Rightarrow> 'c TimerQueue res" where
  "tq_handleRead body alloc tod q =
    rbind (tq_assertInLoopThread q) (\<lambda>_.
    let (now, q) = tq_now tod q; q = readTimerFd q in
    rbind (getExpired now q) (\<lambda>(expired, q).
    rbind (rfold (Timer_run body alloc tod) expired
            (q\<lparr>callingExpiredTimer := True, canllingTimers := {}\<rparr>)) (\<lambda>q.
    tq_reset tod expired now (q\<lparr>callingExpiredTimer := False\<rparr>))))"

definition TimerQueue_delete :: "'c TimerQueue \<Rightarrow> 'c TimerQueue res" where
  "TimerQueue_delete q =
    rfold (\<lambda>(_, p) q. delete p q) (sorted_list_of_set (timers q)) (q\<lparr>fdReading := False\<rparr>)"

text \<open>The loop runs the pending functors of the queue, or its descriptor becomes readable, or a
  thread calls it.\<close>

definition run_pending :: "clock \<Rightarrow> 'c TimerQueue \<Rightarrow> 'c TimerQueue res" where
  "run_pending tod q = rfold (run_functor tod) (pending q) (q\<lparr>pending := []\<rparr>)"

datatype 'c event = Call "'c act" | Readable | Pending

fun tq_step ::
    "('c \<Rightarrow> 'c TimerQueue \<Rightarrow> 'c act list) \<Rightarrow> 'c allocator \<Rightarrow> clock \<Rightarrow> 'c event \<Rightarrow> 'c TimerQueue \<Rightarrow> 'c TimerQueue res" where
  "tq_step body alloc tod (Call a) q = do_act alloc tod a q"
| "tq_step body alloc tod Readable q = tq_handleRead body alloc tod q"
| "tq_step body alloc tod Pending q = run_pending tod q"

section \<open>Specification\<close>

definition time_ok :: "Time \<Rightarrow> bool" where
  "time_ok t \<longleftrightarrow> \<bar>getMicroSecondsSinceEpoch t\<bar> \<le> 2 ^ 62"

definition interval_ok :: "double \<Rightarrow> bool" where
  "interval_ok i \<longleftrightarrow> (\<exists>us. int64_of_double (d_mul i (d_of_int cMicroSecondsPerSecond)) = Inr us \<and> us \<le> 2 ^ 61)"

definition alloc_contract :: "'c allocator \<Rightarrow> bool" where
  "alloc_contract alloc \<longleftrightarrow> (\<forall>q p. alloc q = Some p \<longrightarrow> heap q p = None \<and> 0 < p \<and> p < UINTPTR_MAX)"

definition clock_contract :: "clock \<Rightarrow> bool" where
  "clock_contract tod \<longleftrightarrow>
    (\<forall>n. case tod n of (s, us) \<Rightarrow> 0 < s \<and> s < 2 ^ 40 \<and> 0 \<le> us \<and> us < 1000000)"

fun act_ok :: "'c act \<Rightarrow> bool" where
  "act_ok (Add l cb when ival) \<longleftrightarrow> time_ok when \<and> interval_ok ival"
| "act_ok (Cancel l tid) \<longleftrightarrow> True"

definition body_ok :: "('c \<Rightarrow> 'c TimerQueue \<Rightarrow> 'c act list) \<Rightarrow> bool" where
  "body_ok body \<longleftrightarrow> (\<forall>c q. list_all act_ok (body c q))"

fun event_ok :: "'c event \<Rightarrow> bool" where
  "event_ok (Call a) = act_ok a"
| "event_ok _ = True"

definition added :: "tq_functor list \<Rightarrow> addr list" where
  "added fs = concat (map (\<lambda>f. case f of AddTimerInLoop p \<Rightarrow> [p] | _ \<Rightarrow> []) fs)"

text \<open>The invariant. \<open>A\<close> are the addresses of the timers in the queue; \<open>X\<close> lists the addresses of the
  timers that somebody else will put in or delete: those that have expired and those of functors
  that are about to run. Pending functors own their timers too.\<close>

definition entry :: "(addr \<rightharpoonup> 'c Timer) \<Rightarrow> addr \<Rightarrow> Time \<times> addr" where
  "entry h p = (expiration (the (h p)), p)"

definition ident :: "(addr \<rightharpoonup> 'c Timer) \<Rightarrow> addr \<Rightarrow> addr \<times> int" where
  "ident h p = (p, sequence (the (h p)))"

definition timer_ok :: "addr \<Rightarrow> 'c Timer \<Rightarrow> bool" where
  "timer_ok p T \<longleftrightarrow> 0 < p \<and> p < UINTPTR_MAX \<and> time_ok (expiration T) \<and> interval_ok (interval T) \<and>
    repeat T = (0 < mant (interval T))"

definition seqs_ok :: "(addr \<rightharpoonup> 'c Timer) \<Rightarrow> int \<Rightarrow> bool" where
  "seqs_ok h n \<longleftrightarrow> 0 \<le> n \<and> (\<forall>p T. h p = Some T \<longrightarrow> 0 < sequence T \<and> sequence T \<le> n) \<and>
    (\<forall>p p' T T'. h p = Some T \<longrightarrow> h p' = Some T' \<longrightarrow> sequence T = sequence T' \<longrightarrow> p = p')"

definition tq_inv :: "addr list \<Rightarrow> addr set \<Rightarrow> 'c TimerQueue \<Rightarrow> bool" where
  "tq_inv X A q \<longleftrightarrow> inLoop q \<and> finite A \<and>
    timers q = entry (heap q) ` A \<and> activeTimers q = ident (heap q) ` A \<and>
    dom (heap q) = A \<union> set (X @ added (pending q)) \<and> A \<inter> set (X @ added (pending q)) = {} \<and>
    distinct (X @ added (pending q)) \<and>
    (\<forall>p T. heap q p = Some T \<longrightarrow> timer_ok p T) \<and> seqs_ok (heap q) (INDEX q)"

text \<open>The descriptor was set to fire no later than the time \<open>t\<close>, or 100 microseconds after it was set
  when \<open>t\<close> was nearer than that.\<close>

definition fires_at :: "Time \<times> (int \<times> int) \<Rightarrow> int" where
  "fires_at = (\<lambda>(now, sec, nsec). getMicroSecondsSinceEpoch now + sec * 1000000 + nsec div 1000)"

definition armed_for :: "'c TimerQueue \<Rightarrow> Time \<Rightarrow> bool" where
  "armed_for q t \<longleftrightarrow> (case timerFd q of None \<Rightarrow> False
     | Some arm \<Rightarrow> fires_at arm \<le> max (getMicroSecondsSinceEpoch t) (getMicroSecondsSinceEpoch (fst arm) + 100))"

text \<open>While expired timers are being run only entries with an invalid time need to be covered: the
  others are when \<open>reset\<close> ends.\<close>

definition armed :: "bool \<Rightarrow> 'c TimerQueue \<Rightarrow> bool" where
  "armed calling q \<longleftrightarrow> (\<forall>(t, p) \<in> timers q. (calling \<longrightarrow> \<not> Time_vaild t) \<longrightarrow> armed_for q t)"

section \<open>Lemmas\<close>

lemma inj_entry: "inj_on (entry h) A" and inj_ident: "inj_on (ident h) A"
  by (auto simp: inj_on_def entry_def ident_def)

lemma tq_invD:
  assumes "tq_inv X A q"
  shows "inLoop q" "finite A" "timers q = entry (heap q) ` A" "activeTimers q = ident (heap q) ` A"
    "dom (heap q) = A \<union> set (X @ added (pending q))" "A \<inter> set (X @ added (pending q)) = {}"
    "distinct (X @ added (pending q))" "\<And>p T. heap q p = Some T \<Longrightarrow> timer_ok p T" "seqs_ok (heap q) (INDEX q)"
  using assms unfolding tq_inv_def by blast+

lemma sizes_agree_ok: "tq_inv X A q \<Longrightarrow> sizes_agree q = Inr ()"
  by (simp add: tq_inv_def sizes_agree_def card_image inj_entry inj_ident)

lemma inLoop_ok: "tq_inv X A q \<Longrightarrow> tq_assertInLoopThread q = Inr ()"
  by (simp add: tq_inv_def tq_assertInLoopThread_def)

lemma tq_inv_deref:
  assumes "tq_inv X A q" and "p \<in> A \<union> set (X @ added (pending q))"
  shows "\<exists>T. heap q p = Some T \<and> deref p q = Inr T"
proof -
  have "p \<in> dom (heap q)" using assms by (simp add: tq_inv_def)
  then show ?thesis by (auto simp: deref_def)
qed

text \<open>The invariant does not depend on the timer descriptor, the clock and the cancellations.\<close>

lemma tq_inv_frame [simp]:
  "tq_inv X A (q\<lparr>timerFd := fd\<rparr>) = tq_inv X A q" "tq_inv X A (q\<lparr>calls := n\<rparr>) = tq_inv X A q"
  "tq_inv X A (q\<lparr>callingExpiredTimer := b\<rparr>) = tq_inv X A q" "tq_inv X A (q\<lparr>canllingTimers := C\<rparr>) = tq_inv X A q"
  by (simp_all add: tq_inv_def)

lemma armed_frame [simp]:
  "armed b (q\<lparr>calls := n\<rparr>) = armed b q" "armed b (q\<lparr>callingExpiredTimer := c\<rparr>) = armed b q"
  "armed b (q\<lparr>canllingTimers := C\<rparr>) = armed b q" "armed b (q\<lparr>inLoop := l\<rparr>) = armed b q"
  "armed b (q\<lparr>pending := F\<rparr>) = armed b q" "armed b (q\<lparr>heap := h\<rparr>) = armed b q" "armed b (q\<lparr>INDEX := i\<rparr>) = armed b q"
  by (simp_all add: armed_def armed_for_def)

lemma armed_for_mono: "armed_for q t \<Longrightarrow> t \<le> t' \<Longrightarrow> armed_for q t'"
  by (auto simp: armed_for_def less_eq_Time_def split: option.splits)

lemma fst_Min_le: "finite S \<Longrightarrow> e \<in> S \<Longrightarrow> fst (Min S) \<le> fst (e :: Time \<times> addr)"
  using Min_le [of S e] by (auto simp: less_eq_prod_def less_imp_le)

lemma earliest_iff:
  assumes "finite S"
  shows "S = {} \<or> when < fst (Min S) \<longleftrightarrow> (\<forall>e\<in>S. when < fst (e :: Time \<times> addr))"
proof (cases "S = {}")
  case False
  then have "Min S \<in> S" using assms by simp
  moreover have "when < fst e" if "when < fst (Min S)" "e \<in> S" for e
    using that(1) fst_Min_le [OF assms that(2)] by (rule less_le_trans)
  ultimately show ?thesis using False by blast
qed simp

lemma clock_now: 
  "clock_contract tod \<Longrightarrow> \<exists>us. 0 < us \<and> us \<le> 2 ^ 60 + 10 ^ 6 \<and> tq_now tod q = (Time us, q\<lparr>calls := calls q + 1\<rparr>)"
  unfolding clock_contract_def tq_now_def Time_now_def Time_pair_def cMicroSecondsPerSecond_def
  by (drule spec [of _ "calls q"]) (auto simp: Let_def split: prod.splits)

text \<open>\<open>howMuchTimeFromNow\<close> gives a normalised timespec of at least 100 microseconds.\<close>

lemma howMuch_ok:
  assumes "time_ok when" and "0 < us" and "us \<le> 2 ^ 61"
  shows "ok (\<lambda>(sec, nsec). 0 \<le> sec \<and> 0 \<le> nsec \<and> nsec < 1000000000 \<and> nsec mod 1000 = 0 \<and>
    sec * 1000000 + nsec div 1000 = max 100 (getMicroSecondsSinceEpoch when - us))
    (howMuchTimeFromNow when (Time us))"
proof -
  define d where "d = getMicroSecondsSinceEpoch when - us"
  have "in_int64 d" using assms by (auto simp: d_def time_ok_def in_int64_def abs_le_iff)
  moreover define m where "m = (if d < 100 then 100 else d)"
  then have "0 \<le> m" "m = max 100 d" by auto
  then have "0 \<le> m div 1000000" "m mod 1000000 * 1000 < 1000000000"
    "m div 1000000 * 1000000 + m mod 1000000 * 1000 div 1000 = max 100 d"
    by (simp_all add: pos_imp_zdiv_nonneg_iff)
  ultimately show ?thesis
    using \<open>0 \<le> m\<close> by (simp add: howMuchTimeFromNow_def Let_def d_def [symmetric] m_def [symmetric]
        cMicroSecondsPerSecond_def sdiv_nonneg smod_nonneg)
qed


lemma resetTimerFd_ok:
  assumes "clock_contract tod" and "time_ok when"
  shows "ok (\<lambda>q'. armed_for q' when \<and> (\<exists>n arm. q' = q\<lparr>calls := n, timerFd := Some arm\<rparr>)) (resetTimerFd tod when q)"
proof -
  from clock_now [OF assms(1), of q] obtain us where us: "0 < us" "us \<le> 2 ^ 60 + 10 ^ 6"
    "tq_now tod q = (Time us, q\<lparr>calls := calls q + 1\<rparr>)" by blast
  have "us \<le> 2 ^ 61" using us(2) by simp
  from howMuch_ok [OF assms(2) us(1) this] obtain sec nsec where
    ts: "howMuchTimeFromNow when (Time us) = Inr (sec, nsec)"
      "sec * 1000000 + nsec div 1000 = max 100 (getMicroSecondsSinceEpoch when - us)"
    by (auto simp: ok_iff)
  let ?arm = "(Time us, sec, nsec)"
  have "resetTimerFd tod when q = Inr (q\<lparr>calls := calls q + 1, timerFd := Some ?arm\<rparr>)"
    using us(3) ts(1) by (simp add: resetTimerFd_def)
  moreover have "armed_for (q\<lparr>calls := calls q + 1, timerFd := Some ?arm\<rparr>) when"
    using ts(2) by (simp add: armed_for_def fires_at_def)
  ultimately show ?thesis unfolding ok_iff by blast
qed

text \<open>Putting a timer that somebody owned into the queue.\<close>

lemma tq_insert_ok:
  assumes "tq_inv (p # X) A q"
  obtains T q' where "heap q p = Some T" and "timer_ok p T"
    and "q' = q\<lparr>timers := insert (expiration T, p) (timers q), activeTimers := insert (p, sequence T) (activeTimers q)\<rparr>"
    and "tq_insert p q = Inr ((\<forall>e\<in>timers q. expiration T < fst e), q')"
    and "tq_inv X (insert p A) q'"
proof -
  obtain T where T: "heap q p = Some T" "deref p q = Inr T" using tq_inv_deref [OF assms, of p] by auto
  have "finite (timers q)" using assms by (simp add: tq_inv_def)
  note e = earliest_iff [OF this, of "expiration T"]
  let ?q = "q\<lparr>timers := insert (expiration T, p) (timers q), activeTimers := insert (p, sequence T) (activeTimers q)\<rparr>"
  have "tq_insert p q = Inr ((\<forall>e\<in>timers q. expiration T < fst e), ?q)"
    unfolding tq_insert_def sizes_agree_ok [OF assms] inLoop_ok [OF assms] T(2) rbind_Inr Let_def e
    by (rule refl)
  moreover have "tq_inv X (insert p A) ?q"
  proof -
    have "entry (heap q) p = (expiration T, p)" "ident (heap q) p = (p, sequence T)"
      using T(1) by (simp_all add: entry_def ident_def)
    moreover note i = tq_invD [OF assms]
    moreover have "p \<notin> set (X @ added (pending q))" using i(7) by simp
    moreover have "dom (heap q) = insert p A \<union> set (X @ added (pending q))" using i(5) by simp
    ultimately show ?thesis unfolding tq_inv_def by (intro conjI) (simp; fail)+
  qed
  moreover have "timer_ok p T" using assms T(1) by (simp add: tq_inv_def)
  ultimately show ?thesis using that T(1) by blast
qed

lemma armed_insert:
  assumes "armed b q" and "armed_for q' t \<or> (\<exists>e\<in>timers q. fst e \<le> t)"
    and "timers q' = insert (t, p) (timers q)"
    and "timerFd q' = timerFd q \<or> armed_for q' t \<and> (\<forall>e\<in>timers q. t \<le> fst e)"
  shows "armed b q'"
  unfolding armed_def
proof (intro ballI, clarify)
  fix t' p'
  assume t': "(t', p') \<in> timers q'" and c: "b \<longrightarrow> \<not> Time_vaild t'"
  have down: "armed_for q u" if "(u, r) \<in> timers q" "u \<le> v" "b \<longrightarrow> \<not> Time_vaild v" for u r v
    using assms(1) that by (fastforce simp: armed_def Time_vaild_def less_eq_Time_def)
  from assms(4) show "armed_for q' t'"
  proof
    assume fd: "timerFd q' = timerFd q"
    then have eq: "armed_for q' = armed_for q" by (simp add: armed_for_def fun_eq_iff)
    show ?thesis
    proof (cases "(t', p') \<in> timers q")
      case True
      then show ?thesis using down c eq by force
    next
      case False
      then have "t' = t" using t' assms(3) by simp
      then show ?thesis using assms(2) down c eq armed_for_mono by (metis prod.collapse)
    qed
  next
    assume "armed_for q' t \<and> (\<forall>e\<in>timers q. t \<le> fst e)"
    then show ?thesis using t' assms(3) armed_for_mono by fastforce
  qed
qed

lemma addTimerInLoop_ok:
  assumes "tq_inv (p # X) A q" and "clock_contract tod"
  shows "ok (\<lambda>q'. tq_inv X (insert p A) q' \<and> heap q' = heap q \<and> (\<forall>b. armed b q \<longrightarrow> armed b q')) (addTimerInLoop tod p q)"
proof -
  obtain T q' where T: "heap q p = Some T" "timer_ok p T"
    "q' = q\<lparr>timers := insert (expiration T, p) (timers q), activeTimers := insert (p, sequence T) (activeTimers q)\<rparr>"
    "tq_insert p q = Inr ((\<forall>e\<in>timers q. expiration T < fst e), q')" "tq_inv X (insert p A) q'"
    by (rule tq_insert_ok [OF assms(1)])
  show ?thesis
  proof (cases "\<forall>e\<in>timers q. expiration T < fst e")
    case True
    have r: "ok (\<lambda>q''. armed_for q'' (expiration T) \<and> (\<exists>n arm. q'' = q'\<lparr>calls := n, timerFd := Some arm\<rparr>))
        (resetTimerFd tod (expiration T) q')"
      by (rule resetTimerFd_ok [OF assms(2)]) (use T(2) in \<open>simp add: timer_ok_def\<close>)
    have ins: "tq_insert p q = Inr (True, q')" unfolding T(4) using True by simp
    have eq: "addTimerInLoop tod p q = resetTimerFd tod (expiration T) q'"
      unfolding addTimerInLoop_def ins inLoop_ok [OF assms(1)] using T(1,3) by (simp add: deref_def)
    show ?thesis unfolding eq
    proof (rule ok_mono [OF r], elim conjE exE, intro conjI allI impI)
      fix q'' n arm b
      assume q'': "armed_for q'' (expiration T)" "q'' = q'\<lparr>calls := n, timerFd := Some arm\<rparr>"
      then show "tq_inv X (insert p A) q''" "heap q'' = heap q" using T(3,5) by simp_all
      assume "armed b q"
      then show "armed b q''"
        by (rule armed_insert [of _ _ _ "expiration T" p]) (use q'' T(3) True in \<open>auto intro: less_imp_le\<close>)
    qed
  next
    case False
    have ins: "tq_insert p q = Inr (False, q')" unfolding T(4) using False by simp
    have eq: "addTimerInLoop tod p q = Inr q'" unfolding addTimerInLoop_def ins inLoop_ok [OF assms(1)] by simp
    have "armed b q'" if "armed b q" for b
      by (rule armed_insert [OF that, of _ "expiration T" p]) (use T(3) False in \<open>auto simp: not_less\<close>)
    then show ?thesis using T(3,5) by (simp add: eq)
  qed
qed


lemma armed_subset: "armed b q \<Longrightarrow> timers q' \<subseteq> timers q \<Longrightarrow> timerFd q' = timerFd q \<Longrightarrow> armed b q'"
  by (auto simp: armed_def armed_for_def)

lemma entry_upd: "p \<notin> A \<Longrightarrow> entry (h(p := x)) ` A = entry h ` A" "p \<notin> A \<Longrightarrow> ident (h(p := x)) ` A = ident h ` A"
  by (auto simp: entry_def ident_def image_def)

lemma seqs_ok_delete: "seqs_ok h n \<Longrightarrow> seqs_ok (h(p := None)) n"
  unfolding seqs_ok_def by (auto split: if_splits)

text \<open>Deleting a timer from the heap.\<close>

lemma tq_inv_delete_owned:
  assumes "tq_inv (p # X) A q"
  shows "tq_inv X A (q\<lparr>heap := (heap q)(p := None)\<rparr>)"
proof -
  note i = tq_invD [OF assms]
  have p: "p \<notin> A" "p \<notin> set (X @ added (pending q))" using i(6,7) by auto
  then have "dom ((heap q)(p := None)) = A \<union> set (X @ added (pending q))" using i(5) by auto
  moreover have "A \<inter> set (X @ added (pending q)) = {}" using i(6) by auto
  ultimately show ?thesis
    using i p seqs_ok_delete [OF i(9)] unfolding tq_inv_def by (intro conjI) (auto simp: entry_upd split: if_splits)
qed

lemma tq_inv_cancel:
  assumes "tq_inv X A q" and "p \<in> A" and "heap q p = Some T"
  shows "tq_inv X (A - {p}) (q\<lparr>timers := timers q - {(expiration T, p)}, heap := (heap q)(p := None),
    activeTimers := activeTimers q - {(p, sequence T)}\<rparr>)"
proof -
  note i = tq_invD [OF assms(1)]
  have e: "entry (heap q) p = (expiration T, p)" "ident (heap q) p = (p, sequence T)"
    using assms(3) by (simp_all add: entry_def ident_def)
  have "timers q - {(expiration T, p)} = entry ((heap q)(p := None)) ` (A - {p})"
    "activeTimers q - {(p, sequence T)} = ident ((heap q)(p := None)) ` (A - {p})"
    unfolding i(3,4) e [symmetric] using image_set_diff [OF inj_entry [of "heap q" UNIV], of A "{p}"]
      image_set_diff [OF inj_ident [of "heap q" UNIV], of A "{p}"] entry_upd [of p "A - {p}" "heap q" None] by simp_all
  moreover have "dom ((heap q)(p := None)) = (A - {p}) \<union> set (X @ added (pending q))"
    using i(5,6) assms(2) by auto
  moreover have "(A - {p}) \<inter> set (X @ added (pending q)) = {}" using i(6) by auto
  ultimately show ?thesis
    using i seqs_ok_delete [OF i(9)] unfolding tq_inv_def by (intro conjI) (auto split: if_splits)
qed

lemma active_iff:
  assumes "tq_inv X A q"
  shows "(p, seq) \<in> activeTimers q \<longleftrightarrow> p \<in> A \<and> (\<exists>T. heap q p = Some T \<and> sequence T = seq)"
proof -
  have "\<exists>T. heap q r = Some T" if "r \<in> A" for r using tq_inv_deref [OF assms, of r] that by auto
  then show ?thesis unfolding tq_invD(4) [OF assms] by (fastforce simp: ident_def)
qed

text \<open>Cancelling: an active timer is removed and deleted, for any other id at most the set of
  cancellations grows.\<close>

lemma cancleInLoop_cases:
  assumes "tq_inv X A q"
  shows "cancleInLoop (TimerId p seq) q = Inr
    (if (p, seq) \<in> activeTimers q
     then q\<lparr>timers := timers q - {entry (heap q) p}, heap := (heap q)(p := None),
            activeTimers := activeTimers q - {(p, seq)}\<rparr>
     else if callingExpiredTimer q then q\<lparr>canllingTimers := insert (p, seq) (canllingTimers q)\<rparr> else q)"
proof (cases "(p, seq) \<in> activeTimers q")
  case True
  then obtain T where T: "p \<in> A" "heap q p = Some T" "sequence T = seq"
    using active_iff [OF assms] by blast
  note c = tq_inv_cancel [OF assms T(1,2), unfolded T(3)]
  have e: "entry (heap q) p = (expiration T, p)" using T(2) by (simp add: entry_def)
  have "(expiration T, p) \<in> timers q" unfolding tq_invD(3) [OF assms] e [symmetric] using T(1) by (rule imageI)
  then show ?thesis
    using True T(2) sizes_agree_ok [OF c]
    unfolding cancleInLoop_def sizes_agree_ok [OF assms] inLoop_ok [OF assms] e rbind_Inr
    by (simp add: deref_def delete_def del: fun_upd_apply)
next
  case False
  have "card (timers q) = card (activeTimers q)"
    using sizes_agree_ok [OF assms] by (simp add: sizes_agree_def split: if_splits)
  with False show ?thesis unfolding cancleInLoop_def inLoop_ok [OF assms] by (simp add: sizes_agree_def)
qed

lemma cancleInLoop_ok:
  assumes "tq_inv X A q"
  shows "ok (\<lambda>q'. (\<exists>A'. tq_inv X A' q') \<and> (\<forall>b. armed b q \<longrightarrow> armed b q')) (cancleInLoop tid q)"
proof -
  obtain p seq where tid: "tid = TimerId p seq" by (cases tid)
  show ?thesis
  proof (cases "(p, seq) \<in> activeTimers q")
    case True
    then obtain T where T: "p \<in> A" "heap q p = Some T" "sequence T = seq"
      using active_iff [OF assms] by blast
    have e: "entry (heap q) p = (expiration T, p)" using T(2) by (simp add: entry_def)
    show ?thesis
      unfolding tid cancleInLoop_cases [OF assms] using tq_inv_cancel [OF assms T(1,2)] T(3) True e
      by (auto intro: armed_subset)
  next
    case False
    then show ?thesis unfolding tid cancleInLoop_cases [OF assms] using assms by auto
  qed
qed


text \<open>The invariant with the queue's own set of addresses hidden, and the descriptor armed.\<close>

definition tq_good :: "bool \<Rightarrow> addr list \<Rightarrow> 'c TimerQueue \<Rightarrow> bool" where
  "tq_good b X q \<longleftrightarrow> (\<exists>A. tq_inv X A q) \<and> armed b q"

lemma added_simps [simp]:
  "added [] = []" "added (AddTimerInLoop p # F) = p # added F" "added (CancleInLoop t # F) = added F"
  "added (F @ G) = added F @ added G"
  by (simp_all add: added_def)

lemma seqs_ok_new: "seqs_ok h n \<Longrightarrow> h p = None \<Longrightarrow> sequence T = n + 1 \<Longrightarrow> seqs_ok (h(p \<mapsto> T)) (n + 1)"
  unfolding seqs_ok_def by (auto split: if_splits) fastforce+

lemma tq_inv_new:
  assumes "tq_inv X A q" and "heap q p = None" and "timer_ok p T" and "sequence T = INDEX q + 1"
  shows "tq_inv (p # X) A (q\<lparr>heap := (heap q)(p \<mapsto> T), INDEX := INDEX q + 1\<rparr>)"
proof -
  note i = tq_invD [OF assms(1)]
  have p: "p \<notin> A" "p \<notin> set (X @ added (pending q))" using i(5) assms(2) by auto
  then have "dom ((heap q)(p \<mapsto> T)) = A \<union> set (p # X @ added (pending q))"
    "A \<inter> set (p # X @ added (pending q)) = {}" "distinct (p # X @ added (pending q))"
    using i(5-7) by auto
  then show ?thesis
    using i p assms(3) seqs_ok_new [OF i(9) assms(2,4)] unfolding tq_inv_def
    by (intro conjI) (auto simp: entry_upd split: if_splits)
qed

lemma tq_inv_queue: "tq_inv (added [f] @ X) A q \<Longrightarrow> tq_inv X A (q\<lparr>pending := pending q @ [f]\<rparr>)"
  unfolding tq_inv_def by (cases f) auto

lemma run_functor_ok:
  assumes "tq_inv (added [f] @ X) A q" and "clock_contract tod"
  shows "ok (\<lambda>q'. (\<exists>A'. tq_inv X A' q') \<and> (\<forall>b. armed b q \<longrightarrow> armed b q') \<and>
    (\<forall>p. f = AddTimerInLoop p \<longrightarrow> heap q' = heap q)) (run_functor tod f q)"
proof (cases f)
  case (AddTimerInLoop p)
  then show ?thesis
    using addTimerInLoop_ok [OF _ assms(2), of p X A q] assms(1) by (auto simp: run_functor_def elim!: ok_mono)
next
  case (CancleInLoop tid)
  then show ?thesis
    using cancleInLoop_ok [of X A q tid] assms(1) by (auto simp: run_functor_def elim!: ok_mono)
qed

text \<open>A call by the loop thread or by another one.\<close>

lemma tq_runInLoop_ok:
  assumes "tq_inv (added [f] @ X) A q" and "clock_contract tod"
  shows "ok (\<lambda>q'. (\<exists>A'. tq_inv X A' (q'\<lparr>inLoop := True\<rparr>)) \<and> (\<forall>b. armed b q \<longrightarrow> armed b q') \<and>
    (\<forall>p. f = AddTimerInLoop p \<longrightarrow> heap q' = heap q)) (tq_runInLoop tod f (q\<lparr>inLoop := l\<rparr>))"
proof (cases l)
  case True
  have q: "q\<lparr>inLoop := True\<rparr> = q" and "inLoop q" using tq_invD(1) [OF assms(1)] by simp_all
  then have eq: "tq_runInLoop tod f (q\<lparr>inLoop := l\<rparr>) = run_functor tod f q"
    using True by (simp add: tq_runInLoop_def q)
  have restore: "tq_inv X A' (q'\<lparr>inLoop := True\<rparr>)" if "tq_inv X A' q'" for q' :: "'a TimerQueue" and A'
    using that by (simp add: tq_inv_def)
  show ?thesis unfolding eq by (rule ok_mono [OF run_functor_ok [OF assms]]) (use restore in blast)
next
  case False
  have "q\<lparr>inLoop := False, pending := pending q @ [f], inLoop := True\<rparr> = q\<lparr>pending := pending q @ [f]\<rparr>"
    using tq_invD(1) [OF assms(1)] by simp
  then show ?thesis
    using False tq_inv_queue [OF assms(1)] by (auto simp: tq_runInLoop_def)
qed

lemma do_act_ok:
  assumes "tq_good b X q" and "act_ok a" and "alloc_contract alloc" and "clock_contract tod"
  shows "safe (tq_good b X) (do_act alloc tod a q)"
proof -
  obtain A where A: "tq_inv X A q" "armed b q" using assms(1) by (auto simp: tq_good_def)
  show ?thesis
  proof (cases a)
    case (Cancel l tid)
    then show ?thesis
      using tq_runInLoop_ok [of "CancleInLoop tid" X A q tod l] A assms(4)
      by (auto simp: cancleTimer_def safe_def tq_good_def ok_iff)
  next
    case (Add l cb w ival)
    show ?thesis
    proof (cases "alloc (q\<lparr>inLoop := l\<rparr>)")
      case None
      then show ?thesis using Add by (simp add: addTimer_def new_Timer_def safe_def)
    next
      case (Some p)
      let ?T = "Timer_new cb w ival (INDEX q + 1)"
      let ?q = "q\<lparr>heap := (heap q)(p \<mapsto> ?T), INDEX := INDEX q + 1\<rparr>"
      have p: "heap q p = None" "0 < p" "p < UINTPTR_MAX"
        using assms(3) Some unfolding alloc_contract_def by fastforce+
      have "timer_ok p ?T" using p assms(2) Add by (simp add: timer_ok_def Timer_new_def)
      then have "tq_inv (added [AddTimerInLoop p] @ X) A ?q"
        using tq_inv_new [OF A(1) p(1)] by (simp add: Timer_new_def)
      note r = tq_runInLoop_ok [OF this assms(4), of l]
      have swap: "q\<lparr>inLoop := l, heap := (heap q)(p \<mapsto> ?T), INDEX := INDEX q + 1\<rparr> = ?q\<lparr>inLoop := l\<rparr>" by simp
      from r A(2) Some Add show ?thesis
        by (auto simp: swap addTimer_def new_Timer_def Let_def safe_def tq_good_def ok_iff deref_def)
    qed
  qed
qed


subsection \<open>Expiry\<close>

lemma before_sentry:
  "p < UINTPTR_MAX \<Longrightarrow> (t, p) < (now, UINTPTR_MAX) \<longleftrightarrow> t \<le> (now :: Time)"
  by (auto simp: less_prod_def)

text \<open>Taking the identities of a set of timers out of \<open>_activeTimers\<close> one by one.\<close>

lemma erase_active:
  assumes "distinct (map snd es)" and "\<And>p. p \<in> snd ` set es \<Longrightarrow> heap q p \<noteq> None \<and> ident (heap q) p \<in> activeTimers q"
  shows "rfold (\<lambda>(_, p) q. rbind (deref p q) (\<lambda>t.
      if (p, sequence t) \<notin> activeTimers q then Inl AssertFail
      else Inr (q\<lparr>activeTimers := activeTimers q - {(p, sequence t)}\<rparr>))) es q
    = Inr (q\<lparr>activeTimers := activeTimers q - ident (heap q) ` snd ` set es\<rparr>)"
  using assms
proof (induction es arbitrary: q)
  case Nil
  then show ?case by simp
next
  case (Cons e es)
  obtain t p where e: "e = (t, p)" by (cases e)
  obtain T where T: "heap q p = Some T" "(p, sequence T) \<in> activeTimers q"
    using Cons.prems(2) [of p] e by (auto simp: ident_def)
  let ?q = "q\<lparr>activeTimers := activeTimers q - {(p, sequence T)}\<rparr>"
  have p: "p \<notin> snd ` set es" using Cons.prems(1) e by simp
  have "heap ?q r \<noteq> None \<and> ident (heap ?q) r \<in> activeTimers ?q" if "r \<in> snd ` set es" for r
    using Cons.prems(2) [of r] that p by (auto simp: ident_def)
  moreover have "ident (heap q) p = (p, sequence T)" using T by (simp add: ident_def)
  moreover have "distinct (map snd es)" using Cons.prems(1) by simp
  moreover have "M - {x} - S = M - insert x S" for M S and x :: "addr \<times> int" by blast
  ultimately show ?case
    using Cons.IH [of ?q] e T by (simp add: deref_def)
qed

lemma getExpired_ok:
  fixes now :: Time
  assumes "tq_inv X A q"
  defines "ex \<equiv> {p \<in> A. expiration (the (heap q p)) \<le> now}"
  defines "es \<equiv> sorted_list_of_set (entry (heap q) ` ex)"
  shows "getExpired now q = Inr (es, q\<lparr>timers := entry (heap q) ` (A - ex), activeTimers := ident (heap q) ` (A - ex)\<rparr>)"
    and "tq_inv (map snd es @ X) (A - ex) (q\<lparr>timers := entry (heap q) ` (A - ex), activeTimers := ident (heap q) ` (A - ex)\<rparr>)"
    and "set (map snd es) = ex"
proof -
  note i = tq_invD [OF assms(1)]
  have A: "\<exists>T. heap q p = Some T \<and> p < UINTPTR_MAX" if "p \<in> A" for p
    using tq_inv_deref [OF assms(1), of p] that i(8) by (auto simp: timer_ok_def)
  have fin: "finite ex" using i(2) by (simp add: ex_def)
  have lt: "entry (heap q) p < (now, UINTPTR_MAX) \<longleftrightarrow> p \<in> ex" if "p \<in> A" for p
    using A [OF that] that by (auto simp: entry_def before_sentry ex_def)
  have split: "Set.filter (\<lambda>e. e < (now, UINTPTR_MAX)) (timers q) = entry (heap q) ` ex"
    "Set.filter (\<lambda>e. \<not> e < (now, UINTPTR_MAX)) (timers q) = entry (heap q) ` (A - ex)"
    unfolding i(3) using lt by (auto simp: ex_def)
  have es: "set es = entry (heap q) ` ex" "distinct es" using fin by (simp_all add: es_def)
  then show snd_es: "set (map snd es) = ex" by (simp add: image_image entry_def)
  have dist: "distinct (map snd es)"
    using es by (simp add: distinct_map inj_on_def entry_def)
  let ?q = "q\<lparr>timers := entry (heap q) ` (A - ex)\<rparr>"
  let ?q' = "q\<lparr>timers := entry (heap q) ` (A - ex), activeTimers := ident (heap q) ` (A - ex)\<rparr>"
  have act: "activeTimers q - ident (heap q) ` ex = ident (heap q) ` (A - ex)"
    unfolding i(4) using image_set_diff [OF inj_ident [of "heap q" UNIV], of A ex] by simp
  have "rfold (\<lambda>(_, p) q. rbind (deref p q) (\<lambda>t.
      if (p, sequence t) \<notin> activeTimers q then Inl AssertFail
      else Inr (q\<lparr>activeTimers := activeTimers q - {(p, sequence t)}\<rparr>))) es ?q
    = Inr (?q\<lparr>activeTimers := activeTimers ?q - ident (heap ?q) ` snd ` set es\<rparr>)"
  proof (rule erase_active [OF dist])
    fix p
    assume "p \<in> snd ` set es"
    then have "p \<in> A" using snd_es by (simp add: ex_def)
    then show "heap ?q p \<noteq> None \<and> ident (heap ?q) p \<in> activeTimers ?q" using A i(4) by auto
  qed
  moreover have "snd ` set es = ex" using snd_es by simp
  ultimately have loop: "rfold (\<lambda>(_, p) q. rbind (deref p q) (\<lambda>t.
      if (p, sequence t) \<notin> activeTimers q then Inl AssertFail
      else Inr (q\<lparr>activeTimers := activeTimers q - {(p, sequence t)}\<rparr>))) es ?q = Inr ?q'"
    using act by simp
  have "(A - ex) \<inter> set ((map snd es @ X) @ added (pending q)) = {}" "distinct ((map snd es @ X) @ added (pending q))"
    "dom (heap q) = (A - ex) \<union> set ((map snd es @ X) @ added (pending q))"
    using i(5-7) dist snd_es by (auto simp: ex_def)
  then show inv: "tq_inv (map snd es @ X) (A - ex) ?q'"
    using i unfolding tq_inv_def by (intro conjI) (simp; fail)+
  have "now < fst (Min (entry (heap q) ` (A - ex)))" if "entry (heap q) ` (A - ex) \<noteq> {}"
  proof -
    have "Min (entry (heap q) ` (A - ex)) \<in> entry (heap q) ` (A - ex)" using i(2) that by (intro Min_in) auto
    then show ?thesis by (auto simp: entry_def ex_def)
  qed
  then show "getExpired now q = Inr (es, ?q')"
    unfolding getExpired_def sizes_agree_ok [OF assms(1)] Let_def split es_def [symmetric] rbind_Inr loop
      sizes_agree_ok [OF inv] by auto
qed


lemma restart_repeat:
  assumes "repeat T" and "timer_ok p T" and "0 < us" and "us \<le> 2 ^ 61"
  obtains e where "restart (Time us) T = Inr (T\<lparr>expiration := e\<rparr>)" and "Time us \<le> e" and "time_ok e"
    and "addTime (Time us) (interval T) = Inr e"
proof -
  have m: "0 \<le> mant (interval T)" and "interval_ok (interval T)" using assms(1,2) by (auto simp: timer_ok_def)
  then obtain d where d: "int64_of_double (d_mul (interval T) (d_of_int cMicroSecondsPerSecond)) = Inr d" "d \<le> 2 ^ 61"
    by (auto simp: interval_ok_def)
  have "0 \<le> d"
  proof -
    obtain k l where "interval T = Dbl k l" by (cases "interval T")
    then have "0 \<le> d_trunc (d_mul (interval T) (Dbl 1000000 0))" using d_trunc_nonneg [OF d_mul_nonneg] m by simp
    then show ?thesis using d(1) by (auto simp: int64_of_double_def Let_def simp del: d_mul.simps split: if_splits)
  qed
  then have add: "addTime (Time us) (interval T) = Inr (Time (d + us))"
    using d assms(3,4) by (simp add: addTime_def in_int64_def Let_def)
  show thesis
    by (rule that [of "Time (d + us)"])
      (use add assms \<open>0 \<le> d\<close> d(2) in \<open>simp_all add: restart_def less_eq_Time_def time_ok_def\<close>)
qed

lemma seqs_ok_upd: "seqs_ok h n \<Longrightarrow> h p = Some T \<Longrightarrow> sequence T' = sequence T \<Longrightarrow> seqs_ok (h(p \<mapsto> T')) n"
  unfolding seqs_ok_def by (intro conjI allI impI) (auto split: if_splits)

lemma tq_inv_upd_owned:
  assumes "tq_inv (p # X) A q" and "heap q p = Some T" and "sequence T' = sequence T" and "timer_ok p T'"
  shows "tq_inv (p # X) A (q\<lparr>heap := (heap q)(p \<mapsto> T')\<rparr>)"
proof -
  note i = tq_invD [OF assms(1)]
  have "p \<notin> A" using i(6) by auto
  moreover have "dom ((heap q)(p \<mapsto> T')) = A \<union> set ((p # X) @ added (pending q))" using i(5) by auto
  ultimately show ?thesis
    using i assms(4) seqs_ok_upd [OF i(9) assms(2,3)] unfolding tq_inv_def
    by (intro conjI) (auto simp: entry_upd split: if_splits)
qed

text \<open>One expired timer: it is put back with its next time, or deleted.\<close>

lemma reset_one_cases:
  assumes "tq_inv (p # X) A q" and "0 < us" and "us \<le> 2 ^ 61"
  obtains (again) T e where "heap q p = Some T" "repeat T" "(p, sequence T) \<notin> canllingTimers q"
      "addTime (Time us) (interval T) = Inr e" "Time us \<le> e"
      "reset_one (Time us) (t, p) q = Inr (q\<lparr>heap := (heap q)(p \<mapsto> T\<lparr>expiration := e\<rparr>),
         timers := insert (e, p) (timers q), activeTimers := insert (p, sequence T) (activeTimers q)\<rparr>)"
      "tq_inv X (insert p A) (q\<lparr>heap := (heap q)(p \<mapsto> T\<lparr>expiration := e\<rparr>),
         timers := insert (e, p) (timers q), activeTimers := insert (p, sequence T) (activeTimers q)\<rparr>)"
  | (gone) T where "heap q p = Some T" "\<not> repeat T \<or> (p, sequence T) \<in> canllingTimers q"
      "reset_one (Time us) (t, p) q = Inr (q\<lparr>heap := (heap q)(p := None)\<rparr>)"
      "tq_inv X A (q\<lparr>heap := (heap q)(p := None)\<rparr>)"
proof -
  obtain T where T: "heap q p = Some T" using tq_inv_deref [OF assms(1), of p] by auto
  show thesis
  proof (cases "repeat T \<and> (p, sequence T) \<notin> canllingTimers q")
    case False
    then have "reset_one (Time us) (t, p) q = Inr (q\<lparr>heap := (heap q)(p := None)\<rparr>)"
      using T by (auto simp: reset_one_def deref_def delete_def)
    with gone T False tq_inv_delete_owned [OF assms(1)] show thesis by blast
  next
    case True
    have ok: "timer_ok p T" using tq_invD(8) [OF assms(1) T] .
    obtain e where e: "restart (Time us) T = Inr (T\<lparr>expiration := e\<rparr>)" "Time us \<le> e" "time_ok e"
      "addTime (Time us) (interval T) = Inr e"
      using restart_repeat [OF _ ok assms(2,3)] True by blast
    let ?T = "T\<lparr>expiration := e\<rparr>" and ?q = "q\<lparr>heap := (heap q)(p \<mapsto> T\<lparr>expiration := e\<rparr>)\<rparr>"
    have "tq_inv (p # X) A ?q" using tq_inv_upd_owned [OF assms(1) T, of ?T] ok e(3) by (simp add: timer_ok_def)
    then obtain T' q' where ins: "heap ?q p = Some T'"
      "q' = ?q\<lparr>timers := insert (expiration T', p) (timers ?q), activeTimers := insert (p, sequence T') (activeTimers ?q)\<rparr>"
      "tq_insert p ?q = Inr ((\<forall>e\<in>timers ?q. expiration T' < fst e), q')" "tq_inv X (insert p A) q'"
      by (rule tq_insert_ok)
    have T': "T' = ?T" using ins(1) by simp
    have q': "q' = ?q\<lparr>timers := insert (e, p) (timers q), activeTimers := insert (p, sequence T) (activeTimers q)\<rparr>"
      using ins(2) T' by simp
    have "reset_one (Time us) (t, p) q = Inr q'"
      using T True e(1) ins(3) by (simp add: reset_one_def deref_def)
    with again T True e ins(4) show thesis unfolding q' by blast
  qed
qed


lemma reset_one_ok:
  assumes "tq_good True (p # X) q" and "0 < us" and "us \<le> 2 ^ 61"
  shows "ok (tq_good True X) (reset_one (Time us) (t, p) q)"
proof -
  obtain A where A: "tq_inv (p # X) A q" "armed True q" using assms(1) by (auto simp: tq_good_def)
  from A(1) assms(2,3) show ?thesis
  proof (cases rule: reset_one_cases [of p X A q us t])
    case (again T e)
    have "Time_vaild e" using again(5) assms(2) by (simp add: Time_vaild_def less_eq_Time_def)
    then have "armed True (q\<lparr>heap := (heap q)(p \<mapsto> T\<lparr>expiration := e\<rparr>),
         timers := insert (e, p) (timers q), activeTimers := insert (p, sequence T) (activeTimers q)\<rparr>)"
      using A(2) by (simp add: armed_def armed_for_def)
    then show ?thesis using again(6,7) by (auto simp: tq_good_def)
  next
    case (gone T)
    then show ?thesis using A(2) by (auto simp: tq_good_def)
  qed
qed

lemma reset_all_ok:
  assumes "tq_good True (map snd es @ X) q" and "0 < us" and "us \<le> 2 ^ 61"
  shows "ok (tq_good True X) (rfold (reset_one (Time us)) es q)"
  using assms(1)
proof (induction es arbitrary: q)
  case Nil
  then show ?case by simp
next
  case (Cons e es)
  have "ok (tq_good True (map snd es @ X)) (reset_one (Time us) e q)"
    using reset_one_ok [OF _ assms(2,3), of "snd e" _ q "fst e"] Cons.prems by simp
  then show ?case using Cons.IH by (auto simp: ok_iff)
qed

text \<open>Once the descriptor is armed for the earliest entry it is armed for all.\<close>

lemma armed_Min:
  assumes "finite (timers q)" and "timers q \<noteq> {} \<Longrightarrow> armed_for q (fst (Min (timers q)))"
  shows "armed False q"
  unfolding armed_def using assms fst_Min_le [OF assms(1)] armed_for_mono by fastforce

lemma tq_reset_ok:
  assumes "tq_good True (map snd es @ X) q" and "clock_contract tod" and "0 < us" and "us \<le> 2 ^ 61"
  shows "ok (tq_good False X) (tq_reset tod es (Time us) q)"
proof -
  obtain q' where q': "rfold (reset_one (Time us)) es q = Inr q'" "tq_good True X q'"
    using reset_all_ok [OF assms(1,3,4)] by (auto simp: ok_iff)
  then obtain A where A: "tq_inv X A q'" "armed True q'" by (auto simp: tq_good_def)
  note i = tq_invD [OF A(1)]
  have fin: "finite (timers q')" using i(2,3) by simp
  show ?thesis
  proof (cases "timers q' = {}")
    case True
    then show ?thesis
      using A(1) q'(1) by (auto simp: tq_reset_def Time_default_def Time_vaild_def tq_good_def armed_def)
  next
    case False
    obtain e p where m: "Min (timers q') = (e, p)" by (cases "Min (timers q')")
    have mem: "(e, p) \<in> timers q'" using Min_in [OF fin False] m by simp
    then obtain T where T: "p \<in> A" "heap q' p = Some T" "expiration T = e"
      using i(3) tq_inv_deref [OF A(1), of p] by (auto simp: entry_def)
    have eq: "tq_reset tod es (Time us) q = (if Time_vaild e then resetTimerFd tod e q' else Inr q')"
      using q'(1) False T m by (simp add: tq_reset_def deref_def)
    show ?thesis
    proof (cases "Time_vaild e")
      case True
      have "ok (\<lambda>q''. armed_for q'' e \<and> (\<exists>n arm. q'' = q'\<lparr>calls := n, timerFd := Some arm\<rparr>)) (resetTimerFd tod e q')"
        by (rule resetTimerFd_ok [OF assms(2)]) (use i(8) [OF T(2)] T(3) in \<open>simp add: timer_ok_def\<close>)
      then show ?thesis
        unfolding eq using True A(1) fin m by (auto simp: tq_good_def intro!: armed_Min elim!: ok_mono)
    next
      case notvalid: False
      have "armed_for q' e" using A(2) mem notvalid by (auto simp: armed_def)
      then show ?thesis unfolding eq using notvalid A(1) fin m by (auto simp: tq_good_def intro!: armed_Min)
    qed
  qed
qed


lemma tq_good_frame [simp]:
  "tq_good b X (q\<lparr>callingExpiredTimer := c\<rparr>) = tq_good b X q" "tq_good b X (q\<lparr>canllingTimers := C\<rparr>) = tq_good b X q"
  by (simp_all add: tq_good_def)

lemma Timer_run_ok:
  assumes "tq_good b X q" and "snd it \<in> set X" and "body_ok body" and "alloc_contract alloc" and "clock_contract tod"
  shows "safe (tq_good b X) (Timer_run body alloc tod it q)"
proof -
  obtain A where "tq_inv X A q" using assms(1) by (auto simp: tq_good_def)
  then obtain T where "deref (snd it) q = Inr T" using tq_inv_deref [of X A q "snd it"] assms(2) by auto
  moreover have "safe (tq_good b X) (rfold (do_act alloc tod) (body (callback T) q) q)"
  proof (rule safe_rfold)
    fix a and s :: "'a TimerQueue"
    assume "a \<in> set (body (callback T) q)" and s: "tq_good b X s"
    then have "act_ok a" using assms(3) by (auto simp: body_ok_def list_all_iff)
    then show "safe (tq_good b X) (do_act alloc tod a s)" by (rule do_act_ok [OF s _ assms(4,5)])
  qed (rule assms(1))
  ultimately show ?thesis by (simp add: Timer_run_def)
qed

lemma tq_handleRead_ok:
  assumes "tq_good False X q" and "body_ok body" and "alloc_contract alloc" and "clock_contract tod"
  shows "safe (tq_good False X) (tq_handleRead body alloc tod q)"
proof -
  obtain A where A: "tq_inv X A q" using assms(1) by (auto simp: tq_good_def)
  obtain us where us: "0 < us" "us \<le> 2 ^ 60 + 10 ^ 6" "tq_now tod q = (Time us, q\<lparr>calls := calls q + 1\<rparr>)"
    using clock_now [OF assms(4), of q] by blast
  have us': "us \<le> 2 ^ 61" using us(2) by simp
  let ?q = "readTimerFd (q\<lparr>calls := calls q + 1\<rparr>)"
  have "tq_inv X A ?q" using A by (simp add: readTimerFd_def)
  from getExpired_ok(1,2) [OF this, of "Time us"] obtain es A' q' where
    ex: "getExpired (Time us) ?q = Inr (es, q')" "tq_inv (map snd es @ X) A' q'"
    "\<forall>p\<in>A'. \<not> expiration (the (heap q' p)) \<le> Time us" by auto
  have "armed True q'"
    using ex(3) us(1) unfolding armed_def tq_invD(3) [OF ex(2)]
    by (auto simp: entry_def Time_vaild_def less_eq_Time_def)
  then have "tq_good True (map snd es @ X) (q'\<lparr>callingExpiredTimer := True, canllingTimers := {}\<rparr>)"
    using ex(2) by (auto simp: tq_good_def)
  then have "safe (tq_good True (map snd es @ X))
      (rfold (Timer_run body alloc tod) es (q'\<lparr>callingExpiredTimer := True, canllingTimers := {}\<rparr>))"
    by (rule safe_rfold [rotated]) (force intro!: Timer_run_ok assms(2-4))
  then have "safe (tq_good False X) (rbind (rfold (Timer_run body alloc tod) es
      (q'\<lparr>callingExpiredTimer := True, canllingTimers := {}\<rparr>))
      (\<lambda>q. tq_reset tod es (Time us) (q\<lparr>callingExpiredTimer := False\<rparr>)))"
    by (rule safe_rbind) (intro safe_ok tq_reset_ok assms us(1) us', simp)
  then show ?thesis
    unfolding tq_handleRead_def inLoop_ok [OF A] using us(3) ex(1) by simp
qed

lemma run_functors_ok:
  "tq_good b (added F @ X) q \<Longrightarrow> clock_contract tod \<Longrightarrow> ok (tq_good b X) (rfold (run_functor tod) F q)"
proof (induction F arbitrary: q)
  case Nil
  then show ?case by simp
next
  case (Cons f F)
  have "added (f # F) @ X = added [f] @ added F @ X" by (cases f) simp_all
  then have "ok (tq_good b (added F @ X)) (run_functor tod f q)"
    using Cons.prems run_functor_ok [of f "added F @ X" _ q tod] by (fastforce simp: tq_good_def elim!: ok_mono)
  then show ?case using Cons.IH Cons.prems(2) by (auto simp: ok_iff)
qed

lemma run_pending_ok:
  assumes "tq_good b [] q" and "clock_contract tod"
  shows "ok (tq_good b []) (run_pending tod q)"
proof -
  have "tq_inv [] A q \<Longrightarrow> tq_inv (added (pending q) @ []) A (q\<lparr>pending := []\<rparr>)" for A
    by (simp add: tq_inv_def)
  then have "tq_good b (added (pending q) @ []) (q\<lparr>pending := []\<rparr>)" using assms(1) by (auto simp: tq_good_def)
  from run_functors_ok [OF this assms(2)] show ?thesis by (simp add: run_pending_def)
qed

lemma tq_step_ok:
  assumes "tq_good False [] q" and "event_ok e" and "body_ok body" and "alloc_contract alloc" and "clock_contract tod"
  shows "safe (tq_good False []) (tq_step body alloc tod e q)"
proof (cases e)
  case (Call a)
  then show ?thesis using do_act_ok [OF assms(1) _ assms(4,5), of a] assms(2) by simp
next
  case Readable
  then show ?thesis using tq_handleRead_ok [OF assms(1,3-5)] by simp
next
  case Pending
  then show ?thesis using safe_ok [OF run_pending_ok [OF assms(1,5)]] by simp
qed

lemma tq_good_new: "tq_good False [] TimerQueue_new"
  unfolding tq_good_def by (auto simp: TimerQueue_new_def tq_inv_def armed_def seqs_ok_def)

lemma tq_run_ok:
  assumes "list_all event_ok es" and "body_ok body" and "alloc_contract alloc" and "clock_contract tod"
  shows "safe (tq_good False []) (rfold (tq_step body alloc tod) es TimerQueue_new)"
proof (rule safe_rfold)
  fix e and q :: "'a TimerQueue"
  assume "e \<in> set es" and q: "tq_good False [] q"
  then have "event_ok e" using assms(1) by (auto simp: list_all_iff)
  then show "safe (tq_good False []) (tq_step body alloc tod e q)" by (rule tq_step_ok [OF q _ assms(2-4)])
qed (rule tq_good_new)

section \<open>Properties\<close>


text \<open>A concrete environment: three addresses, a clock that stands still, and callbacks
  that start another timer.\<close>

definition demo_alloc :: "nat allocator" where
  "demo_alloc q = find (\<lambda>p. heap q p = None) [1, 2, 3]"

definition demo_clock :: clock where
  "demo_clock n = (1000, 0)"

definition demo_body :: "nat \<Rightarrow> nat TimerQueue \<Rightarrow> nat act list" where
  "demo_body c q = (if c = 0 then [Cancel True (TimerId 1 1), Add True 7 (Time 1000000500) (Dbl 0 0)] else [])"

definition demo_events :: "nat event list" where
  "demo_events = [Call (Add True 0 (Time 5) (Dbl 1 0)), Call (Add False 1 (Time 2000000000) (Dbl 0 0)), Pending, Readable]"

lemma demo_contracts: "alloc_contract demo_alloc" "clock_contract demo_clock"
  by (auto simp: alloc_contract_def demo_alloc_def UINTPTR_MAX_def clock_contract_def demo_clock_def split: if_splits)

lemma interval_ok_small: "interval_ok (Dbl 1 0)" "interval_ok (Dbl 0 0)"
  by (simp_all add: interval_ok_def int64_of_double_def rnd53_exact in_int64_def)

lemma demo_ok: "list_all event_ok demo_events" "body_ok demo_body"
  by (simp_all add: demo_events_def body_ok_def demo_body_def time_ok_def interval_ok_small)


text \<open>C11: No timer is lost: after any such run, if a timer is in the queue then the timer descriptor is armed
  to fire no later than the timer's time, or 100 microseconds after the arming if that is later.\<close>

theorem timers_armed:
  assumes "list_all event_ok es" and "body_ok body" and "alloc_contract alloc" and "clock_contract tod"
    and "rfold (tq_step body alloc tod) es TimerQueue_new = Inr q" and "(t, p) \<in> timers q"
  shows "\<exists>now ts. timerFd q = Some (now, ts) \<and>
    fires_at (now, ts) \<le> max (getMicroSecondsSinceEpoch t) (getMicroSecondsSinceEpoch now + 100)"
proof -
  have "tq_good False [] q" using tq_run_ok [OF assms(1-4)] assms(5) by (simp add: safe_def)
  then have "armed_for q t" using assms(6) by (auto simp: tq_good_def armed_def)
  then show ?thesis by (auto simp: armed_for_def split: option.splits)
qed

theorem timers_armed_witness:
  "\<exists>q t p now ts. rfold (tq_step demo_body demo_alloc demo_clock) demo_events TimerQueue_new = Inr q \<and>
    (t, p) \<in> timers q \<and> timerFd q = Some (now, ts) \<and>
    fires_at (now, ts) \<le> max (getMicroSecondsSinceEpoch t) (getMicroSecondsSinceEpoch now + 100)"
proof -
  have "case rfold (tq_step demo_body demo_alloc demo_clock) demo_events TimerQueue_new of
      Inl _ \<Rightarrow> False | Inr q \<Rightarrow> (Time 2000000000, 2) \<in> timers q"
    by code_simp
  then obtain q where q: "rfold (tq_step demo_body demo_alloc demo_clock) demo_events TimerQueue_new = Inr q"
    "(Time 2000000000, 2) \<in> timers q" by (auto split: sum.splits)
  from timers_armed [OF demo_ok demo_contracts q] q show ?thesis by blast
qed

text \<open>A queue with the timer 1 in it, and with the expired timer 2.\<close>

definition demo_queue :: "nat TimerQueue" where
  "demo_queue = TimerQueue_new\<lparr>heap := [1 \<mapsto> Timer_new 0 (Time 5) (Dbl 1 0) 1, 2 \<mapsto> Timer_new 0 (Time 3) (Dbl 1 0) 2],
    INDEX := 2, timers := {(Time 5, 1)}, activeTimers := {(1, 1)}\<rparr>"

lemma demo_queue_inv: "tq_inv [2] {1} demo_queue"
  by (auto simp: tq_inv_def demo_queue_def TimerQueue_new_def entry_def ident_def Timer_new_def seqs_ok_def
      timer_ok_def time_ok_def interval_ok_small UINTPTR_MAX_def split: if_splits)

text \<open>\<open>getExpired\<close> returns the entries whose time has come, exactly those and in the order of their
  times, and leaves the later ones.\<close>

theorem getExpired_spec:
  assumes "tq_inv X A q"
  shows "\<exists>es q'. getExpired now q = Inr (es, q') \<and> sorted es \<and> distinct es \<and>
    set es = {e \<in> timers q. fst e \<le> now} \<and> timers q' = {e \<in> timers q. now < fst e} \<and> heap q' = heap q"
proof -
  let ?ex = "{p \<in> A. expiration (the (heap q p)) \<le> now}"
  let ?es = "sorted_list_of_set (entry (heap q) ` ?ex)"
  note i = tq_invD [OF assms] and g = getExpired_ok(1) [OF assms, of now]
  have "finite (entry (heap q) ` ?ex)" using i(2) by simp
  then have "set ?es = entry (heap q) ` ?ex" by simp
  moreover have "entry (heap q) ` ?ex = {e \<in> timers q. fst e \<le> now}"
    "entry (heap q) ` (A - ?ex) = {e \<in> timers q. now < fst e}"
    unfolding i(3) by (auto simp: entry_def)
  ultimately show ?thesis unfolding g by simp
qed

theorem getExpired_spec_witness:
  "\<exists>es q'. getExpired (Time 7) demo_queue = Inr (es, q') \<and> set es = {e \<in> timers demo_queue. fst e \<le> Time 7} \<and>
    timers q' = {e \<in> timers demo_queue. Time 7 < fst e}"
  using getExpired_spec [OF demo_queue_inv, of "Time 7"] by blast

text \<open>C31: A timer id names one timer for ever: cancelling an id whose timer is in the queue removes and deletes
  that timer and no other; cancelling any other id, such as one whose timer has gone and whose address
  is in use again, changes no timer.\<close>

theorem cancel_exact:
  assumes "tq_inv X A q"
  shows "\<exists>q'. cancleInLoop (TimerId p seq) q = Inr q' \<and>
    (if (p, seq) \<in> activeTimers q
     then activeTimers q' = activeTimers q - {(p, seq)} \<and> heap q' = (heap q)(p := None) \<and>
       timers q' = {e \<in> timers q. snd e \<noteq> p}
     else activeTimers q' = activeTimers q \<and> heap q' = heap q \<and> timers q' = timers q)"
proof -
  have "timers q - {entry (heap q) p} = {e \<in> timers q. snd e \<noteq> p}"
    unfolding tq_invD(3) [OF assms] by (auto simp: entry_def)
  then show ?thesis unfolding cancleInLoop_cases [OF assms] by auto
qed

theorem cancel_exact_witness:
  "\<exists>q'. cancleInLoop (TimerId 1 1) demo_queue = Inr q' \<and> activeTimers q' = {} \<and> heap q' 1 = None"
  using cancel_exact [OF demo_queue_inv, of 1 1] by (auto simp: demo_queue_def)

text \<open>When the expired timers have been run, one that repeats and was not cancelled is put back with the time
  \<open>now + interval\<close>, and one that does not repeat or that a callback has cancelled is deleted.\<close>

theorem reset_one_spec:
  assumes "tq_inv (p # X) A q" and "heap q p = Some T" and "0 < us" and "us \<le> 2 ^ 61"
  shows "\<exists>q'. reset_one (Time us) (t, p) q = Inr q' \<and>
    (if repeat T \<and> (p, sequence T) \<notin> canllingTimers q
     then \<exists>e. addTime (Time us) (interval T) = Inr e \<and> timers q' = insert (e, p) (timers q) \<and>
       heap q' p = Some (T\<lparr>expiration := e\<rparr>)
     else heap q' p = None \<and> timers q' = timers q)"
  using assms(1,3,4)
proof (cases rule: reset_one_cases [of p X A q us t])
  case (again T' e)
  then show ?thesis using assms(2) by auto
next
  case (gone T')
  then show ?thesis using assms(2) by auto
qed

theorem reset_one_spec_witness:
  "\<exists>q' e. reset_one (Time 9) (Time 3, 2) demo_queue = Inr q' \<and> addTime (Time 9) (Dbl 1 0) = Inr e \<and>
    timers q' = insert (e, 2) (timers demo_queue)"
proof -
  have "heap demo_queue 2 = Some (Timer_new 0 (Time 3) (Dbl 1 0) 2)" by (simp add: demo_queue_def)
  from reset_one_spec [OF demo_queue_inv this, of 9 "Time 3"] show ?thesis
    by (auto simp: Timer_new_def demo_queue_def TimerQueue_new_def)
qed

text \<open>The relative time given to \<open>timerfd_settime\<close> is a valid timespec of at least 100 microseconds (zero
  would disarm the descriptor), and it is the time left.\<close>

theorem howMuchTimeFromNow_spec:
  assumes "time_ok when" and "0 < us" and "us \<le> 2 ^ 61"
  shows "\<exists>sec nsec. howMuchTimeFromNow when (Time us) = Inr (sec, nsec) \<and> 0 \<le> sec \<and> 0 \<le> nsec \<and>
    nsec < 1000000000 \<and> nsec mod 1000 = 0 \<and> (sec, nsec) \<noteq> (0, 0) \<and>
    sec * 1000000 + nsec div 1000 = max 100 (getMicroSecondsSinceEpoch when - us)"
  using howMuch_ok [OF assms] by (auto simp: ok_iff)

theorem howMuchTimeFromNow_spec_witness:
  "\<exists>sec nsec. howMuchTimeFromNow (Time 5) (Time 900) = Inr (sec, nsec) \<and> sec * 1000000 + nsec div 1000 = 100"
  using howMuchTimeFromNow_spec [of "Time 5" 900] by (auto simp: time_ok_def)

end
