(* ===== verification/EventLoop.thy ===== *)
theory EventLoop
  imports Epoller TimerQueue
begin

text \<open>
  \<^verbatim>\<open>src/netlib/net/EventLoop.h\<close> and \<^verbatim>\<open>EventLoop.cc\<close>: the reactor loop, and the operations of \<open>Chnnel\<close> that
  go through it (\<open>update\<close>, \<open>remove\<close>, the destructor).

  The loop's record extends the poller's. Callbacks of channels and queued functors are user code: the
  arguments \<open>on_event\<close> and \<open>on_functor\<close> give the operations on the loop that they perform in a given
  state. \<open>inLoopThread\<close> is whether the caller runs on the loop's thread. The eventfd is its counter
  \<open>wakeCount\<close>; a wake-up adds one to it and reading it sets it to zero. All channels of the store
  belong to this loop, so that the assertions on \<open>owerLoop\<close> hold.

  The second half models the loop as one of several threads: \<open>el_step\<close> is a step relation in which the
  lock region and the wake-up of \<open>queueInLoop\<close> are separate steps of other threads, interleaved
  with the phases of the loop.
\<close>

section \<open>Model\<close>

record ('f, 'k) EventLoop = "'k Epoller" +
  looping :: bool
  quit :: bool
  activeChnnels :: "addr list"
  currentActiveChnnel :: "addr option"
  epollReturnTime :: Time
  wakeChnnel :: addr
  wakeCount :: nat
  pendingFunctors :: "'f list"
  callPendingFunctors :: bool
  eventHandle :: bool
  alive :: "nat set"

definition abortNotInLoopThread :: "'a res" where
  "abortNotInLoopThread = Inl Abort"

definition updateChnnel :: "'k epoll_ctl \<Rightarrow> addr \<Rightarrow> ('f, 'k) EventLoop \<Rightarrow> ('f, 'k) EventLoop res" where
  "updateChnnel ctl p s = rbind (assertInLoopThread s) (\<lambda>_. Epoller_updateChnnel ctl p s)"

definition removeChnnel :: "'k epoll_ctl \<Rightarrow> addr \<Rightarrow> ('f, 'k) EventLoop \<Rightarrow> ('f, 'k) EventLoop res" where
  "removeChnnel ctl p s =
    rbind (assertInLoopThread s) (\<lambda>_.
    if eventHandle s \<and> \<not> (currentActiveChnnel s = Some p \<or> p \<notin> set (activeChnnels s)) then Inl AssertFail
    else Epoller_removeChnnel ctl p s)"

definition hasChnnel :: "addr \<Rightarrow> ('f, 'k) EventLoop \<Rightarrow> bool res" where
  "hasChnnel p s = rbind abortNotInLoopThread (\<lambda>_::unit. Epoller_hasChnnel p s)"

subsection \<open>Operations of a channel\<close>

definition Chnnel_update :: "'k epoll_ctl \<Rightarrow> addr \<Rightarrow> ('f, 'k) EventLoop \<Rightarrow> ('f, 'k) EventLoop res" where
  "Chnnel_update ctl p s =
    rbind (chan_at p s) (\<lambda>c. updateChnnel ctl p (set_chan p (c\<lparr>addedToLoop := True\<rparr>) s))"

definition set_events :: "'k epoll_ctl \<Rightarrow> addr \<Rightarrow> (events \<Rightarrow> events) \<Rightarrow> ('f, 'k) EventLoop \<Rightarrow> ('f, 'k) EventLoop res" where
  "set_events ctl p f s =
    rbind (chan_at p s) (\<lambda>c. Chnnel_update ctl p (set_chan p (c\<lparr>ch_events := f (ch_events c)\<rparr>) s))"

definition enableReading :: "'k epoll_ctl \<Rightarrow> addr \<Rightarrow> ('f, 'k) EventLoop \<Rightarrow> ('f, 'k) EventLoop res" where
  "enableReading ctl p s = set_events ctl p (\<lambda>e. e OR cReadEvent) s"

definition enableWriting :: "'k epoll_ctl \<Rightarrow> addr \<Rightarrow> ('f, 'k) EventLoop \<Rightarrow> ('f, 'k) EventLoop res" where
  "enableWriting ctl p s = set_events ctl p (\<lambda>e. e OR cWriteEvent) s"

definition disableReading :: "'k epoll_ctl \<Rightarrow> addr \<Rightarrow> ('f, 'k) EventLoop \<Rightarrow> ('f, 'k) EventLoop res" where
  "disableReading ctl p s = set_events ctl p (\<lambda>e. e AND NOT cReadEvent) s"

definition disableWriting :: "'k epoll_ctl \<Rightarrow> addr \<Rightarrow> ('f, 'k) EventLoop \<Rightarrow> ('f, 'k) EventLoop res" where
  "disableWriting ctl p s = set_events ctl p (\<lambda>e. e AND NOT cWriteEvent) s"

definition diableAll :: "'k epoll_ctl \<Rightarrow> addr \<Rightarrow> ('f, 'k) EventLoop \<Rightarrow> ('f, 'k) EventLoop res" where
  "diableAll ctl p s = set_events ctl p (\<lambda>e. cNonEvent) s"

definition Chnnel_remove :: "'k epoll_ctl \<Rightarrow> addr \<Rightarrow> ('f, 'k) EventLoop \<Rightarrow> ('f, 'k) EventLoop res" where
  "Chnnel_remove ctl p s =
    rbind (chan_at p s) (\<lambda>c.
    if \<not> isNoneEvent c then Inl AssertFail
    else removeChnnel ctl p (set_chan p (c\<lparr>addedToLoop := False\<rparr>) s))"

text \<open>The destructor, with its assertions compiled in.\<close>

definition Chnnel_delete :: "addr \<Rightarrow> ('f, 'k) EventLoop \<Rightarrow> ('f, 'k) EventLoop res" where
  "Chnnel_delete p s =
    rbind (chan_at p s) (\<lambda>c.
    if eventHanding c \<or> addedToLoop c then Inl AssertFail
    else rbind (if inLoopThread s
                then rbind (hasChnnel p s) (\<lambda>b. if b then Inl AssertFail else Inr ())
                else Inr ())
      (\<lambda>_. Inr (s\<lparr>chans := (chans s)(p := None)\<rparr>)))"

subsection \<open>Functors and wake-ups\<close>

definition wakeUp :: "('f, 'k) EventLoop \<Rightarrow> ('f, 'k) EventLoop" where
  "wakeUp s = s\<lparr>wakeCount := wakeCount s + 1\<rparr>"

definition el_handleRead :: "('f, 'k) EventLoop \<Rightarrow> ('f, 'k) EventLoop" where
  "el_handleRead s = s\<lparr>wakeCount := 0\<rparr>"

definition push_functor :: "'f \<Rightarrow> ('f, 'k) EventLoop \<Rightarrow> ('f, 'k) EventLoop" where
  "push_functor f s = s\<lparr>pendingFunctors := pendingFunctors s @ [f]\<rparr>"

definition queueInLoop :: "'f \<Rightarrow> ('f, 'k) EventLoop \<Rightarrow> ('f, 'k) EventLoop" where
  "queueInLoop cb s =
    (let s = push_functor cb s in if \<not> inLoopThread s \<or> callPendingFunctors s then wakeUp s else s)"

text \<open>What user code can do to the loop. \<open>runInLoop\<close> on the loop's thread runs its argument in place, so
  its effect is that of the operations of the argument; from another thread it is \<open>queueInLoop\<close>. The
  flag of \<open>Queue\<close> and \<open>Quit\<close> says whether the caller runs on the loop's thread.\<close>

datatype 'f op =
    NewChnnel addr int | EnableReading addr | EnableWriting addr | DisableReading addr | DisableWriting addr
  | DiableAll addr | Remove addr | Queue bool 'f | Quit bool

definition el_quit :: "('f, 'k) EventLoop \<Rightarrow> ('f, 'k) EventLoop" where
  "el_quit s = (let s = s\<lparr>quit := True\<rparr> in if \<not> inLoopThread s then wakeUp s else s)"

definition as_thread :: "bool \<Rightarrow> (('f, 'k) EventLoop \<Rightarrow> ('f, 'k) EventLoop) \<Rightarrow> ('f, 'k) EventLoop \<Rightarrow> ('f, 'k) EventLoop" where
  "as_thread l f s = (f (s\<lparr>inLoopThread := l\<rparr>))\<lparr>inLoopThread := True\<rparr>"

fun do_op :: "'k epoll_ctl \<Rightarrow> 'f op \<Rightarrow> ('f, 'k) EventLoop \<Rightarrow> ('f, 'k) EventLoop res" where
  "do_op ctl (NewChnnel p fd) s = Inr (set_chan p (Chnnel_new fd) s)"
| "do_op ctl (EnableReading p) s = enableReading ctl p s"
| "do_op ctl (EnableWriting p) s = enableWriting ctl p s"
| "do_op ctl (DisableReading p) s = disableReading ctl p s"
| "do_op ctl (DisableWriting p) s = disableWriting ctl p s"
| "do_op ctl (DiableAll p) s = diableAll ctl p s"
| "do_op ctl (Remove p) s = Chnnel_remove ctl p s"
| "do_op ctl (Queue l f) s = Inr (as_thread l (queueInLoop f) s)"
| "do_op ctl (Quit l) s = Inr (as_thread l el_quit s)"

definition run_functor_op :: "'k epoll_ctl \<Rightarrow> ('f \<Rightarrow> ('f, 'k) EventLoop \<Rightarrow> 'f op list) \<Rightarrow> 'f \<Rightarrow> ('f, 'k) EventLoop \<Rightarrow> ('f, 'k) EventLoop res" where
  "run_functor_op ctl on_functor f s = rfold (do_op ctl) (on_functor f s) s"

definition runInLoop :: "'k epoll_ctl \<Rightarrow> ('f \<Rightarrow> ('f, 'k) EventLoop \<Rightarrow> 'f op list) \<Rightarrow> 'f \<Rightarrow> ('f, 'k) EventLoop \<Rightarrow> ('f, 'k) EventLoop res" where
  "runInLoop ctl on_functor cb s =
    (if inLoopThread s then run_functor_op ctl on_functor cb s else Inr (queueInLoop cb s))"

definition dpPendingFunctors :: "'k epoll_ctl \<Rightarrow> ('f \<Rightarrow> ('f, 'k) EventLoop \<Rightarrow> 'f op list) \<Rightarrow> ('f, 'k) EventLoop \<Rightarrow> ('f, 'k) EventLoop res" where
  "dpPendingFunctors ctl on_functor s =
    (let s = s\<lparr>callPendingFunctors := True\<rparr>; vec = pendingFunctors s; s = s\<lparr>pendingFunctors := []\<rparr>
     in rbind (rfold (run_functor_op ctl on_functor) vec s) (\<lambda>s. Inr (s\<lparr>callPendingFunctors := False\<rparr>)))"

subsection \<open>The loop\<close>

type_synonym ('f, 'k) event_code = "addr \<Rightarrow> callback_kind \<Rightarrow> ('f, 'k) EventLoop \<Rightarrow> 'f op list"

definition run_callback :: "'k epoll_ctl \<Rightarrow> ('f, 'k) event_code \<Rightarrow> addr \<Rightarrow> callback_kind \<Rightarrow> ('f, 'k) EventLoop \<Rightarrow> ('f, 'k) EventLoop res" where
  "run_callback ctl on_event p kind s =
    (if p = wakeChnnel s then Inr (el_handleRead s) else rfold (do_op ctl) (on_event p kind s) s)"

definition handleEventWithGuard :: "'k epoll_ctl \<Rightarrow> ('f, 'k) event_code \<Rightarrow> Time \<Rightarrow> addr \<Rightarrow> ('f, 'k) EventLoop \<Rightarrow> ('f, 'k) EventLoop res" where
  "handleEventWithGuard ctl on_event receiveTime p s =
    rbind (chan_at p s) (\<lambda>c.
    rbind (rfold (run_callback ctl on_event p) (events_dispatched receiveTime c) (set_chan p (c\<lparr>eventHanding := True\<rparr>) s)) (\<lambda>s.
    rbind (chan_at p s) (\<lambda>c. Inr (set_chan p (c\<lparr>eventHanding := False\<rparr>) s))))"

definition handleEvent :: "'k epoll_ctl \<Rightarrow> ('f, 'k) event_code \<Rightarrow> Time \<Rightarrow> addr \<Rightarrow> ('f, 'k) EventLoop \<Rightarrow> ('f, 'k) EventLoop res" where
  "handleEvent ctl on_event receiveTime p s =
    rbind (chan_at p s) (\<lambda>c.
    if tied c
    then if ch_tie c \<in> alive s then handleEventWithGuard ctl on_event receiveTime p s else Inr s
    else handleEventWithGuard ctl on_event receiveTime p s)"

text \<open>One turn of the loop; \<open>wait\<close> is the outcome of \<open>epoll_wait\<close> and \<open>now\<close> the time it returned.\<close>

definition loop_once ::
    "'k epoll_ctl \<Rightarrow> ('f, 'k) event_code \<Rightarrow> ('f \<Rightarrow> ('f, 'k) EventLoop \<Rightarrow> 'f op list) \<Rightarrow>
      (events \<times> addr) list option \<times> Time \<Rightarrow> ('f, 'k) EventLoop \<Rightarrow> ('f, 'k) EventLoop res" where
  "loop_once ctl on_event on_functor = (\<lambda>(wait, now) s.
    rbind (poll wait [] (s\<lparr>activeChnnels := []\<rparr>)) (\<lambda>(active, s).
    let s = s\<lparr>activeChnnels := active, epollReturnTime := now, eventHandle := True\<rparr> in
    rbind (rfold (\<lambda>p s. handleEvent ctl on_event now p (s\<lparr>currentActiveChnnel := Some p\<rparr>)) active s) (\<lambda>s.
    dpPendingFunctors ctl on_functor (s\<lparr>currentActiveChnnel := None, eventHandle := False\<rparr>))))"

text \<open>The \<open>while\<close> loop for the outcomes of the next calls of \<open>epoll_wait\<close>; it is still running when they
  are used up and no one has asked it to quit.\<close>

fun loop_while ::
    "'k epoll_ctl \<Rightarrow> ('f, 'k) event_code \<Rightarrow> ('f \<Rightarrow> ('f, 'k) EventLoop \<Rightarrow> 'f op list) \<Rightarrow>
      ((events \<times> addr) list option \<times> Time) list \<Rightarrow> ('f, 'k) EventLoop \<Rightarrow> ('f, 'k) EventLoop res" where
  "loop_while ctl on_event on_functor [] s = Inr s"
| "loop_while ctl on_event on_functor (w # ws) s =
    (if quit s then Inr s
     else rbind (loop_once ctl on_event on_functor w s) (loop_while ctl on_event on_functor ws))"

definition loop ::
    "'k epoll_ctl \<Rightarrow> ('f, 'k) event_code \<Rightarrow> ('f \<Rightarrow> ('f, 'k) EventLoop \<Rightarrow> 'f op list) \<Rightarrow>
      ((events \<times> addr) list option \<times> Time) list \<Rightarrow> ('f, 'k) EventLoop \<Rightarrow> ('f, 'k) EventLoop res" where
  "loop ctl on_event on_functor ws s =
    (if looping s then Inl AssertFail else
     rbind (assertInLoopThread s) (\<lambda>_.
     rbind (loop_while ctl on_event on_functor ws (s\<lparr>looping := True, quit := False\<rparr>)) (\<lambda>s.
     Inr (if quit s then s\<lparr>looping := False\<rparr> else s))))"

subsection \<open>Construction and destruction\<close>

text \<open>\<open>another\<close>: the thread already has an event loop. The timer queue that the constructor makes too is the
  model of the theory \<open>TimerQueue\<close>.\<close>

definition EventLoop_new :: "'k epoll_ctl \<Rightarrow> bool \<Rightarrow> 'k \<Rightarrow> addr \<Rightarrow> int \<Rightarrow> ('f, 'k) EventLoop res" where
  "EventLoop_new ctl another k wake wakeFd =
    (if another then Inl Abort else enableReading ctl wake
      \<lparr>chans = [wake \<mapsto> setReadCallBack (Chnnel_new wakeFd)], chnnels = Map.empty, eventsSize = cEventsInitSize,
       epollFd = k, inLoopThread = True, looping = False, quit = False, activeChnnels = [],
       currentActiveChnnel = None, epollReturnTime = Time_default, wakeChnnel = wake, wakeCount = 0,
       pendingFunctors = [], callPendingFunctors = False, eventHandle = False, alive = {}\<rparr>)"

definition EventLoop_delete :: "'k epoll_ctl \<Rightarrow> ('f, 'k) EventLoop \<Rightarrow> ('f, 'k) EventLoop res" where
  "EventLoop_delete ctl s = rbind (diableAll ctl (wakeChnnel s) s) (Chnnel_remove ctl (wakeChnnel s))"

subsection \<open>Timers\<close>

definition runAt :: "'c allocator \<Rightarrow> clock \<Rightarrow> Time \<Rightarrow> 'c \<Rightarrow> 'c TimerQueue \<Rightarrow> (TimerId \<times> 'c TimerQueue) res" where
  "runAt alloc tod time cb q = addTimer alloc tod cb time (Dbl 0 0) q"

definition runAfter :: "'c allocator \<Rightarrow> clock \<Rightarrow> double \<Rightarrow> 'c \<Rightarrow> 'c TimerQueue \<Rightarrow> (TimerId \<times> 'c TimerQueue) res" where
  "runAfter alloc tod delay cb q =
    (let (now, q) = tq_now tod q in rbind (addTime now delay) (\<lambda>time. runAt alloc tod time cb q))"

definition runEvery :: "'c allocator \<Rightarrow> clock \<Rightarrow> double \<Rightarrow> 'c \<Rightarrow> 'c TimerQueue \<Rightarrow> (TimerId \<times> 'c TimerQueue) res" where
  "runEvery alloc tod ival cb q =
    (let (now, q) = tq_now tod q in rbind (addTime now ival) (\<lambda>time. addTimer alloc tod cb time ival q))"

definition cancle :: "clock \<Rightarrow> TimerId \<Rightarrow> 'c TimerQueue \<Rightarrow> 'c TimerQueue res" where
  "cancle tod timerId q = cancleTimer tod timerId q"

section \<open>Specification\<close>

text \<open>The obligations of user code: it registers a channel only while no other channel has its descriptor,
  and removes a channel only when it is registered, has no events, and is not due for dispatch in the
  present turn, unless it is the one being dispatched.\<close>

fun op_ok :: "int set \<Rightarrow> 'f op \<Rightarrow> ('f, 'k) EventLoop \<Rightarrow> bool" where
  "op_ok usable (NewChnnel p fd) s \<longleftrightarrow> chans s p = None \<and> fd \<in> usable"
| "op_ok usable (Remove p) s \<longleftrightarrow>
    (\<exists>c. chans s p = Some c \<and> isNoneEvent c \<and> ch_flag c \<noteq> cNew \<and>
      (eventHandle s \<longrightarrow> currentActiveChnnel s = Some p \<or> p \<notin> set (activeChnnels s)))"
| "op_ok usable (Queue l f) s \<longleftrightarrow> True"
| "op_ok usable (Quit l) s \<longleftrightarrow> True"
| "op_ok usable op s \<longleftrightarrow>
    (\<exists>p c. op \<in> {EnableReading p, EnableWriting p, DisableReading p, DisableWriting p, DiableAll p} \<and>
      chans s p = Some c \<and> (ch_flag c = cNew \<longrightarrow> chnnels s (ch_fd c) = None))"

fun ops_ok :: "'k epoll_ctl \<Rightarrow> int set \<Rightarrow> 'f op list \<Rightarrow> ('f, 'k) EventLoop \<Rightarrow> bool" where
  "ops_ok ctl usable [] s \<longleftrightarrow> True"
| "ops_ok ctl usable (op # ops) s \<longleftrightarrow> op_ok usable op s \<and>
    (case do_op ctl op s of Inl _ \<Rightarrow> True | Inr s' \<Rightarrow> ops_ok ctl usable ops s')"

definition wait_ok :: "('k \<Rightarrow> int \<rightharpoonup> events \<times> addr) \<Rightarrow> (events \<times> addr) list option \<Rightarrow> ('f, 'k) EventLoop \<Rightarrow> bool" where
  "wait_ok interest wait s \<longleftrightarrow> (case wait of None \<Rightarrow> True
     | Some evs \<Rightarrow> length evs \<le> eventsSize s \<and>
        (\<forall>(ev, p) \<in> set evs. \<exists>fd e. interest (epollFd s) fd = Some (e, p)))"

section \<open>Lemmas\<close>

lemma set_chan_twice [simp]: "set_chan p c (set_chan p d s) = set_chan p c s"
  by (simp add: set_chan_def)

lemma set_chan_sel [simp]:
  "chans (set_chan p c s) = (chans s)(p \<mapsto> c)" "chnnels (set_chan p c s) = chnnels s" "epollFd (set_chan p c s) = epollFd s"
  "inLoopThread (set_chan p c s) = inLoopThread s" "eventsSize (set_chan p c s) = eventsSize s"
  by (simp_all add: set_chan_def)

lemma set_chan_loop [simp]:
  "pendingFunctors (set_chan p c s) = pendingFunctors s" "looping (set_chan p c s) = looping s"
  by (simp_all add: set_chan_def)

text \<open>Changing a channel in what the poller does not record.\<close>

lemma ep_inv_touch:
  assumes "ep_inv interest usable skip s" and "chans s p = Some c" and "ch_fd c' = ch_fd c" and "ch_flag c' = ch_flag c"
    and "ch_events c' = ch_events c \<or> skip' = Some p" and "skip' = skip \<or> skip = None"
  shows "ep_inv interest usable skip' (set_chan p c' s)"
proof -
  note i = ep_invD [OF assms(1)]
  have "chan_inv interest skip' (set_chan p c' s) r d" "ch_fd d \<in> usable" if "chans (set_chan p c' s) r = Some d" for r d
    using that i(2) [OF assms(2)] i(2) [of r d] assms(3-6) by (cases "r = p"; force simp: chan_inv_def)+
  moreover have "\<exists>d. chans (set_chan p c' s) r = Some d \<and> ch_fd d = fd" if "chnnels s fd = Some r" for fd r
    using i(3) [OF that] assms(2,3) by (cases "r = p") auto
  ultimately show ?thesis using i(1,4) unfolding ep_inv_def by simp
qed

lemma ep_inv_new_chan:
  assumes "ep_inv interest usable None s" and "chans s p = None" and "fd \<in> usable"
  shows "ep_inv interest usable None (set_chan p (Chnnel_new fd) s)"
proof -
  note i = ep_invD [OF assms(1)]
  have n: "chnnels s f \<noteq> Some p" for f using i(3) [of f p] assms(2) by auto
  have "chan_inv interest None (set_chan p (Chnnel_new fd) s) r d" "ch_fd d \<in> usable"
    if "chans (set_chan p (Chnnel_new fd) s) r = Some d" for r d
    using that n assms(3) i(2) [of r d] by (cases "r = p"; force simp: chan_inv_def Chnnel_new_def flag_consts)+
  moreover have "\<exists>d. chans (set_chan p (Chnnel_new fd) s) r = Some d \<and> ch_fd d = f" if "chnnels s f = Some r" for f r
    using i(3) [OF that] n that assms(2) by (cases "r = p") auto
  ultimately show ?thesis using i(1,4) unfolding ep_inv_def by simp
qed

text \<open>The parts of the state that user code leaves alone or only extends.\<close>

definition keeps :: "('f, 'k) EventLoop \<Rightarrow> ('f, 'k) EventLoop \<Rightarrow> bool" where
  "keeps s s' \<longleftrightarrow> dom (chans s) \<subseteq> dom (chans s') \<and> eventsSize s' = eventsSize s \<and> looping s' = looping s \<and>
    wakeChnnel s' = wakeChnnel s \<and> callPendingFunctors s' = callPendingFunctors s \<and> eventHandle s' = eventHandle s"

lemma keeps_refl [simp]: "keeps s s"
  by (simp add: keeps_def)

lemma keeps_trans: "keeps s t \<Longrightarrow> keeps t u \<Longrightarrow> keeps s u"
  by (auto simp: keeps_def)

lemma set_events_ok:
  assumes con: "epoll_contract ctl interest usable" and inv: "ep_inv interest usable None s"
    and c: "chans s p = Some c" and new: "ch_flag c = cNew \<Longrightarrow> chnnels s (ch_fd c) = None"
  shows "ok (\<lambda>s'. ep_inv interest usable None s' \<and> keeps s s') (set_events ctl p f s)"
proof -
  let ?c = "c\<lparr>ch_events := f (ch_events c), addedToLoop := True\<rparr>" and ?s = "set_chan p (c\<lparr>ch_events := f (ch_events c), addedToLoop := True\<rparr>) s"
  have inv': "ep_inv interest usable (Some p) ?s" by (rule ep_inv_touch [OF inv c]) simp_all
  have eq: "set_events ctl p f s = Epoller_updateChnnel ctl p ?s"
    using c ep_inv_assert [OF inv'] by (simp add: set_events_def Chnnel_update_def updateChnnel_def chan_at_def)
  have n: "ch_flag ?c = cNew \<Longrightarrow> chnnels ?s (ch_fd ?c) = None" using new by simp
  have at: "chans ?s p = Some ?c" by simp
  obtain k' where k': "Epoller_updateChnnel ctl p ?s = Inr (?s\<lparr>chans := (chans ?s)(p \<mapsto> setFlag (next_flag ?c) ?c),
        chnnels := (chnnels ?s)(ch_fd ?c \<mapsto> p), epollFd := k'\<rparr>)"
    using updateChnnel_ok [OF con inv' at n] by blast
  then have "ok (keeps s) (Epoller_updateChnnel ctl p ?s)" by (auto simp: keeps_def set_chan_def)
  with updateChnnel_inv [OF con inv' at n] show ?thesis unfolding eq by (rule ok_conj)
qed

lemma Chnnel_remove_ok:
  assumes con: "epoll_contract ctl interest usable" and inv: "ep_inv interest usable None s" and op: "op_ok usable (Remove p) s"
  shows "ok (\<lambda>s'. ep_inv interest usable None s' \<and> keeps s s') (Chnnel_remove ctl p s)"
proof -
  obtain c where c: "chans s p = Some c" "isNoneEvent c" "ch_flag c \<noteq> cNew"
    "eventHandle s \<longrightarrow> currentActiveChnnel s = Some p \<or> p \<notin> set (activeChnnels s)" using op by auto
  let ?c = "c\<lparr>addedToLoop := False\<rparr>" and ?s = "set_chan p (c\<lparr>addedToLoop := False\<rparr>) s"
  have inv': "ep_inv interest usable None ?s" by (rule ep_inv_touch [OF inv c(1)]) simp_all
  have at: "chans ?s p = Some ?c" "isNoneEvent ?c" "ch_flag ?c \<noteq> cNew" using c by (simp_all add: isNoneEvent_def)
  have guard: "\<not> (eventHandle ?s \<and> \<not> (currentActiveChnnel ?s = Some p \<or> p \<notin> set (activeChnnels ?s)))"
    using c(4) by (simp add: set_chan_def)
  have eq: "Chnnel_remove ctl p s = Epoller_removeChnnel ctl p ?s"
    using c(1,2) ep_inv_assert [OF inv'] guard by (auto simp: Chnnel_remove_def removeChnnel_def chan_at_def)
  obtain k' where k': "Epoller_removeChnnel ctl p ?s = Inr (?s\<lparr>chans := (chans ?s)(p \<mapsto> setFlag cNew ?c),
      chnnels := (chnnels ?s)(ch_fd ?c := None), epollFd := k'\<rparr>)"
    using removeChnnel_ok [OF con inv' at] by blast
  then have "ok (keeps s) (Epoller_removeChnnel ctl p ?s)" by (auto simp: keeps_def set_chan_def)
  with removeChnnel_inv [OF con inv' at] show ?thesis unfolding eq by (rule ok_conj)
qed


lemma ep_inv_frame:
  assumes "ep_inv interest usable skip s" and "chans s' = chans s" and "chnnels s' = chnnels s" and "epollFd s' = epollFd s"
    and "inLoopThread s'"
  shows "ep_inv interest usable skip s'"
  using assms by (simp add: ep_inv_def chan_inv_def)

lemma do_op_ok:
  assumes con: "epoll_contract ctl interest usable" and inv: "ep_inv interest usable None s" and op: "op_ok usable op s"
  shows "ok (\<lambda>s'. ep_inv interest usable None s' \<and> keeps s s') (do_op ctl op s)"
proof -
  note ev = set_events_ok [OF con inv]
  show ?thesis
  proof (cases op)
    case (NewChnnel p fd)
    then show ?thesis using op ep_inv_new_chan [OF inv] by (auto simp: keeps_def set_chan_def)
  next
    case (Remove p)
    then show ?thesis using op Chnnel_remove_ok [OF con inv] by simp
  next
    case (Queue l f)
    have "ep_inv interest usable None (as_thread l (queueInLoop f) s)"
      by (rule ep_inv_frame [OF inv]) (simp_all add: as_thread_def queueInLoop_def push_functor_def wakeUp_def Let_def)
    then show ?thesis
      using Queue by (simp add: as_thread_def queueInLoop_def push_functor_def wakeUp_def Let_def keeps_def)
  next
    case (Quit l)
    have "ep_inv interest usable None (as_thread l el_quit s)"
      by (rule ep_inv_frame [OF inv]) (simp_all add: as_thread_def el_quit_def wakeUp_def Let_def)
    then show ?thesis using Quit by (simp add: as_thread_def el_quit_def wakeUp_def Let_def keeps_def)
  qed (use op ev in \<open>auto simp: enableReading_def enableWriting_def disableReading_def disableWriting_def diableAll_def\<close>)
qed

text \<open>A piece of user code that meets its obligations.\<close>

lemma ops_run_ok:
  "epoll_contract ctl interest usable \<Longrightarrow> ep_inv interest usable None s \<Longrightarrow> ops_ok ctl usable ops s \<Longrightarrow>
    ok (\<lambda>s'. ep_inv interest usable None s' \<and> keeps s s') (rfold (do_op ctl) ops s)"
proof (induction ops arbitrary: s)
  case Nil
  then show ?case by simp
next
  case (Cons op ops)
  then obtain t where t: "do_op ctl op s = Inr t" "ep_inv interest usable None t" "keeps s t" "ops_ok ctl usable ops t"
    using do_op_ok [OF Cons.prems(1,2), of op] by (auto simp: ok_iff)
  from Cons.IH [OF Cons.prems(1) t(2,4)] t(1,3) show ?case
    by (auto elim!: ok_mono intro: keeps_trans)
qed

lemma rfold_keeps:
  assumes "\<And>x t. x \<in> set xs \<Longrightarrow> I t \<Longrightarrow> keeps s t \<Longrightarrow> ok (\<lambda>t'. I t' \<and> keeps t t') (f x t)" and "I s"
  shows "ok (\<lambda>t. I t \<and> keeps s t) (rfold f xs s)"
proof (rule ok_rfold)
  fix x t
  assume x: "x \<in> set xs" and t: "I t \<and> keeps s t"
  then have "ok (\<lambda>t'. I t' \<and> keeps t t') (f x t)" using assms(1) by blast
  then show "ok (\<lambda>t. I t \<and> keeps s t) (f x t)" using t by (auto elim!: ok_mono intro: keeps_trans)
qed (use assms(2) in simp)

definition code_ok :: "('k \<Rightarrow> int \<rightharpoonup> events \<times> addr) \<Rightarrow> 'k epoll_ctl \<Rightarrow> int set \<Rightarrow> (('f, 'k) EventLoop \<Rightarrow> 'f op list) \<Rightarrow> bool" where
  "code_ok interest ctl usable code \<longleftrightarrow> (\<forall>s. ep_inv interest usable None s \<longrightarrow> ops_ok ctl usable (code s) s)"

lemma run_callback_ok:
  assumes "epoll_contract ctl interest usable" and "ep_inv interest usable None s" and "code_ok interest ctl usable (on_event p kind)"
  shows "ok (\<lambda>s'. ep_inv interest usable None s' \<and> keeps s s') (run_callback ctl on_event p kind s)"
proof (cases "p = wakeChnnel s")
  case True
  have "ep_inv interest usable None (el_handleRead s)"
    by (rule ep_inv_frame [OF assms(2)]) (use ep_invD(1) [OF assms(2)] in \<open>simp_all add: el_handleRead_def\<close>)
  then show ?thesis using True by (simp add: run_callback_def keeps_def el_handleRead_def)
next
  case False
  then show ?thesis
    using ops_run_ok [OF assms(1,2)] assms(2,3) by (simp add: run_callback_def code_ok_def)
qed

lemma handleEventWithGuard_ok:
  assumes con: "epoll_contract ctl interest usable" and inv: "ep_inv interest usable None s"
    and code: "\<And>p kind. code_ok interest ctl usable (on_event p kind)" and p: "p \<in> dom (chans s)"
  shows "ok (\<lambda>s'. ep_inv interest usable None s' \<and> keeps s s') (handleEventWithGuard ctl on_event t p s)"
proof -
  obtain c where c: "chans s p = Some c" using p by auto
  let ?s = "set_chan p (c\<lparr>eventHanding := True\<rparr>) s"
  have inv': "ep_inv interest usable None ?s" by (rule ep_inv_touch [OF inv c]) simp_all
  have k: "keeps s ?s" by (auto simp: keeps_def set_chan_def)
  have "ok (\<lambda>u. ep_inv interest usable None u \<and> keeps ?s u)
      (rfold (run_callback ctl on_event p) (events_dispatched t c) ?s)"
    by (rule rfold_keeps, erule run_callback_ok [OF con]) (rule code, rule inv')
  then obtain u where u: "rfold (run_callback ctl on_event p) (events_dispatched t c) ?s = Inr u"
    "ep_inv interest usable None u" "keeps ?s u" by (auto simp: ok_iff)
  then obtain d where d: "chans u p = Some d" by (auto simp: keeps_def)
  have "ep_inv interest usable None (set_chan p (d\<lparr>eventHanding := False\<rparr>) u)"
    by (rule ep_inv_touch [OF u(2) d]) simp_all
  moreover have "keeps u (set_chan p (d\<lparr>eventHanding := False\<rparr>) u)" by (auto simp: keeps_def set_chan_def)
  ultimately show ?thesis
    using c u(1,3) d k by (auto simp: handleEventWithGuard_def chan_at_def intro: keeps_trans)
qed

lemma handleEvent_ok:
  assumes con: "epoll_contract ctl interest usable" and inv: "ep_inv interest usable None s"
    and code: "\<And>p kind. code_ok interest ctl usable (on_event p kind)" and p: "p \<in> dom (chans s)"
  shows "ok (\<lambda>s'. ep_inv interest usable None s' \<and> keeps s s') (handleEvent ctl on_event t p s)"
proof -
  obtain c where "chans s p = Some c" using p by auto
  then show ?thesis
    using handleEventWithGuard_ok [OF assms] inv by (simp add: handleEvent_def chan_at_def)
qed

lemma dpPendingFunctors_ok:
  assumes con: "epoll_contract ctl interest usable" and inv: "ep_inv interest usable None s"
    and code: "\<And>f. code_ok interest ctl usable (on_functor f)"
  shows "ok (\<lambda>s'. ep_inv interest usable None s' \<and> dom (chans s) \<subseteq> dom (chans s') \<and> \<not> callPendingFunctors s' \<and>
    eventHandle s' = eventHandle s \<and> looping s' = looping s) (dpPendingFunctors ctl on_functor s)"
proof -
  let ?s = "s\<lparr>callPendingFunctors := True, pendingFunctors := []\<rparr>"
  have inv': "ep_inv interest usable None ?s"
    by (rule ep_inv_frame [OF inv]) (use ep_invD(1) [OF inv] in simp_all)
  have "ok (\<lambda>u. ep_inv interest usable None u \<and> keeps ?s u)
      (rfold (run_functor_op ctl on_functor) (pendingFunctors s) ?s)"
    by (rule rfold_keeps) (use ops_run_ok [OF con] code inv' in \<open>auto simp: run_functor_op_def code_ok_def\<close>)
  then obtain u where u: "rfold (run_functor_op ctl on_functor) (pendingFunctors s) ?s = Inr u"
    "ep_inv interest usable None u" "keeps ?s u" by (auto simp: ok_iff)
  have "ep_inv interest usable None (u\<lparr>callPendingFunctors := False\<rparr>)"
    by (rule ep_inv_frame [OF u(2)]) (use ep_invD(1) [OF u(2)] in simp_all)
  then show ?thesis using u(1,3) by (auto simp: dpPendingFunctors_def Let_def keeps_def)
qed


lemma watched_chan:
  assumes "ep_inv interest usable None s" and "interest (epollFd s) fd = Some (e, p)"
  shows "\<exists>c. chans s p = Some c \<and> ch_fd c = fd \<and> ch_flag c = cAdded \<and> ch_events c = e"
proof -
  note i = ep_invD [OF assms(1)]
  obtain r where "chnnels s fd = Some r" using i(4) [of fd] assms(2) by (cases "chnnels s fd") auto
  moreover then obtain c where "chans s r = Some c" "ch_fd c = fd" using i(3) by blast
  ultimately show ?thesis using i(2) [of r c] assms(2) by (auto simp: chan_inv_def)
qed

lemma poll_ok:
  fixes s :: "('f, 'k) EventLoop"
  assumes inv: "ep_inv interest usable None s" and wait: "wait_ok interest wait s"
  shows "ok (\<lambda>(active, s'). ep_inv interest usable None s' \<and> dom (chans s') = dom (chans s) \<and>
    active = (case wait of None \<Rightarrow> [] | Some evs \<Rightarrow> map snd evs) \<and> set active \<subseteq> dom (chans s) \<and>
    pendingFunctors s' = pendingFunctors s \<and> looping s' = looping s) (poll wait [] s)"
proof (cases wait)
  case None
  then show ?thesis using inv by (simp add: poll_def)
next
  case (Some evs)
  define D where "D = dom (chans s)"
  have evs: "length evs \<le> eventsSize s" "\<forall>(ev, p) \<in> set evs. p \<in> D"
    using wait watched_chan [OF inv] by (fastforce simp: wait_ok_def Some D_def)+
  have "ok (\<lambda>(active, s'). ep_inv interest usable None s' \<and> dom (chans s') = D \<and> active = as @ map snd evs \<and>
      eventsSize s' = eventsSize t \<and> pendingFunctors s' = pendingFunctors t \<and> looping s' = looping t)
    (rfold (\<lambda>(ev, p) (active, s). rbind (chan_at p s) (\<lambda>c.
            Inr (active @ [p], set_chan p (setRevents ev c) s))) evs (as, t))"
    if "ep_inv interest usable None t" "dom (chans t) = D" for as and t :: "('f, 'k) EventLoop"
    using evs(2) that
  proof (induction evs arbitrary: as t)
    case Nil
    then show ?case by simp
  next
    case (Cons x evs)
    obtain ev p where x: "x = (ev, p)" by (cases x)
    then obtain c where c: "chans t p = Some c" using Cons.prems by auto
    have "ep_inv interest usable None (set_chan p (setRevents ev c) t)"
      by (rule ep_inv_touch [OF Cons.prems(2) c]) (simp_all add: setRevents_def)
    moreover have "dom (chans (set_chan p (setRevents ev c) t)) = D" using Cons.prems(3) c by auto
    moreover have "\<forall>(ev, p) \<in> set evs. p \<in> D" using Cons.prems(1) by simp
    ultimately have IH: "ok (\<lambda>(active, s'). ep_inv interest usable None s' \<and> dom (chans s') = D \<and> active = (as @ [p]) @ map snd evs \<and>
        eventsSize s' = eventsSize (set_chan p (setRevents ev c) t) \<and>
        pendingFunctors s' = pendingFunctors (set_chan p (setRevents ev c) t) \<and> looping s' = looping (set_chan p (setRevents ev c) t))
      (rfold (\<lambda>(ev, p) (active, s). rbind (chan_at p s) (\<lambda>c.
            Inr (active @ [p], set_chan p (setRevents ev c) s))) evs (as @ [p], set_chan p (setRevents ev c) t))"
      by (intro Cons.IH)
    then show ?case using x c by (simp add: chan_at_def)
  qed
  from this [OF inv, of "[]"] obtain t where t:
    "rfold (\<lambda>(ev, p) (active, s). rbind (chan_at p s) (\<lambda>c.
            Inr (active @ [p], set_chan p (setRevents ev c) s))) evs ([], s) = Inr (map snd evs, t)"
    "ep_inv interest usable None t" "dom (chans t) = D" "eventsSize t = eventsSize s"
    "pendingFunctors t = pendingFunctors s" "looping t = looping s" by (auto simp: D_def ok_iff)
  have "ep_inv interest usable None (t\<lparr>eventsSize := n\<rparr>)" for n
    by (rule ep_inv_frame [OF t(2)]) (use ep_invD(1) [OF t(2)] in simp_all)
  then show ?thesis
    using evs t Some inv by (auto simp: poll_def fillActiveChnnels_def D_def)
qed

lemma loop_once_ok:
  fixes s :: "('f, 'k) EventLoop"
  assumes con: "epoll_contract ctl interest usable" and inv: "ep_inv interest usable None s"
    and ev: "\<And>p kind. code_ok interest ctl usable (on_event p kind)" and fn: "\<And>f. code_ok interest ctl usable (on_functor f)"
    and wait: "wait_ok interest wait s"
  shows "ok (\<lambda>s'. ep_inv interest usable None s' \<and> \<not> eventHandle s' \<and> \<not> callPendingFunctors s' \<and> looping s' = looping s)
    (loop_once ctl on_event on_functor (wait, now) s)"
proof -
  let ?s = "s\<lparr>activeChnnels := []\<rparr>"
  have inv': "ep_inv interest usable None ?s" by (rule ep_inv_frame [OF inv]) (use ep_invD(1) [OF inv] in simp_all)
  have "wait_ok interest wait ?s" using wait by (simp add: wait_ok_def split: option.splits)
  from poll_ok [OF inv' this] obtain active t where t: "poll wait [] ?s = Inr (active, t)" "ep_inv interest usable None t"
    "set active \<subseteq> dom (chans t)" "looping t = looping s" by (auto simp: ok_iff)
  let ?t = "t\<lparr>activeChnnels := active, epollReturnTime := now, eventHandle := True\<rparr>"
  have t': "ep_inv interest usable None ?t" by (rule ep_inv_frame [OF t(2)]) (use ep_invD(1) [OF t(2)] in simp_all)
  have "ok (\<lambda>u. ep_inv interest usable None u \<and> keeps ?t u)
      (rfold (\<lambda>p s. handleEvent ctl on_event now p (s\<lparr>currentActiveChnnel := Some p\<rparr>)) active ?t)"
  proof (rule rfold_keeps)
    fix p and v :: "('f, 'k) EventLoop"
    assume p: "p \<in> set active" and v: "ep_inv interest usable None v" "keeps ?t v"
    let ?v = "v\<lparr>currentActiveChnnel := Some p\<rparr>"
    have "ep_inv interest usable None ?v" by (rule ep_inv_frame [OF v(1)]) (use ep_invD(1) [OF v(1)] in simp_all)
    moreover have "p \<in> dom (chans ?v)" using p t(3) v(2) by (auto simp: keeps_def)
    ultimately show "ok (\<lambda>w. ep_inv interest usable None w \<and> keeps v w) (handleEvent ctl on_event now p ?v)"
      using handleEvent_ok [OF con _ ev, where p = p and t = now and s = ?v] by (auto simp: keeps_def elim!: ok_mono)
  qed (rule t')
  then obtain u where u: "rfold (\<lambda>p s. handleEvent ctl on_event now p (s\<lparr>currentActiveChnnel := Some p\<rparr>)) active ?t = Inr u"
    "ep_inv interest usable None u" "looping u = looping s" using t(4) by (auto simp: ok_iff keeps_def)
  let ?u = "u\<lparr>currentActiveChnnel := None, eventHandle := False\<rparr>"
  have "ep_inv interest usable None ?u" by (rule ep_inv_frame [OF u(2)]) (use ep_invD(1) [OF u(2)] in simp_all)
  then have "ok (\<lambda>s'. ep_inv interest usable None s' \<and> dom (chans ?u) \<subseteq> dom (chans s') \<and> \<not> callPendingFunctors s' \<and>
      eventHandle s' = eventHandle ?u \<and> looping s' = looping ?u) (dpPendingFunctors ctl on_functor ?u)"
    by (rule dpPendingFunctors_ok [OF con _ fn])
  moreover have "loop_once ctl on_event on_functor (wait, now) s = dpPendingFunctors ctl on_functor ?u"
    using t(1) u(1) by (simp add: loop_once_def Let_def)
  ultimately show ?thesis using u(3) by (auto elim!: ok_mono)
qed


section \<open>The loop among other threads\<close>

datatype 'f phase = Polling | Handling | Running "'f list"

text \<open>A configuration: the phase of the loop, its state, the number of other threads that have pushed a
  functor and not yet called \<open>wakeUp\<close>, the functors run so far and all functors ever submitted.\<close>

type_synonym ('f, 'k) config = "'f phase \<times> ('f, 'k) EventLoop \<times> nat \<times> 'f list \<times> 'f list"

inductive el_step :: "('f, 'k) config \<Rightarrow> ('f, 'k) config \<Rightarrow> bool" where
  other_push: "el_step (ph, s, n, rs, sub) (ph, push_functor f s, n + 1, rs, sub @ [f])"
| other_wake: "el_step (ph, s, Suc n, rs, sub) (ph, wakeUp s, n, rs, sub)"
| poll_returns: "el_step (Polling, s, n, rs, sub) (Handling, s, n, rs, sub)"
| wake_event: "el_step (Handling, s, n, rs, sub) (Handling, el_handleRead s, n, rs, sub)"
| queue_event: "el_step (Handling, s, n, rs, sub) (Handling, queueInLoop f s, n, rs, sub @ [f])"
| swap: "el_step (Handling, s, n, rs, sub)
    (Running (pendingFunctors s), s\<lparr>callPendingFunctors := True, pendingFunctors := []\<rparr>, n, rs, sub)"
| call: "el_step (Running (f # vec), s, n, rs, sub) (Running vec, s, n, rs @ [f], sub)"
| queue_functor: "el_step (Running vec, s, n, rs, sub) (Running vec, queueInLoop f s, n, rs, sub @ [f])"
| finish: "el_step (Running [], s, n, rs, sub) (Polling, s\<lparr>callPendingFunctors := False\<rparr>, n, rs, sub)"

inductive el_reach :: "('f, 'k) config \<Rightarrow> bool" where
  start: "inLoopThread s \<Longrightarrow> pendingFunctors s = [] \<Longrightarrow> \<not> callPendingFunctors s \<Longrightarrow> el_reach (Polling, s, 0, [], [])"
| step: "el_reach c \<Longrightarrow> el_step c c' \<Longrightarrow> el_reach c'"

inductive_cases el_stepE: "el_step c c'"

fun being_run :: "'f phase \<Rightarrow> 'f list" where
  "being_run (Running vec) = vec"
| "being_run _ = []"

fun el_inv :: "('f, 'k) config \<Rightarrow> bool" where
  "el_inv (ph, s, n, rs, sub) \<longleftrightarrow> inLoopThread s \<and> (callPendingFunctors s \<longleftrightarrow> (\<exists>vec. ph = Running vec)) \<and>
    sub = rs @ being_run ph @ pendingFunctors s \<and>
    (ph \<noteq> Handling \<longrightarrow> pendingFunctors s \<noteq> [] \<longrightarrow> 0 < wakeCount s + n)"

lemmas queue_defs = queueInLoop_def push_functor_def wakeUp_def el_handleRead_def Let_def

lemma el_inv_step: "el_step c c' \<Longrightarrow> el_inv c \<Longrightarrow> el_inv c'"
  by (induction rule: el_step.induct) (auto simp: queue_defs)

lemma el_reach_inv: "el_reach c \<Longrightarrow> el_inv c"
  by (induction rule: el_reach.induct) (auto intro: el_inv_step)

section \<open>Properties\<close>



text \<open>A concrete kernel for examples: its state is the interest list.\<close>

fun demo_ctl :: "(int \<rightharpoonup> events \<times> addr) epoll_ctl" where
  "demo_ctl EPOLL_CTL_ADD fd e k = (if k fd = None then (True, k(fd \<mapsto> e)) else (False, k))"
| "demo_ctl EPOLL_CTL_MOD fd e k = (if k fd \<noteq> None then (True, k(fd \<mapsto> e)) else (False, k))"
| "demo_ctl EPOLL_CTL_DEL fd e k = (if k fd \<noteq> None then (True, k(fd := None)) else (False, k))"

lemma demo_ctl_contract: "epoll_contract demo_ctl (\<lambda>k. k) UNIV"
  by (auto simp: epoll_contract_def)

definition demo_loop :: "(nat, int \<rightharpoonup> events \<times> addr) EventLoop" where
  "demo_loop = \<lparr>chans = Map.empty, chnnels = Map.empty, eventsSize = cEventsInitSize,
     epollFd = Map.empty, inLoopThread = True, looping = False, quit = False, activeChnnels = [],
     currentActiveChnnel = None, epollReturnTime = Time_default, wakeChnnel = 0, wakeCount = 0,
     pendingFunctors = [], callPendingFunctors = False, eventHandle = False, alive = {}\<rparr>"

lemma demo_loop_inv: "ep_inv (\<lambda>k. k) UNIV None demo_loop"
  by (simp add: demo_loop_def ep_inv_def)



text \<open>C12: The kernel watches what the channels say: after any operations of user code that meets its
  obligations, no assertion has failed, no system call was refused, and the interest list of epoll
  holds exactly the events of the channels with flag \<open>cAdded\<close>, under the descriptor and with the
  address of the channel.\<close>

theorem interest_mirrors_channels:
  assumes "epoll_contract ctl interest usable" and "ep_inv interest usable None s" and "ops_ok ctl usable ops s"
  shows "\<exists>s'. rfold (do_op ctl) ops s = Inr s' \<and> ep_inv interest usable None s' \<and>
    (\<forall>fd e p. interest (epollFd s') fd = Some (e, p) \<longleftrightarrow>
      (\<exists>c. chans s' p = Some c \<and> ch_fd c = fd \<and> ch_flag c = cAdded \<and> ch_events c = e))"
proof -
  obtain s' where s': "rfold (do_op ctl) ops s = Inr s'" "ep_inv interest usable None s'"
    using ops_run_ok [OF assms] by (auto simp: ok_iff)
  have "interest (epollFd s') fd = Some (e, p)"
    if "chans s' p = Some c" "ch_fd c = fd" "ch_flag c = cAdded" "ch_events c = e" for fd e p c
    using ep_invD(2) [OF s'(2) that(1)] that by (auto simp: chan_inv_def flag_consts)
  then show ?thesis using s' watched_chan [OF s'(2)] by blast
qed

theorem interest_mirrors_channels_witness:
  "\<exists>s'. rfold (do_op demo_ctl) [NewChnnel 1 5, EnableReading 1, EnableWriting 1, DiableAll 1, Remove 1] demo_loop = Inr s' \<and>
    ep_inv (\<lambda>k. k) UNIV None s'"
proof -
  have "ops_ok demo_ctl UNIV [NewChnnel 1 5, EnableReading 1, EnableWriting 1, DiableAll 1, Remove 1] demo_loop"
    by (simp add: demo_loop_def enableReading_def enableWriting_def diableAll_def set_events_def Chnnel_update_def
        updateChnnel_def Epoller_updateChnnel_def Epoller_update_def chan_at_def set_chan_def setFlag_def Chnnel_new_def
        flag_consts assertInLoopThread_def isNoneEvent_def poll_consts Let_def Chnnel_remove_def removeChnnel_def
        Epoller_removeChnnel_def)
  from interest_mirrors_channels [OF demo_ctl_contract demo_loop_inv this] show ?thesis by blast
qed



text \<open>\<open>EventLoop::hasChnnel\<close> aborts whoever calls it, so that with assertions compiled in a channel that
  is not registered any more cannot be destroyed on the loop's own thread.\<close>

theorem hasChnnel_aborts:
  assumes "chans s p = Some c" and "\<not> eventHanding c" and "\<not> addedToLoop c" and "inLoopThread s"
  shows "hasChnnel p s = Inl Abort \<and> Chnnel_delete p s = Inl Abort"
  using assms by (simp add: hasChnnel_def abortNotInLoopThread_def Chnnel_delete_def chan_at_def)

theorem hasChnnel_aborts_witness:
  "let s = set_chan 1 (Chnnel_new 5) demo_loop in hasChnnel 1 s = Inl Abort \<and> Chnnel_delete 1 s = Inl Abort"
  unfolding Let_def by (rule hasChnnel_aborts [of _ _ "Chnnel_new 5"]) (simp_all add: Chnnel_new_def demo_loop_def)

text \<open>C14: The loop ends with the turn in which someone calls \<open>quit\<close>: later outcomes of \<open>epoll_wait\<close> are
  not waited for, and the loop can be started again.\<close>

theorem loop_quits:
  assumes "loop ctl on_event on_functor ws s = Inr s'" and "quit s'"
  shows "loop ctl on_event on_functor (ws @ ws') s = Inr s' \<and> \<not> looping s'"
proof -
  have "loop_while ctl on_event on_functor (ws @ ws') t = Inr t'"
    if "loop_while ctl on_event on_functor ws t = Inr t'" "quit t'" for t t'
    using that
  proof (induction ws arbitrary: t)
    case Nil
    then show ?case by (cases ws') simp_all
  next
    case (Cons w ws)
    then show ?case by (auto simp: rbind_eq_Inr split: if_splits)
  qed
  moreover have l: "\<not> looping s" "inLoopThread s"
    using assms(1) by (auto simp: loop_def assertInLoopThread_def split: if_splits)
  moreover obtain t where t: "loop_while ctl on_event on_functor ws (s\<lparr>looping := True, quit := False\<rparr>) = Inr t"
    using assms(1) l by (cases "loop_while ctl on_event on_functor ws (s\<lparr>looping := True, quit := False\<rparr>)")
      (auto simp: loop_def assertInLoopThread_def)
  moreover have s': "s' = (if quit t then t\<lparr>looping := False\<rparr> else t)"
    using assms(1) l t by (simp add: loop_def assertInLoopThread_def)
  moreover have "quit t" using s' assms(2) by (simp split: if_splits)
  ultimately have "loop_while ctl on_event on_functor (ws @ ws') (s\<lparr>looping := True, quit := False\<rparr>) = Inr t" by blast
  then show ?thesis using l s' \<open>quit t\<close> by (simp add: loop_def assertInLoopThread_def)
qed

theorem loop_quits_witness:
  "\<exists>s'. loop demo_ctl (\<lambda>p kind s. []) (\<lambda>f s. [Quit True]) ([(None, Time 1)] @ [(None, Time 2)])
      (queueInLoop 3 demo_loop) = Inr s' \<and> \<not> looping s'"
proof -
  obtain s' where s': "loop demo_ctl (\<lambda>p kind s. []) (\<lambda>f s. [Quit True]) [(None, Time 1)] (queueInLoop 3 demo_loop) = Inr s'"
    "quit s'"
    by (simp add: loop_def demo_loop_def assertInLoopThread_def loop_once_def poll_def dpPendingFunctors_def
        run_functor_op_def as_thread_def el_quit_def queue_defs)
  from loop_quits [OF s', of "[(None, Time 2)]"] show ?thesis by blast
qed

end
