(* ===== verification/TcpConnection.thy ===== *)
theory TcpConnection
  imports Buffer EventLoop
begin

text \<open>
  \<^verbatim>\<open>src/netlib/net/TcpConnection.h\<close> and \<^verbatim>\<open>TcpConnection.cc\<close>: one TCP connection, its state machine, its buffers and
  its channel.

  The record has the members that change. \<open>tc_chnnel\<close> is the connection's channel; \<open>chan_set\<close> and
  \<open>chan_unregister\<close> are what the operations of the event loop do to it. \<open>inLoop_c\<close> says whether
  the caller runs on the loop's thread; a functor for the loop is run in place or put into \<open>posted\<close>.
  What the connection does to its surroundings is recorded: \<open>wire\<close> are the bytes the kernel accepted
  for sending, \<open>wrShutdown\<close> that the write side was shut down, \<open>called\<close> the user callbacks made, and
  \<open>delayed\<close> the timers started. What a callback does to the connection are operations that follow.

  \<^verbatim>\<open>write(2)\<close> is the argument \<open>w\<close>: from the number of bytes offered to an errno or the number of bytes
  accepted. \<open>ndebug\<close> says whether the assertion of \<open>handleClose\<close> is compiled out, as in the release build.
\<close>

section \<open>Model\<close>

datatype StateE = cDisconnected | cConnecting | cConnected | cDisconnecting

datatype conn_functor =
    SendInLoop "byte list" | ShutdownInLoop | ForceCloseInLoop | StartReadInLoop | StopReadInLoop
  | WriteCompleteCallBack_f | HightWaterMarkCallBack_f int

datatype conn_call =
    ConnectionCallBack_c bool | MessageCallBack_c "byte list" Time | CloseCallBack_c
  | WriteCompleteCallBack_c | HightWaterMarkCallBack_c int

record TcpConnection =
  tc_state :: StateE
  reading :: bool
  tc_chnnel :: Chnnel
  inputBuffer :: buffer
  outputBuffer :: buffer
  hightWaterMark :: int
  writeCompleteSet :: bool
  hightWaterMarkSet :: bool
  keepAlive :: bool
  tcpNoDelay :: bool
  inLoop_c :: bool
  posted :: "conn_functor list"
  delayed :: "double list"
  wire :: "byte list"
  wrShutdown :: bool
  called :: "conn_call list"

type_synonym write_call = "nat \<Rightarrow> int + nat"

definition EWOULDBLOCK :: int where "EWOULDBLOCK = 11"
definition EPIPE :: int where "EPIPE = 32"
definition ECONNRESET :: int where "ECONNRESET = 104"

subsection \<open>The channel\<close>

definition chan_set :: "(events \<Rightarrow> events) \<Rightarrow> Chnnel \<Rightarrow> Chnnel" where
  "chan_set f c = (let c = c\<lparr>ch_events := f (ch_events c), addedToLoop := True\<rparr> in setFlag (next_flag c) c)"

definition chan_unregister :: "Chnnel \<Rightarrow> Chnnel res" where
  "chan_unregister c =
    (if isNoneEvent c \<and> ch_flag c \<noteq> cNew then Inr (setFlag cNew (c\<lparr>addedToLoop := False\<rparr>)) else Inl AssertFail)"

subsection \<open>Construction\<close>

definition TcpConnection_new :: "int \<Rightarrow> TcpConnection res" where
  "TcpConnection_new sockfd =
    rbind (Buffer_new cInitialSize) (\<lambda>inb.
    rbind (Buffer_new cInitialSize) (\<lambda>outb.
    Inr \<lparr>tc_state = cConnecting, reading = True,
      tc_chnnel = setCloseCallBack (setErrorCallBack (setWriteCallBack (setReadCallBack (Chnnel_new sockfd)))),
      inputBuffer = inb, outputBuffer = outb, hightWaterMark = 64 * 1024 * 1024, writeCompleteSet = False,
      hightWaterMarkSet = False, keepAlive = True, tcpNoDelay = False, inLoop_c = True, posted = [],
      delayed = [], wire = [], wrShutdown = False, called = []\<rparr>))"

definition TcpConnection_delete :: "TcpConnection \<Rightarrow> unit res" where
  "TcpConnection_delete c = (if tc_state c = cDisconnected then Inr () else Inl AssertFail)"

definition setHightWaterMarkCallBack :: "int \<Rightarrow> TcpConnection \<Rightarrow> TcpConnection" where
  "setHightWaterMarkCallBack mark c = c\<lparr>hightWaterMarkSet := True, hightWaterMark := mark\<rparr>"

definition setWriteCompleteCallBack :: "TcpConnection \<Rightarrow> TcpConnection" where
  "setWriteCompleteCallBack c = c\<lparr>writeCompleteSet := True\<rparr>"

definition stateToString :: "StateE \<Rightarrow> string" where
  "stateToString s = (case s of cDisconnected \<Rightarrow> ''Disconnected'' | cDisconnecting \<Rightarrow> ''Disconnecting''
    | cConnected \<Rightarrow> ''Connected'' | cConnecting \<Rightarrow> ''Connecting'')"

definition defaultMessageCallBack :: "TcpConnection \<Rightarrow> TcpConnection" where
  "defaultMessageCallBack c = c\<lparr>inputBuffer := retrieveAll (inputBuffer c)\<rparr>"

definition tc_setTcpNoDelay :: "bool \<Rightarrow> TcpConnection \<Rightarrow> TcpConnection" where
  "tc_setTcpNoDelay on c = c\<lparr>tcpNoDelay := on\<rparr>"

definition tc_assertInLoopThread :: "TcpConnection \<Rightarrow> unit res" where
  "tc_assertInLoopThread c = (if inLoop_c c then Inr () else Inl Abort)"

definition tc_queueInLoop :: "conn_functor \<Rightarrow> TcpConnection \<Rightarrow> TcpConnection" where
  "tc_queueInLoop f c = c\<lparr>posted := posted c @ [f]\<rparr>"

definition tc_call :: "conn_call \<Rightarrow> TcpConnection \<Rightarrow> TcpConnection" where
  "tc_call k c = c\<lparr>called := called c @ [k]\<rparr>"

subsection \<open>Sending\<close>

text \<open>The direct write of \<open>sendInLoop\<close>: the number of bytes written, whether the error is fatal, and the
  connection.\<close>

definition tc_write :: "write_call \<Rightarrow> byte list \<Rightarrow> TcpConnection \<Rightarrow> (int + nat) \<times> TcpConnection" where
  "tc_write w data c =
    (case w (length data) of
       Inl e \<Rightarrow> (Inl e, c)
     | Inr n \<Rightarrow> (Inr n, c\<lparr>wire := wire c @ take n data\<rparr>))"

definition write_direct :: "write_call \<Rightarrow> byte list \<Rightarrow> TcpConnection \<Rightarrow> nat \<times> bool \<times> TcpConnection" where
  "write_direct w message c =
    (if \<not> isWriting (tc_chnnel c) \<and> readAbleBytes (outputBuffer c) = 0
     then case tc_write w message c of
         (Inr n, c) \<Rightarrow>
           (n, False, if length message - n = 0 \<and> writeCompleteSet c then tc_queueInLoop WriteCompleteCallBack_f c else c)
       | (Inl e, c) \<Rightarrow> (0, e \<noteq> EWOULDBLOCK \<and> (e = EPIPE \<or> e = ECONNRESET), c)
     else (0, False, c))"

definition sendInLoop :: "write_call \<Rightarrow> byte list \<Rightarrow> TcpConnection \<Rightarrow> TcpConnection res" where
  "sendInLoop w message c =
    rbind (tc_assertInLoopThread c) (\<lambda>_.
    if tc_state c = cDisconnected then Inr c else
    let (nwrote, faulterron, c) = write_direct w message c;
        remaining = length message - nwrote
    in if \<not> faulterron \<and> 0 < remaining
       then
         let oldLen = readAbleBytes (outputBuffer c);
             c = (if hightWaterMark c \<le> oldLen + int remaining \<and> oldLen < hightWaterMark c \<and> hightWaterMarkSet c
                  then tc_queueInLoop (HightWaterMarkCallBack_f (oldLen + int remaining)) c else c)
         in rbind (Buffer_append (drop nwrote message) (outputBuffer c)) (\<lambda>b.
            let c = c\<lparr>outputBuffer := b\<rparr>
            in Inr (if \<not> isWriting (tc_chnnel c)
                    then c\<lparr>tc_chnnel := chan_set (\<lambda>e. e OR cWriteEvent) (tc_chnnel c)\<rparr> else c))
       else Inr c)"

definition send_string :: "write_call \<Rightarrow> byte list \<Rightarrow> TcpConnection \<Rightarrow> TcpConnection res" where
  "send_string w message c =
    (if tc_state c = cConnected
     then if inLoop_c c then sendInLoop w message c else Inr (tc_queueInLoop (SendInLoop message) c)
     else Inr c)"

text \<open>\<open>send(const void*, int)\<close> makes a string of its argument.\<close>

definition send_data :: "write_call \<Rightarrow> byte list \<Rightarrow> TcpConnection \<Rightarrow> TcpConnection res" where
  "send_data w message c = send_string w message c"

definition send_buffer :: "write_call \<Rightarrow> buffer \<Rightarrow> TcpConnection \<Rightarrow> (buffer \<times> TcpConnection) res" where
  "send_buffer w message c =
    (if tc_state c = cConnected
     then if inLoop_c c
       then rbind (read_at (readerIndex message) (readAbleBytes message) message) (\<lambda>bs.
            rbind (sendInLoop w bs c) (\<lambda>c. Inr (retrieveAll message, c)))
       else rbind (retrieveAllAsString message) (\<lambda>(bs, message). Inr (message, tc_queueInLoop (SendInLoop bs) c))
     else Inr (message, c))"

subsection \<open>Closing\<close>

definition shutdownInLoop :: "TcpConnection \<Rightarrow> TcpConnection res" where
  "shutdownInLoop c =
    rbind (tc_assertInLoopThread c) (\<lambda>_.
    Inr (if \<not> isWriting (tc_chnnel c) then c\<lparr>wrShutdown := True\<rparr> else c))"

definition tc_shutdown :: "TcpConnection \<Rightarrow> TcpConnection res" where
  "tc_shutdown c =
    (if tc_state c = cConnected
     then let c = c\<lparr>tc_state := cDisconnecting\<rparr>
          in if inLoop_c c then shutdownInLoop c else Inr (tc_queueInLoop ShutdownInLoop c)
     else Inr c)"

definition handleClose :: "bool \<Rightarrow> TcpConnection \<Rightarrow> TcpConnection res" where
  "handleClose ndebug c =
    rbind (tc_assertInLoopThread c) (\<lambda>_.
    if \<not> ndebug \<and> \<not> (tc_state c = cDisconnecting \<or> tc_state c = cDisconnected) then Inl AssertFail
    else Inr (tc_call CloseCallBack_c (tc_call (ConnectionCallBack_c False)
           (c\<lparr>tc_state := cDisconnected, tc_chnnel := chan_set (\<lambda>e. cNonEvent) (tc_chnnel c)\<rparr>))))"

definition forceCloseInLoop :: "bool \<Rightarrow> TcpConnection \<Rightarrow> TcpConnection res" where
  "forceCloseInLoop ndebug c =
    rbind (tc_assertInLoopThread c) (\<lambda>_.
    if tc_state c = cConnected \<or> tc_state c = cDisconnecting then handleClose ndebug c else Inr c)"

definition forceClose :: "TcpConnection \<Rightarrow> TcpConnection" where
  "forceClose c =
    (if tc_state c = cConnected \<or> tc_state c = cDisconnecting
     then tc_queueInLoop ForceCloseInLoop (c\<lparr>tc_state := cDisconnecting\<rparr>) else c)"

text \<open>The timer calls \<open>forceClose\<close> when the connection still exists.\<close>

definition forceCloseWithDelay :: "double \<Rightarrow> TcpConnection \<Rightarrow> TcpConnection" where
  "forceCloseWithDelay seconds c =
    (if tc_state c = cConnected \<or> tc_state c = cDisconnecting
     then c\<lparr>tc_state := cDisconnecting, delayed := delayed c @ [seconds]\<rparr> else c)"

definition conncetDestoryed :: "TcpConnection \<Rightarrow> TcpConnection res" where
  "conncetDestoryed c =
    rbind (tc_assertInLoopThread c) (\<lambda>_.
    let c = (if tc_state c = cConnected
             then tc_call (ConnectionCallBack_c False)
               (c\<lparr>tc_state := cDisconnected, tc_chnnel := chan_set (\<lambda>e. cNonEvent) (tc_chnnel c)\<rparr>)
             else c)
    in rbind (chan_unregister (tc_chnnel c)) (\<lambda>ch. Inr (c\<lparr>tc_chnnel := ch\<rparr>)))"

subsection \<open>Establishing, reading and writing\<close>

definition connectEstablished :: "nat \<Rightarrow> TcpConnection \<Rightarrow> TcpConnection res" where
  "connectEstablished self c =
    rbind (tc_assertInLoopThread c) (\<lambda>_.
    if tc_state c \<noteq> cConnecting then Inl AssertFail
    else Inr (tc_call (ConnectionCallBack_c True)
           (c\<lparr>tc_state := cConnected,
              tc_chnnel := chan_set (\<lambda>e. e OR cReadEvent) (tie self (tc_chnnel c))\<rparr>)))"

definition startReadInLoop :: "TcpConnection \<Rightarrow> TcpConnection res" where
  "startReadInLoop c =
    rbind (tc_assertInLoopThread c) (\<lambda>_.
    Inr (if \<not> reading c \<or> \<not> isReading (tc_chnnel c)
         then c\<lparr>tc_chnnel := chan_set (\<lambda>e. e OR cReadEvent) (tc_chnnel c), reading := True\<rparr> else c))"

definition stopReadInLoop :: "TcpConnection \<Rightarrow> TcpConnection res" where
  "stopReadInLoop c =
    rbind (tc_assertInLoopThread c) (\<lambda>_.
    Inr (if reading c \<or> isReading (tc_chnnel c)
         then c\<lparr>tc_chnnel := chan_set (\<lambda>e. e AND NOT cReadEvent) (tc_chnnel c), reading := False\<rparr> else c))"

definition startRead :: "TcpConnection \<Rightarrow> TcpConnection res" where
  "startRead c = (if inLoop_c c then startReadInLoop c else Inr (tc_queueInLoop StartReadInLoop c))"

definition stopRead :: "TcpConnection \<Rightarrow> TcpConnection res" where
  "stopRead c = (if inLoop_c c then stopReadInLoop c else Inr (tc_queueInLoop StopReadInLoop c))"

text \<open>When \<open>readFd\<close> fails, \<open>handleError\<close> reads the socket's error and logs it.\<close>

definition tc_handleRead :: "bool \<Rightarrow> (nat \<Rightarrow> int + byte list) \<Rightarrow> Time \<Rightarrow> TcpConnection \<Rightarrow> TcpConnection res" where
  "tc_handleRead ndebug rv recviveTime c =
    rbind (tc_assertInLoopThread c) (\<lambda>_.
    rbind (readFd rv (inputBuffer c)) (\<lambda>(n, savedErrno, b).
    let c = c\<lparr>inputBuffer := b\<rparr> in
    if 0 < n then Inr (tc_call (MessageCallBack_c (content b) recviveTime) c)
    else if n = 0 then handleClose ndebug c
    else Inr c))"

definition handleWrite :: "write_call \<Rightarrow> TcpConnection \<Rightarrow> TcpConnection res" where
  "handleWrite w c =
    rbind (tc_assertInLoopThread c) (\<lambda>_.
    if isWriting (tc_chnnel c)
    then rbind (read_at (readerIndex (outputBuffer c)) (readAbleBytes (outputBuffer c)) (outputBuffer c)) (\<lambda>data.
      case tc_write w data c of
        (Inl e, c) \<Rightarrow> Inr c
      | (Inr n, c) \<Rightarrow>
          if 0 < n
          then rbind (retrieve (int n) (outputBuffer c)) (\<lambda>b.
            let c = c\<lparr>outputBuffer := b\<rparr>
            in if readAbleBytes b = 0
               then
                 let c = c\<lparr>tc_chnnel := chan_set (\<lambda>e. e AND NOT cWriteEvent) (tc_chnnel c)\<rparr>;
                     c = (if writeCompleteSet c then tc_queueInLoop WriteCompleteCallBack_f c else c)
                 in if tc_state c = cDisconnecting then shutdownInLoop c else Inr c
               else Inr c)
          else Inr c)
    else Inr c)"

text \<open>Running a functor the connection posted, on the loop's thread.\<close>

fun run_posted :: "bool \<Rightarrow> write_call \<Rightarrow> conn_functor \<Rightarrow> TcpConnection \<Rightarrow> TcpConnection res" where
  "run_posted ndebug w (SendInLoop m) c = sendInLoop w m c"
| "run_posted ndebug w ShutdownInLoop c = shutdownInLoop c"
| "run_posted ndebug w ForceCloseInLoop c = forceCloseInLoop ndebug c"
| "run_posted ndebug w StartReadInLoop c = startReadInLoop c"
| "run_posted ndebug w StopReadInLoop c = stopReadInLoop c"
| "run_posted ndebug w WriteCompleteCallBack_f c = Inr (tc_call WriteCompleteCallBack_c c)"
| "run_posted ndebug w (HightWaterMarkCallBack_f n) c = Inr (tc_call (HightWaterMarkCallBack_c n) c)"

subsection \<open>All operations\<close>

text \<open>The flag is whether the caller runs on the loop's thread. \<open>RunPosted\<close> runs the functor at the head of
  the queue, \<open>HangUp\<close> is the channel's close callback, \<open>Consume\<close> the user's reading of the input buffer.\<close>

datatype tc_event =
    Established nat | Send bool "byte list" write_call | Writable write_call
  | Readable_c "nat \<Rightarrow> int + byte list" Time | HangUp | Shutdown bool | ForceClose bool
  | DelayedForceClose bool double | StartRead bool | StopRead bool | RunPosted write_call | Destroyed | Consume

definition on_thread :: "bool \<Rightarrow> (TcpConnection \<Rightarrow> TcpConnection res) \<Rightarrow> TcpConnection \<Rightarrow> TcpConnection res" where
  "on_thread l f c = rbind (f (c\<lparr>inLoop_c := l\<rparr>)) (\<lambda>c. Inr (c\<lparr>inLoop_c := True\<rparr>))"

fun tc_step :: "bool \<Rightarrow> tc_event \<Rightarrow> TcpConnection \<Rightarrow> TcpConnection res" where
  "tc_step ndebug (Established self) c = connectEstablished self c"
| "tc_step ndebug (Send l m w) c = on_thread l (send_string w m) c"
| "tc_step ndebug (Writable w) c = handleWrite w c"
| "tc_step ndebug (Readable_c rv t) c = tc_handleRead ndebug rv t c"
| "tc_step ndebug HangUp c = handleClose ndebug c"
| "tc_step ndebug (Shutdown l) c = on_thread l tc_shutdown c"
| "tc_step ndebug (ForceClose l) c = Inr (forceClose c)"
| "tc_step ndebug (DelayedForceClose l d) c = Inr (forceCloseWithDelay d c)"
| "tc_step ndebug (StartRead l) c = on_thread l startRead c"
| "tc_step ndebug (StopRead l) c = on_thread l stopRead c"
| "tc_step ndebug (RunPosted w) c =
    (case posted c of [] \<Rightarrow> Inr c | f # fs \<Rightarrow> run_posted ndebug w f (c\<lparr>posted := fs\<rparr>))"
| "tc_step ndebug Destroyed c = conncetDestoryed c"
| "tc_step ndebug Consume c = Inr (defaultMessageCallBack c)"

section \<open>Specification\<close>

text \<open>\<^verbatim>\<open>write(2)\<close> accepts at most as many bytes as it is offered.\<close>

definition write_contract :: "write_call \<Rightarrow> bool" where
  "write_contract w \<longleftrightarrow> (\<forall>len n. w len = Inr n \<longrightarrow> n \<le> len)"

definition tc_inv :: "TcpConnection \<Rightarrow> bool" where
  "tc_inv c \<longleftrightarrow> inLoop_c c \<and> buffer_inv (inputBuffer c) \<and> buffer_inv (outputBuffer c) \<and>
    (tc_state c \<noteq> cDisconnected \<longrightarrow> isWriting (tc_chnnel c) = (content (outputBuffer c) \<noteq> [])) \<and>
    (tc_state c = cConnected \<or> tc_state c = cDisconnecting \<longrightarrow> ch_flag (tc_chnnel c) \<noteq> cNew)"

definition room_for :: "byte list \<Rightarrow> TcpConnection \<Rightarrow> bool" where
  "room_for m c \<longleftrightarrow> length (content (outputBuffer c)) + 2 * length m + 8 < 2 ^ 31"

fun tc_guard :: "tc_event \<Rightarrow> TcpConnection \<Rightarrow> bool" where
  "tc_guard (Established self) c \<longleftrightarrow> tc_state c = cConnecting"
| "tc_guard (Send l m w) c \<longleftrightarrow> write_contract w \<and> room_for m c"
| "tc_guard (Writable w) c \<longleftrightarrow> write_contract w"
| "tc_guard (Readable_c rv t) c \<longleftrightarrow> readv_contract rv \<and> length (buf (inputBuffer c)) + 2 * 65536 + 8 < 2 ^ 31"
| "tc_guard (RunPosted w) c \<longleftrightarrow> write_contract w \<and>
    (case posted c of SendInLoop m # fs \<Rightarrow> room_for m c | _ \<Rightarrow> True)"
| "tc_guard Destroyed c \<longleftrightarrow> ch_flag (tc_chnnel c) \<noteq> cNew \<and> (tc_state c = cConnected \<or> tc_state c = cDisconnected \<and> isNoneEvent (tc_chnnel c))"
| "tc_guard e c \<longleftrightarrow> True"

text \<open>What a message adds to the outgoing stream: all of it, unless the connection is gone or the direct write
  finds it broken.\<close>

definition accepted :: "write_call \<Rightarrow> byte list \<Rightarrow> TcpConnection \<Rightarrow> byte list" where
  "accepted w m c =
    (if tc_state c = cDisconnected then []
     else if \<not> isWriting (tc_chnnel c) \<and> content (outputBuffer c) = [] \<and>
       (w (length m) = Inl EPIPE \<or> w (length m) = Inl ECONNRESET) then []
     else m)"

fun sent_by :: "tc_event \<Rightarrow> TcpConnection \<Rightarrow> byte list" where
  "sent_by (Send l m w) c = (if l \<and> tc_state c = cConnected then accepted w m c else [])"
| "sent_by (RunPosted w) c = (case posted c of SendInLoop m # fs \<Rightarrow> accepted w m c | _ \<Rightarrow> [])"
| "sent_by e c = []"

fun run_sent :: "bool \<Rightarrow> tc_event list \<Rightarrow> TcpConnection \<Rightarrow> byte list" where
  "run_sent ndebug [] c = []"
| "run_sent ndebug (e # es) c =
    sent_by e c @ (case tc_step ndebug e c of Inl _ \<Rightarrow> [] | Inr c' \<Rightarrow> run_sent ndebug es c')"

definition outgoing :: "TcpConnection \<Rightarrow> byte list" where
  "outgoing c = wire c @ content (outputBuffer c)"

fun state_rank :: "StateE \<Rightarrow> nat" where
  "state_rank cConnecting = 0"
| "state_rank cConnected = 1"
| "state_rank cDisconnecting = 2"
| "state_rank cDisconnected = 3"

section \<open>Lemmas\<close>

lemma tc_inv_loop: "tc_inv c \<Longrightarrow> tc_assertInLoopThread c = Inr ()"
  by (simp add: tc_inv_def tc_assertInLoopThread_def)

lemma next_flag_neq [simp]: "next_flag c \<noteq> cNew"
  by (simp add: next_flag_def flag_consts)

lemma chan_set_sel [simp]:
  "ch_events (chan_set f c) = f (ch_events c)" "ch_flag (chan_set f c) \<noteq> cNew" "ch_fd (chan_set f c) = ch_fd c"
  by (simp_all add: chan_set_def Let_def setFlag_def)

lemma writing_bits [simp]:
  "isWriting (chan_set (\<lambda>e. e OR cWriteEvent) c)" "\<not> isWriting (chan_set (\<lambda>e. e AND NOT cWriteEvent) c)"
  "\<not> isWriting (chan_set (\<lambda>e. cNonEvent) c)" "isNoneEvent (chan_set (\<lambda>e. cNonEvent) c)"
  "isWriting (chan_set (\<lambda>e. e OR cReadEvent) c) = isWriting c" "isWriting (chan_set (\<lambda>e. e AND NOT cReadEvent) c) = isWriting c"
  "isWriting (tie n c) = isWriting c"
proof -
  have d: "cReadEvent AND cWriteEvent = 0" "NOT cReadEvent AND cWriteEvent = cWriteEvent" by code_simp+
  show "isWriting (chan_set (\<lambda>e. e OR cReadEvent) c) = isWriting c"
    "isWriting (chan_set (\<lambda>e. e AND NOT cReadEvent) c) = isWriting c"
    using d by (simp_all add: isWriting_def bit.conj_disj_distrib2 and.assoc)
qed (use write_bits in \<open>simp_all add: isWriting_def isNoneEvent_def cNonEvent_def tie_def\<close>)

text \<open>What every operation keeps: the outgoing stream grows by \<open>m\<close>, the state only advances.\<close>

definition grows :: "byte list \<Rightarrow> TcpConnection \<Rightarrow> TcpConnection \<Rightarrow> bool" where
  "grows m c c' \<longleftrightarrow> tc_inv c' \<and> outgoing c' = outgoing c @ m \<and> state_rank (tc_state c) \<le> state_rank (tc_state c') \<and>
    (wrShutdown c' \<longrightarrow> wrShutdown c \<or> content (outputBuffer c') = [] \<or> tc_state c' = cDisconnected)"

lemma writeDirect_ok:
  assumes "tc_inv c" and "write_contract w" and "tc_state c \<noteq> cDisconnected" and "write_direct w m c = (n, fault, c')"
  shows "n \<le> length m" and "wire c' = wire c @ take n m" and "c' = c\<lparr>wire := wire c', posted := posted c'\<rparr>"
    and "fault \<longrightarrow> n = 0" and "0 < n \<longrightarrow> content (outputBuffer c) = []"
    and "accepted w m c = (if fault then [] else m)"
proof -
  have r: "readAbleBytes (outputBuffer c) = 0 \<longleftrightarrow> content (outputBuffer c) = []"
    using assms(1) by (simp add: tc_inv_def readAble_content)
  have "n \<le> length m \<and> wire c' = wire c @ take n m \<and> c' = c\<lparr>wire := wire c', posted := posted c'\<rparr> \<and>
    (fault \<longrightarrow> n = 0) \<and> (0 < n \<longrightarrow> content (outputBuffer c) = []) \<and> accepted w m c = (if fault then [] else m)"
  proof (cases "\<not> isWriting (tc_chnnel c) \<and> content (outputBuffer c) = []")
    case False
    then have "n = 0" "\<not> fault" "c' = c" using assms(4) r by (auto simp: write_direct_def)
    then show ?thesis using False assms(3) by (auto simp: accepted_def)
  next
    case True
    show ?thesis
    proof (cases "w (length m)")
      case (Inl e)
      then have "n = 0" "fault = (e = EPIPE \<or> e = ECONNRESET)" "c' = c"
        using assms(4) r True by (auto simp: write_direct_def tc_write_def EWOULDBLOCK_def EPIPE_def ECONNRESET_def)
      then show ?thesis using True Inl assms(3) by (auto simp: accepted_def)
    next
      case (Inr k)
      then have "n = k" "\<not> fault" "wire c' = wire c @ take n m" "c' = c\<lparr>wire := wire c', posted := posted c'\<rparr>"
        using assms(4) r True by (auto simp: write_direct_def tc_write_def tc_queueInLoop_def split: if_splits)
      then show ?thesis using True Inr assms(2,3) by (auto simp: accepted_def write_contract_def)
    qed
  qed
  then show "n \<le> length m" "wire c' = wire c @ take n m" "c' = c\<lparr>wire := wire c', posted := posted c'\<rparr>" "fault \<longrightarrow> n = 0"
    "0 < n \<longrightarrow> content (outputBuffer c) = []" "accepted w m c = (if fault then [] else m)" by blast+
qed

lemma sendInLoop_ok:
  assumes inv: "tc_inv c" and w: "write_contract w" and room: "room_for m c"
  shows "ok (grows (accepted w m c) c) (sendInLoop w m c)"
proof (cases "tc_state c = cDisconnected")
  case True
  then show ?thesis using inv by (simp add: sendInLoop_def tc_inv_loop grows_def accepted_def outgoing_def)
next
  case connected: False
  obtain n fault c' where d: "write_direct w m c = (n, fault, c')" by (cases "write_direct w m c")
  note k = writeDirect_ok [OF inv w connected d]
  then obtain fs where c': "c' = c\<lparr>wire := wire c @ take n m, posted := fs\<rparr>" by metis
  show ?thesis
  proof (cases "\<not> fault \<and> 0 < length m - n")
    case False
    then have "take n m = accepted w m c" using k by auto
    then have "outgoing c' = outgoing c @ accepted w m c" using k(5) c' by (cases "0 < n") (auto simp: outgoing_def)
    then show ?thesis using False inv d c' connected by (auto simp: sendInLoop_def tc_inv_loop Let_def grows_def tc_inv_def)
  next
    case True
    have "length (content (outputBuffer c)) + 2 * length (drop n m) + 8 < 2 ^ 31" using room by (simp add: room_for_def)
    then obtain b where b: "Buffer_append (drop n m) (outputBuffer c) = Inr b" "buffer_inv b"
      "content b = content (outputBuffer c) @ drop n m"
      using Buffer_append_ok [of "outputBuffer c" "drop n m"] inv by (auto simp: tc_inv_def ok_iff)
    have out: "wire c @ take n m @ content (outputBuffer c) @ drop n m = wire c @ content (outputBuffer c) @ m"
      using k(5) by (cases "0 < n") auto
    have ne: "content b \<noteq> []" using b(3) True by auto
    have acc: "accepted w m c = m" using k(6) True by simp
    show ?thesis
      using True inv d c' b out ne acc connected
      by (auto simp: sendInLoop_def tc_inv_loop Let_def tc_queueInLoop_def grows_def tc_inv_def outgoing_def)
  qed
qed


text \<open>An operation that touches neither buffer contents nor the wire.\<close>

lemma grows_quiet:
  assumes "tc_inv c" and "tc_inv c'" and "outputBuffer c' = outputBuffer c" and "wire c' = wire c"
    and "state_rank (tc_state c) \<le> state_rank (tc_state c')" and "wrShutdown c' = wrShutdown c"
  shows "grows [] c c'"
  using assms by (simp add: grows_def outgoing_def)

lemma shutdownInLoop_ok: "tc_inv c \<Longrightarrow> ok (grows [] c) (shutdownInLoop c)"
  by (auto simp: shutdownInLoop_def tc_inv_loop grows_def outgoing_def tc_inv_def)

lemma handleClose_ok: "tc_inv c \<Longrightarrow> ok (grows [] c) (handleClose True c)"
  by (cases "tc_state c") (auto simp: handleClose_def tc_inv_loop tc_call_def grows_def outgoing_def tc_inv_def)

lemma forceCloseInLoop_ok: "tc_inv c \<Longrightarrow> ok (grows [] c) (forceCloseInLoop True c)"
  using handleClose_ok [of c] by (auto simp: forceCloseInLoop_def tc_inv_loop grows_def outgoing_def)

lemma readInLoop_ok:
  "tc_inv c \<Longrightarrow> ok (grows [] c) (startReadInLoop c)" "tc_inv c \<Longrightarrow> ok (grows [] c) (stopReadInLoop c)"
  by (auto simp: startReadInLoop_def stopReadInLoop_def tc_inv_loop grows_def outgoing_def tc_inv_def)

lemma handleRead_ok:
  assumes "tc_inv c" and "readv_contract rv" and "length (buf (inputBuffer c)) + 2 * 65536 + 8 < 2 ^ 31"
  shows "ok (grows [] c) (tc_handleRead True rv t c)"
proof -
  have inb: "buffer_inv (inputBuffer c)" using assms(1) by (simp add: tc_inv_def)
  obtain n e b where b: "readFd rv (inputBuffer c) = Inr (n, e, b)" "buffer_inv b"
  proof (cases "rv (readv_cap (inputBuffer c))")
    case (Inl e)
    then show ?thesis using readFd_error [of rv "inputBuffer c" e] inb that by blast
  next
    case (Inr bs)
    then show ?thesis using readFd_data [OF inb assms(2) Inr assms(3)] that by (auto simp: ok_iff)
  qed
  let ?c = "c\<lparr>inputBuffer := b\<rparr>"
  have c: "tc_inv ?c" using assms(1) b(2) by (simp add: tc_inv_def)
  then have g: "grows [] c ?c" using assms(1) by (auto intro: grows_quiet)
  have h: "ok (grows [] c) (handleClose True ?c)"
    using handleClose_ok [OF c] by (rule ok_mono) (simp add: grows_def outgoing_def)
  have m: "grows [] c (tc_call k ?c)" for k
    using g by (simp add: grows_def outgoing_def tc_inv_def tc_call_def)
  show ?thesis
    unfolding tc_handleRead_def tc_inv_loop [OF assms(1)] b(1) using h m g by (simp add: Let_def)
qed

lemma handleWrite_ok:
  assumes "tc_inv c" and "write_contract w"
  shows "ok (grows [] c) (handleWrite w c)"
proof (cases "isWriting (tc_chnnel c)")
  case False
  then show ?thesis using assms(1) by (simp add: handleWrite_def tc_inv_loop grows_quiet)
next
  case True
  let ?b = "outputBuffer c"
  have b: "buffer_inv ?b" using assms(1) by (simp add: tc_inv_def)
  have rd: "read_at (readerIndex ?b) (readAbleBytes ?b) ?b = Inr (content ?b)"
    using read_at_content [OF b, of "readAbleBytes ?b"] readAble_content [OF b] by simp
  show ?thesis
  proof (cases "w (length (content ?b))")
    case (Inl e)
    then show ?thesis
      using True rd assms(1) by (simp add: handleWrite_def tc_inv_loop tc_write_def grows_quiet)
  next
    case (Inr n)
    then have n: "n \<le> length (content ?b)" using assms(2) by (simp add: write_contract_def)
    show ?thesis
    proof (cases "0 < n")
      case False
      then show ?thesis
        using True rd Inr assms(1) by (simp add: handleWrite_def tc_inv_loop tc_write_def grows_quiet)
    next
      case pos: True
      obtain b' where b': "retrieve (int n) ?b = Inr b'" "buffer_inv b'" "content b' = drop n (content ?b)"
        using retrieve_ok [OF b, of "int n"] n by (auto simp: ok_iff)
      have r0: "readAbleBytes b' = 0 \<longleftrightarrow> drop n (content ?b) = []" using readAble_content [OF b'(2)] b'(3) by simp
      show ?thesis
        using True pos rd Inr assms(1) b' r0
        by (auto simp: handleWrite_def tc_inv_loop tc_write_def Let_def tc_queueInLoop_def shutdownInLoop_def
            tc_assertInLoopThread_def grows_def outgoing_def tc_inv_def)
    qed
  qed
qed


text \<open>Operations that other threads may call too.\<close>

lemma on_thread_loop:
  assumes "tc_inv c" and "ok (grows m c) (f c)"
  shows "ok (grows m c) (on_thread True f c)"
proof -
  have "c\<lparr>inLoop_c := True\<rparr> = c" using assms(1) by (simp add: tc_inv_def)
  moreover have "grows m c c' \<Longrightarrow> c'\<lparr>inLoop_c := True\<rparr> = c'" for c' by (simp add: grows_def tc_inv_def)
  ultimately show ?thesis using assms(2) by (auto simp: on_thread_def ok_iff)
qed

lemma on_thread_other:
  assumes "tc_inv c" and "f (c\<lparr>inLoop_c := False\<rparr>) = Inr (c\<lparr>inLoop_c := False, posted := ps, tc_state := st\<rparr>)"
    and "st = tc_state c \<or> tc_state c = cConnected \<and> st = cDisconnecting"
  shows "ok (grows [] c) (on_thread False f c)"
  using assms by (auto simp: on_thread_def grows_def outgoing_def tc_inv_def)

lemma tc_step_ok:
  assumes inv: "tc_inv c" and g: "tc_guard e c"
  shows "ok (grows (sent_by e c) c) (tc_step True e c)"
proof (cases e)
  case (Established self)
  then show ?thesis
    using g inv by (simp add: connectEstablished_def tc_inv_loop tc_call_def grows_def outgoing_def tc_inv_def)
next
  case (Send l m w)
  show ?thesis
  proof (cases l)
    case True
    have "ok (grows (if tc_state c = cConnected then accepted w m c else []) c) (send_string w m c)"
      using sendInLoop_ok [OF inv, of w m] g Send inv by (simp add: send_string_def tc_inv_def [of c] grows_quiet)
    then show ?thesis using on_thread_loop [OF inv] True Send by simp
  next
    case False
    then show ?thesis
      using Send on_thread_other [OF inv, where f = "send_string w m" and ps = "if tc_state c = cConnected then posted c @ [SendInLoop m] else posted c" and st = "tc_state c"]
      by (simp add: send_string_def tc_queueInLoop_def)
  qed
next
  case (Writable w)
  then show ?thesis using handleWrite_ok [OF inv] g by simp
next
  case (Readable_c rv t)
  then show ?thesis using handleRead_ok [OF inv] g by simp
next
  case HangUp
  then show ?thesis using handleClose_ok [OF inv] by simp
next
  case (Shutdown l)
  let ?c = "c\<lparr>tc_state := cDisconnecting\<rparr>"
  have c: "tc_inv ?c" if "tc_state c = cConnected" using that inv by (simp add: tc_inv_def)
  have s: "ok (grows [] c) (shutdownInLoop ?c)" if "tc_state c = cConnected"
    using shutdownInLoop_ok [OF c [OF that]] by (rule ok_mono) (use that in \<open>simp add: grows_def outgoing_def\<close>)
  show ?thesis
  proof (cases l)
    case True
    have "ok (grows [] c) (tc_shutdown c)"
      using s inv tc_inv_loop [OF inv]
      by (cases "tc_state c = cConnected") (auto simp: tc_shutdown_def grows_quiet tc_assertInLoopThread_def split: if_splits)
    then show ?thesis using on_thread_loop [OF inv] True Shutdown by simp
  next
    case False
    then show ?thesis
      using Shutdown on_thread_other [OF inv, where f = tc_shutdown and ps = "if tc_state c = cConnected then posted c @ [ShutdownInLoop] else posted c"
          and st = "if tc_state c = cConnected then cDisconnecting else tc_state c"]
      by (simp add: tc_shutdown_def tc_queueInLoop_def split: if_splits)
  qed
next
  case (ForceClose l)
  then show ?thesis using inv by (auto simp: forceClose_def tc_queueInLoop_def grows_def outgoing_def tc_inv_def)
next
  case (DelayedForceClose l d)
  then show ?thesis using inv by (auto simp: forceCloseWithDelay_def grows_def outgoing_def tc_inv_def)
next
  case (StartRead l)
  show ?thesis
  proof (cases l)
    case True
    have "ok (grows [] c) (startRead c)" using readInLoop_ok(1) [OF inv] inv by (simp add: startRead_def tc_inv_def [of c])
    then show ?thesis using on_thread_loop [OF inv] True StartRead by simp
  next
    case False
    then show ?thesis using StartRead on_thread_other [OF inv, where f = startRead and ps = "posted c @ [StartReadInLoop]" and st = "tc_state c"]
      by (simp add: startRead_def tc_queueInLoop_def)
  qed
next
  case (StopRead l)
  show ?thesis
  proof (cases l)
    case True
    have "ok (grows [] c) (stopRead c)" using readInLoop_ok(2) [OF inv] inv by (simp add: stopRead_def tc_inv_def [of c])
    then show ?thesis using on_thread_loop [OF inv] True StopRead by simp
  next
    case False
    then show ?thesis using StopRead on_thread_other [OF inv, where f = stopRead and ps = "posted c @ [StopReadInLoop]" and st = "tc_state c"]
      by (simp add: stopRead_def tc_queueInLoop_def)
  qed
next
  case (RunPosted w)
  show ?thesis
  proof (cases "posted c")
    case Nil
    then show ?thesis using RunPosted inv by (simp add: grows_quiet)
  next
    case (Cons f fs)
    let ?c = "c\<lparr>posted := fs\<rparr>"
    have c: "tc_inv ?c" using inv by (simp add: tc_inv_def)
    have w: "write_contract w" using g RunPosted by simp
    have up: "ok (grows m ?c) r \<Longrightarrow> ok (grows m c) r" for m r
      by (erule ok_mono) (simp add: grows_def outgoing_def)
    have acc: "accepted w m ?c = accepted w m c" for m by (simp add: accepted_def)
    have "ok (grows (sent_by e c) ?c) (run_posted True w f ?c)"
      using RunPosted Cons g sendInLoop_ok [OF c w] shutdownInLoop_ok [OF c] forceCloseInLoop_ok [OF c] readInLoop_ok [OF c] c
      by (cases f) (auto simp: room_for_def acc tc_call_def grows_def outgoing_def tc_inv_def)
    then show ?thesis using up RunPosted Cons by simp
  qed
next
  case Destroyed
  then show ?thesis
    using g inv by (auto simp: conncetDestoryed_def tc_inv_loop tc_call_def chan_unregister_def grows_def outgoing_def
        tc_inv_def setFlag_def isNoneEvent_def isWriting_def cNonEvent_def)
next
  case Consume
  have "buffer_inv (retrieveAll b)" if "buffer_inv b" for b
    using that by (auto simp: buffer_inv_def retrieveAll_def cCheapPrepend_def)
  then show ?thesis using Consume inv by (simp add: defaultMessageCallBack_def grows_def outgoing_def tc_inv_def)
qed


interpretation conn: guarded_machine tc_inv tc_guard "tc_step True"
proof
  fix s e
  assume "tc_inv s" "tc_guard e s"
  from tc_step_ok [OF this] show "ok tc_inv (tc_step True e s)" by (rule ok_mono) (simp add: grows_def)
qed

lemma run_outgoing:
  "tc_inv c \<Longrightarrow> guards tc_guard (tc_step True) es c \<Longrightarrow>
    ok (\<lambda>c'. outgoing c' = outgoing c @ run_sent True es c) (rfold (tc_step True) es c)"
proof (induction es arbitrary: c)
  case Nil
  then show ?case by simp
next
  case (Cons e es)
  then obtain c' where c': "tc_step True e c = Inr c'" "grows (sent_by e c) c c'"
    using tc_step_ok [of c e] by (auto simp: ok_iff)
  then have i: "tc_inv c'" "outgoing c' = outgoing c @ sent_by e c" by (simp_all add: grows_def)
  have "guards tc_guard (tc_step True) es c'" using Cons.prems(2) c'(1) by simp
  from Cons.IH [OF i(1) this] show ?case using c'(1) i(2) by simp
qed

lemma run_rank:
  "tc_inv c \<Longrightarrow> guards tc_guard (tc_step True) es c \<Longrightarrow>
    ok (\<lambda>c'. state_rank (tc_state c) \<le> state_rank (tc_state c')) (rfold (tc_step True) es c)"
proof (rule conn.run_rel)
  fix s e s'
  assume "tc_inv s" "tc_guard e s" "tc_step True e s = Inr s'"
  then show "state_rank (tc_state s) \<le> state_rank (tc_state s')" using tc_step_ok [of s e] by (simp add: grows_def)
qed auto

lemma TcpConnection_new_ok: "ok (\<lambda>c. tc_inv c \<and> tc_state c = cConnecting \<and> outgoing c = []) (TcpConnection_new fd)"
  using Buffer_new_ok [of cInitialSize]
  by (auto simp: TcpConnection_new_def ok_iff tc_inv_def outgoing_def isWriting_def setCloseCallBack_def setErrorCallBack_def
      setWriteCallBack_def setReadCallBack_def Chnnel_new_def)

section \<open>Properties\<close>


lemma demo_write: "write_contract (\<lambda>len. Inr (min 3 len))"
  by (simp add: write_contract_def)


definition demo_conn :: TcpConnection where
  "demo_conn = projr (TcpConnection_new 5)"

lemma demo_conn_new: "TcpConnection_new 5 = Inr demo_conn"
  using TcpConnection_new_ok [of 5] by (auto simp: demo_conn_def ok_iff)

lemma demo_guards: "guards tc_guard (tc_step True) [Established 1, Send True [1, 2, 3, 4, 5] (\<lambda>len. Inr (min 3 len))] demo_conn"
proof -
  have i: "tc_inv demo_conn" "tc_state demo_conn = cConnecting" "outgoing demo_conn = []"
    using TcpConnection_new_ok [of 5] demo_conn_new by simp_all
  then obtain c where c: "tc_step True (Established 1) demo_conn = Inr c" "grows [] demo_conn c"
    using tc_step_ok [of demo_conn "Established 1"] by (auto simp: ok_iff)
  then have "content (outputBuffer c) = []" using i(3) by (simp add: grows_def outgoing_def)
  then show ?thesis using i(2) c(1) by (simp add: demo_write room_for_def split: sum.split)
qed


text \<open>The connection waits for the socket to become writable exactly while there is output to write, as long
  as it is not closed: no output is left behind without a write event, and no write event is left on
  without output.\<close>

theorem write_interest_iff_output:
  assumes "TcpConnection_new fd = Inr c" and "guards tc_guard (tc_step True) es c" and "rfold (tc_step True) es c = Inr c'"
    and "tc_state c' \<noteq> cDisconnected"
  shows "isWriting (tc_chnnel c') \<longleftrightarrow> content (outputBuffer c') \<noteq> []"
proof -
  have "tc_inv c" using TcpConnection_new_ok [of fd] assms(1) by simp
  from conn.run_ok [OF this assms(2)] assms(3,4) show ?thesis by (simp add: tc_inv_def)
qed

theorem write_interest_iff_output_witness:
  "\<exists>c'. rfold (tc_step True) [Established 1, Send True [1, 2, 3, 4, 5] (\<lambda>len. Inr (min 3 len))] demo_conn = Inr c' \<and>
    isWriting (tc_chnnel c') = (content (outputBuffer c') \<noteq> [])"
proof -
  let ?es = "[Established 1, Send True [1, 2, 3, 4, 5] (\<lambda>len. Inr (min 3 len))]"
  have "case rfold (tc_step True) ?es demo_conn of Inl _ \<Rightarrow> False | Inr c' \<Rightarrow> tc_state c' = cConnected" by code_simp
  then obtain c' where c': "rfold (tc_step True) ?es demo_conn = Inr c'" "tc_state c' \<noteq> cDisconnected"
    by (auto split: sum.splits)
  from write_interest_iff_output [OF demo_conn_new demo_guards c'] c' show ?thesis by blast
qed

text \<open>C21: The write side of the socket is shut down only after everything sent has been handed to the kernel, unless
  the connection is already closed.\<close>

theorem shutdown_after_flush:
  assumes "tc_inv c" and "tc_guard e c" and "tc_step True e c = Inr c'" and "wrShutdown c'" and "\<not> wrShutdown c"
  shows "content (outputBuffer c') = [] \<or> tc_state c' = cDisconnected"
  using tc_step_ok [OF assms(1,2)] assms(3-5) by (auto simp: grows_def)

theorem shutdown_after_flush_witness:
  "\<exists>c'. tc_step True (Shutdown True) (demo_conn\<lparr>tc_state := cConnected, tc_chnnel := chan_set (\<lambda>e. e) (tc_chnnel demo_conn)\<rparr>) = Inr c' \<and>
    wrShutdown c' \<and> (content (outputBuffer c') = [] \<or> tc_state c' = cDisconnected)"
proof -
  let ?c = "demo_conn\<lparr>tc_state := cConnected, tc_chnnel := chan_set (\<lambda>e. e) (tc_chnnel demo_conn)\<rparr>"
  have i: "tc_inv demo_conn" "tc_state demo_conn = cConnecting"
    using TcpConnection_new_ok [of 5] demo_conn_new by simp_all
  then have inv: "tc_inv ?c" by (simp add: tc_inv_def isWriting_def)
  have "case tc_step True (Shutdown True) ?c of Inl _ \<Rightarrow> False | Inr c' \<Rightarrow> wrShutdown c'" and n: "\<not> wrShutdown ?c"
    by code_simp+
  then obtain c' where c': "tc_step True (Shutdown True) ?c = Inr c'" "wrShutdown c'" by (auto split: sum.splits)
  have g: "tc_guard (Shutdown True) ?c" by simp
  from shutdown_after_flush [OF inv g c' n] c' show ?thesis by blast
qed

text \<open>C4: A peer that closes an open connection (\<open>readv\<close> returns 0) trips the assertion of \<open>handleClose\<close>
  in a build with assertions; in the release build the connection is closed, its events are disabled, and
  the connection and close callbacks are made.\<close>

theorem peer_close:
  assumes "tc_inv c" and "tc_state c = cConnected" and "rv (readv_cap (inputBuffer c)) = Inr []" and "readv_contract rv"
    and "length (buf (inputBuffer c)) + 2 * 65536 + 8 < 2 ^ 31"
  shows "tc_handleRead False rv t c = Inl AssertFail \<and>
    (\<exists>c'. tc_handleRead True rv t c = Inr c' \<and> tc_state c' = cDisconnected \<and> isNoneEvent (tc_chnnel c') \<and>
      called c' = called c @ [ConnectionCallBack_c False, CloseCallBack_c])"
proof -
  have "buffer_inv (inputBuffer c)" using assms(1) by (simp add: tc_inv_def)
  from readFd_data [OF this assms(4,3,5)] obtain b where "readFd rv (inputBuffer c) = Inr (0, None, b)"
    by (auto simp: ok_iff)
  then show ?thesis
    using assms(1,2) by (simp add: tc_handleRead_def tc_inv_loop handleClose_def tc_assertInLoopThread_def tc_inv_def tc_call_def)
qed

theorem peer_close_witness:
  "let c = demo_conn\<lparr>tc_state := cConnected, tc_chnnel := chan_set (\<lambda>e. e) (tc_chnnel demo_conn)\<rparr>
   in tc_handleRead False (\<lambda>n. Inr []) (Time 1) c = Inl AssertFail"
proof -
  let ?c = "demo_conn\<lparr>tc_state := cConnected, tc_chnnel := chan_set (\<lambda>e. e) (tc_chnnel demo_conn)\<rparr>"
  have "tc_inv demo_conn" "tc_state demo_conn = cConnecting"
    using TcpConnection_new_ok [of 5] demo_conn_new by simp_all
  then have inv: "tc_inv ?c" by (simp add: tc_inv_def isWriting_def)
  have len: "length (buf (inputBuffer ?c)) + 2 * 65536 + 8 < 2 ^ 31"
  proof -
    obtain b where "Buffer_new cInitialSize = Inr b" "length (buf b) = 1032" using Buffer_new_ok by (auto simp: ok_iff)
    then show ?thesis by (simp add: demo_conn_def TcpConnection_new_def)
  qed
  from peer_close [OF inv _ _ _ len, of "\<lambda>n. Inr []" "Time 1"] show ?thesis by (simp add: readv_contract_def)
qed

text \<open>The high-water-mark callback is queued exactly when a send lifts the length of the output buffer from below
  the mark to the mark or above, and it is given the new length.\<close>

theorem high_water_mark:
  assumes "tc_inv c" and "tc_state c = cConnected" and "isWriting (tc_chnnel c)" and "m \<noteq> []" and "room_for m c"
  shows "\<exists>c'. sendInLoop w m c = Inr c' \<and> content (outputBuffer c') = content (outputBuffer c) @ m \<and>
    posted c' = posted c @
      (if hightWaterMarkSet c \<and> int (length (content (outputBuffer c))) < hightWaterMark c \<and>
          hightWaterMark c \<le> int (length (content (outputBuffer c')))
       then [HightWaterMarkCallBack_f (int (length (content (outputBuffer c'))))] else [])"
proof -
  have b: "buffer_inv (outputBuffer c)" using assms(1) by (simp add: tc_inv_def)
  obtain b' where "Buffer_append m (outputBuffer c) = Inr b'" "content b' = content (outputBuffer c) @ m"
    using Buffer_append_ok [OF b] assms(5) by (auto simp: room_for_def ok_iff)
  then show ?thesis
    using assms b by (auto simp: sendInLoop_def tc_inv_loop write_direct_def Let_def tc_queueInLoop_def readAble_content)
qed

theorem high_water_mark_witness:
  "\<exists>c c'. sendInLoop (\<lambda>len. Inl EWOULDBLOCK) [6, 7, 8] c = Inr c' \<and> content (outputBuffer c') = [4, 5, 6, 7, 8] \<and>
    posted c' = [HightWaterMarkCallBack_f 5]"
proof -
  let ?es = "[Established 1, Send True [1, 2, 3, 4, 5] (\<lambda>len. Inr (min 3 len))]"
  have "case rfold (tc_step True) ?es demo_conn of Inl _ \<Rightarrow> False | Inr c \<Rightarrow> tc_state c = cConnected \<and>
    isWriting (tc_chnnel c) \<and> content (outputBuffer c) = [4, 5] \<and> posted c = []" by code_simp
  then obtain c where c: "rfold (tc_step True) ?es demo_conn = Inr c" "tc_state c = cConnected"
    "isWriting (tc_chnnel c)" "content (outputBuffer c) = [4, 5]" "posted c = []" by (auto split: sum.splits)
  have "tc_inv demo_conn" using TcpConnection_new_ok [of 5] demo_conn_new by simp
  from conn.run_ok [OF this demo_guards] have "tc_inv c" using c(1) by simp
  then have "tc_inv (setHightWaterMarkCallBack 4 c)" by (simp add: tc_inv_def setHightWaterMarkCallBack_def)
  from high_water_mark [OF this, of "[6, 7, 8]" "\<lambda>len. Inl EWOULDBLOCK"] c
  obtain c' where c': "sendInLoop (\<lambda>len. Inl EWOULDBLOCK) [6, 7, 8] (setHightWaterMarkCallBack 4 c) = Inr c'"
    "content (outputBuffer c') = [4, 5] @ [6, 7, 8]" "posted c' = (if int (length [4, 5]) < 4 \<and> 4 \<le> int (length ([4, 5, 6, 7, 8] :: byte list)) then
      [HightWaterMarkCallBack_f (int (length ([4, 5, 6, 7, 8] :: byte list)))] else [])"
    by (auto simp: setHightWaterMarkCallBack_def room_for_def)
  then have "posted c' = [HightWaterMarkCallBack_f 5]" by simp
  with c'(1,2) show ?thesis by auto
qed

end
