(* ===== verification/Transport.thy ===== *)
theory Transport
  imports TcpConnection "HOL-Library.Sublist"
begin

text \<open>
  Two connections, the ends of one TCP stream, and the kernel between them. A \<open>link\<close> has an endpoint for each side: the
  connection of \<open>TcpConnection\<close>, and as history what was sent on it (\<open>ep_sent\<close>), what its reads have delivered (\<open>ep_seen\<close>) and what its
  user has taken out of the input buffer (\<open>ep_got\<close>).

  The kernel is the guard \<open>tcp_read\<close>, the documented service of TCP: a read on one side returns bytes that the other side's
  kernel accepted, in order and from where the previous read ended, and end of file only when the other side has shut
  down its write side and everything has been read. Reads may be short or fail, and any number of bytes may be in flight.
\<close>

section \<open>Model\<close>

record endpoint =
  ep_conn :: TcpConnection
  ep_sent :: "byte list"
  ep_seen :: "byte list"
  ep_got :: "byte list"

type_synonym link = "bool \<Rightarrow> endpoint"

text \<open>What an operation of a connection reads from its socket, and what it discards of the input buffer.\<close>

fun read_bytes :: "tc_event \<Rightarrow> TcpConnection \<Rightarrow> byte list" where
  "read_bytes (Readable_c rv t) c = (case rv (readv_cap (inputBuffer c)) of Inl e \<Rightarrow> [] | Inr bs \<Rightarrow> bs)"
| "read_bytes e c = []"

fun discarded :: "tc_event \<Rightarrow> TcpConnection \<Rightarrow> byte list" where
  "discarded Consume c = content (inputBuffer c)"
| "discarded e c = []"

text \<open>An operation of the connection on one side, or its user taking \<open>n\<close> bytes out of the input buffer.\<close>

datatype link_event = OnConn bool tc_event | Take bool int

fun link_step :: "link_event \<Rightarrow> link \<Rightarrow> link res" where
  "link_step (OnConn d e) s =
    rbind (tc_step True e (ep_conn (s d))) (\<lambda>c.
    Inr (s(d := \<lparr>ep_conn = c, ep_sent = ep_sent (s d) @ sent_by e (ep_conn (s d)),
      ep_seen = ep_seen (s d) @ read_bytes e (ep_conn (s d)), ep_got = ep_got (s d) @ discarded e (ep_conn (s d))\<rparr>)))"
| "link_step (Take d n) s =
    rbind (retrieveAsString n (inputBuffer (ep_conn (s d)))) (\<lambda>(bs, b).
    Inr (s(d := (s d)\<lparr>ep_conn := (ep_conn (s d))\<lparr>inputBuffer := b\<rparr>, ep_got := ep_got (s d) @ bs\<rparr>)))"

definition link_new :: "TcpConnection \<Rightarrow> TcpConnection \<Rightarrow> link" where
  "link_new a b d = \<lparr>ep_conn = if d then a else b, ep_sent = [], ep_seen = [], ep_got = []\<rparr>"

section \<open>Specification\<close>

definition in_flight :: "bool \<Rightarrow> link \<Rightarrow> byte list" where
  "in_flight d s = drop (length (ep_seen (s d))) (wire (ep_conn (s (\<not> d))))"

definition tcp_read :: "bool \<Rightarrow> (nat \<Rightarrow> int + byte list) \<Rightarrow> link \<Rightarrow> bool" where
  "tcp_read d rv s \<longleftrightarrow>
    (case rv (readv_cap (inputBuffer (ep_conn (s d)))) of
       Inl e \<Rightarrow> True
     | Inr bs \<Rightarrow> prefix bs (in_flight d s) \<and> (bs = [] \<longrightarrow> wrShutdown (ep_conn (s (\<not> d))) \<and> in_flight d s = []))"

fun link_guard :: "link_event \<Rightarrow> link \<Rightarrow> bool" where
  "link_guard (OnConn d e) s \<longleftrightarrow> tc_guard e (ep_conn (s d)) \<and> (case e of Readable_c rv t \<Rightarrow> tcp_read d rv s | _ \<Rightarrow> True)"
| "link_guard (Take d n) s \<longleftrightarrow> 0 \<le> n \<and> n \<le> int (length (content (inputBuffer (ep_conn (s d)))))"

definition end_inv :: "bool \<Rightarrow> link \<Rightarrow> bool" where
  "end_inv d s \<longleftrightarrow> tc_inv (ep_conn (s d)) \<and> outgoing (ep_conn (s d)) = ep_sent (s d) \<and>
    ep_seen (s d) = ep_got (s d) @ content (inputBuffer (ep_conn (s d))) \<and>
    prefix (ep_seen (s d)) (wire (ep_conn (s (\<not> d))))"

definition link_inv :: "link \<Rightarrow> bool" where
  "link_inv s \<longleftrightarrow> (\<forall>d. end_inv d s)"

section \<open>Lemmas\<close>

text \<open>Operations that neither read nor take back what the kernel has accepted.\<close>

definition only_writes :: "TcpConnection \<Rightarrow> TcpConnection \<Rightarrow> bool" where
  "only_writes c c' \<longleftrightarrow> inputBuffer c' = inputBuffer c \<and> prefix (wire c) (wire c')"

lemma write_direct_writes: "write_direct w m c = (n, b, c') \<Longrightarrow> only_writes c c' \<and> outputBuffer c' = outputBuffer c"
  by (auto simp: write_direct_def tc_write_def tc_queueInLoop_def only_writes_def split: if_splits sum.splits)

lemma sendInLoop_writes: "sendInLoop w m c = Inr c' \<Longrightarrow> only_writes c c'"
  by (cases "write_direct w m c")
    (auto simp: sendInLoop_def rbind_eq_Inr Let_def tc_queueInLoop_def only_writes_def dest!: write_direct_writes split: if_splits)

lemma handleWrite_writes:
  assumes "handleWrite w c = Inr c'"
  shows "only_writes c c'"
proof (cases "isWriting (tc_chnnel c)")
  case True
  then obtain data where d: "read_at (readerIndex (outputBuffer c)) (readAbleBytes (outputBuffer c)) (outputBuffer c) = Inr data"
    using assms by (auto simp: handleWrite_def rbind_eq_Inr)
  show ?thesis
    using assms True d by (cases "w (length data)")
      (auto simp: handleWrite_def tc_write_def rbind_eq_Inr Let_def tc_queueInLoop_def shutdownInLoop_def only_writes_def split: if_splits)
qed (use assms in \<open>auto simp: handleWrite_def rbind_eq_Inr only_writes_def\<close>)

lemma quiet_writes:
  "startReadInLoop c = Inr c' \<Longrightarrow> only_writes c c'" "stopReadInLoop c = Inr c' \<Longrightarrow> only_writes c c'"
  "shutdownInLoop c = Inr c' \<Longrightarrow> only_writes c c'" "handleClose True c = Inr c' \<Longrightarrow> only_writes c c'"
  "forceCloseInLoop True c = Inr c' \<Longrightarrow> only_writes c c'" "conncetDestoryed c = Inr c' \<Longrightarrow> only_writes c c'"
  "connectEstablished n c = Inr c' \<Longrightarrow> only_writes c c'"
  by (auto simp: startReadInLoop_def stopReadInLoop_def shutdownInLoop_def handleClose_def forceCloseInLoop_def conncetDestoryed_def
      connectEstablished_def tc_call_def rbind_eq_Inr Let_def only_writes_def split: if_splits)

lemma posted_writes: "run_posted True w f c = Inr c' \<Longrightarrow> only_writes c c'"
  by (cases f) (auto simp: sendInLoop_writes quiet_writes tc_call_def only_writes_def [of c "c\<lparr>called := _\<rparr>"])

lemma on_thread_writes:
  assumes "on_thread l f c = Inr c'" and "\<And>c c'. f c = Inr c' \<Longrightarrow> only_writes c c'"
  shows "only_writes c c'"
proof -
  obtain d where d: "f (c\<lparr>inLoop_c := l\<rparr>) = Inr d" "c' = d\<lparr>inLoop_c := True\<rparr>" using assms(1) by (auto simp: on_thread_def rbind_eq_Inr)
  from assms(2) [OF d(1)] show ?thesis using d(2) by (simp add: only_writes_def)
qed

lemma call_writes:
  "send_string w m c = Inr c' \<Longrightarrow> only_writes c c'" "tc_shutdown c = Inr c' \<Longrightarrow> only_writes c c'"
  "startRead c = Inr c' \<Longrightarrow> only_writes c c'" "stopRead c = Inr c' \<Longrightarrow> only_writes c c'"
  by (auto simp: send_string_def tc_shutdown_def startRead_def stopRead_def tc_queueInLoop_def sendInLoop_writes quiet_writes Let_def
      only_writes_def shutdownInLoop_def rbind_eq_Inr dest: sendInLoop_writes quiet_writes split: if_splits)

lemma tc_step_writes:
  assumes "tc_step True e c = Inr c'" and "\<And>rv t. e \<noteq> Readable_c rv t" and "e \<noteq> Consume"
  shows "only_writes c c'"
proof (cases e)
  case (RunPosted w)
  then show ?thesis
    using assms(1) posted_writes [of w _ "c\<lparr>posted := _\<rparr>" c'] by (auto simp: only_writes_def split: list.splits)
qed (use assms on_thread_writes call_writes handleWrite_writes quiet_writes in
    \<open>auto simp: forceClose_def forceCloseWithDelay_def tc_queueInLoop_def only_writes_def\<close>)

text \<open>Every operation: the input buffer loses what is discarded and gains what is read.\<close>

lemma tc_step_input:
  assumes "tc_inv c" and "tc_guard e c" and "tc_step True e c = Inr c'"
  shows "discarded e c @ content (inputBuffer c') = content (inputBuffer c) @ read_bytes e c" and "prefix (wire c) (wire c')"
proof -
  have "discarded e c @ content (inputBuffer c') = content (inputBuffer c) @ read_bytes e c \<and> prefix (wire c) (wire c')"
  proof (cases e)
    case (Readable_c rv t)
    have inb: "buffer_inv (inputBuffer c)" using assms(1) by (simp add: tc_inv_def)
    obtain n e' b where r: "readFd rv (inputBuffer c) = Inr (n, e', b)" "content b = content (inputBuffer c) @ read_bytes e c"
    proof (cases "rv (readv_cap (inputBuffer c))")
      case (Inl e)
      then show ?thesis using readFd_error [of rv "inputBuffer c" e] Readable_c that by simp
    next
      case (Inr bs)
      have "readv_contract rv" "length (buf (inputBuffer c)) + 2 * 65536 + 8 < 2 ^ 31" using assms(2) Readable_c by simp_all
      from readFd_data [OF inb this(1) Inr this(2)] show ?thesis using Readable_c Inr that by (auto simp: ok_iff)
    qed
    have "inputBuffer c' = b \<and> wire c' = wire c"
      using assms(3) r(1) Readable_c quiet_writes(4) [of "c\<lparr>inputBuffer := b\<rparr>" c']
      by (auto simp: tc_handleRead_def rbind_eq_Inr Let_def tc_call_def handleClose_def split: if_splits)
    then show ?thesis using r(2) Readable_c by simp
  next
    case Consume
    then have "c' = c\<lparr>inputBuffer := retrieveAll (inputBuffer c)\<rparr>" using assms(3) by (simp add: defaultMessageCallBack_def)
    then show ?thesis using Consume by (simp add: retrieveAll_def content_def slice_def)
  qed (use tc_step_writes [OF assms(3)] in \<open>simp_all add: only_writes_def\<close>)
  then show "discarded e c @ content (inputBuffer c') = content (inputBuffer c) @ read_bytes e c" "prefix (wire c) (wire c')" by blast+
qed

lemma link_inv_upd:
  assumes "link_inv s" and "end_inv d (s(d := p))" and "prefix (wire (ep_conn (s d))) (wire (ep_conn p))"
  shows "link_inv (s(d := p))"
  unfolding link_inv_def
proof
  fix d'
  show "end_inv d' (s(d := p))"
  proof (cases "d' = d")
    case False
    then have d': "d' = (\<not> d)" by simp
    have "end_inv (\<not> d) s" using assms(1) by (simp add: link_inv_def)
    then show ?thesis using d' prefix_order.trans [OF _ assms(3)] by (auto simp: end_inv_def)
  qed (use assms(2) in simp)
qed

lemma link_step_ok:
  assumes "link_inv s" and "link_guard e s"
  shows "ok link_inv (link_step e s)"
proof (cases e)
  case (OnConn d x)
  let ?c = "ep_conn (s d)"
  have g: "tc_guard x ?c" and i: "end_inv d s" using assms OnConn by (simp_all add: link_inv_def)
  then obtain c' where c': "tc_step True x ?c = Inr c'" "grows (sent_by x ?c) ?c c'"
    using tc_step_ok [of ?c x] by (auto simp: end_inv_def ok_iff)
  have inv: "tc_inv ?c" using i by (simp add: end_inv_def)
  note in' = tc_step_input [OF inv g c'(1)]
  have "prefix (ep_seen (s d) @ read_bytes x ?c) (wire (ep_conn (s (\<not> d))))"
  proof -
    have "prefix (read_bytes x ?c) (in_flight d s)"
      using assms(2) OnConn by (cases x) (auto simp: tcp_read_def split: sum.splits)
    moreover have "wire (ep_conn (s (\<not> d))) = ep_seen (s d) @ in_flight d s"
      using i by (auto simp: end_inv_def in_flight_def prefix_def)
    ultimately show ?thesis by simp
  qed
  then have "end_inv d (s(d := \<lparr>ep_conn = c', ep_sent = ep_sent (s d) @ sent_by x ?c,
      ep_seen = ep_seen (s d) @ read_bytes x ?c, ep_got = ep_got (s d) @ discarded x ?c\<rparr>))"
    using i c'(2) in'(1) by (simp add: end_inv_def grows_def)
  then show ?thesis using OnConn c'(1) link_inv_upd [OF assms(1)] in'(2) by simp
next
  case (Take d n)
  let ?c = "ep_conn (s d)"
  have i: "end_inv d s" using assms by (simp add: link_inv_def)
  then have "buffer_inv (inputBuffer ?c)" by (simp add: end_inv_def tc_inv_def)
  then obtain b where b: "retrieveAsString n (inputBuffer ?c) = Inr (take (nat n) (content (inputBuffer ?c)), b)"
    "buffer_inv b" "content b = drop (nat n) (content (inputBuffer ?c))"
    using retrieveAsString_ok [of "inputBuffer ?c" n] assms(2) Take by (auto simp: ok_iff)
  then have "end_inv d (s(d := (s d)\<lparr>ep_conn := ?c\<lparr>inputBuffer := b\<rparr>, ep_got := ep_got (s d) @ take (nat n) (content (inputBuffer ?c))\<rparr>))"
    using i by (auto simp: end_inv_def tc_inv_def outgoing_def)
  then show ?thesis using Take b(1) link_inv_upd [OF assms(1)] by simp
qed

interpretation tcp_link: guarded_machine link_inv link_guard link_step
  by unfold_locales (rule link_step_ok)

lemma link_inv_new:
  assumes "TcpConnection_new fd = Inr a" and "TcpConnection_new fd' = Inr b"
  shows "link_inv (link_new a b)"
proof -
  have n: "tc_inv c \<and> outgoing c = [] \<and> content (inputBuffer c) = []" if "TcpConnection_new f = Inr c" for f c
    using that TcpConnection_new_ok [of f] Buffer_new_ok [of cInitialSize] by (auto simp: TcpConnection_new_def rbind_eq_Inr ok_iff)
  show ?thesis using n [OF assms(1)] n [OF assms(2)] by (simp add: link_inv_def end_inv_def link_new_def)
qed

lemma new_input_length: "TcpConnection_new f = Inr c \<Longrightarrow> length (buf (inputBuffer c)) = 1032"
  by (auto simp: TcpConnection_new_def Buffer_new_def rbind_eq_Inr cInitialSize_def cCheapPrepend_def Let_def split: if_splits)

section \<open>Properties\<close>

text \<open>C5: End to end: in any run of two connected ends, in the release build and within the guards, nothing faults, and in each direction what the
  receiver's user has taken, what waits in the receiver's input buffer, what is in flight and what waits in the sender's output buffer are
  together exactly what was sent, in order, without loss or duplication.\<close>

theorem end_to_end:
  assumes "TcpConnection_new fd = Inr a" and "TcpConnection_new fd' = Inr b"
    and "guards link_guard link_step es (link_new a b)"
  shows "\<exists>s. rfold link_step es (link_new a b) = Inr s \<and>
    (\<forall>d. ep_got (s d) @ content (inputBuffer (ep_conn (s d))) @ in_flight d s @ content (outputBuffer (ep_conn (s (\<not> d)))) =
      ep_sent (s (\<not> d)))"
proof -
  obtain s where s: "rfold link_step es (link_new a b) = Inr s" "link_inv s"
    using tcp_link.run_ok [OF link_inv_new [OF assms(1,2)] assms(3)] by (auto simp: ok_iff)
  have "ep_got (s d) @ content (inputBuffer (ep_conn (s d))) @ in_flight d s @ content (outputBuffer (ep_conn (s (\<not> d)))) = ep_sent (s (\<not> d))" for d
  proof -
    have "end_inv d s" "end_inv (\<not> d) s" using s(2) by (simp_all add: link_inv_def)
    then show ?thesis by (auto simp: end_inv_def outgoing_def in_flight_def prefix_def)
  qed
  then show ?thesis using s(1) by blast
qed

text \<open>One side sends five bytes, of which its kernel accepts three at once; the other reads up to two of them and its user takes one.\<close>

definition demo_far :: TcpConnection where
  "demo_far = projr (TcpConnection_new 6)"

definition demo_sending :: "link_event list" where
  "demo_sending = [OnConn True (Established 1), OnConn False (Established 2), OnConn True (Send True [1, 2, 3, 4, 5] (\<lambda>len. Inr (min 3 len)))]"

definition demo_receiving :: "link_event list" where
  "demo_receiving = [OnConn False (Readable_c (\<lambda>cap. Inr (take cap [1, 2])) (Time 0)), Take False 1]"

text \<open>The guards of the sending events, as far as they can be evaluated.\<close>

fun demo_link_guard :: "link_event \<Rightarrow> link \<Rightarrow> bool" where
  "demo_link_guard (OnConn d (Established n)) s \<longleftrightarrow> tc_state (ep_conn (s d)) = cConnecting"
| "demo_link_guard (OnConn d (Send l m w)) s \<longleftrightarrow> length m \<le> 5 \<and> content (outputBuffer (ep_conn (s d))) = [] \<and> w 5 = Inr 3"
| "demo_link_guard e s \<longleftrightarrow> False"

lemma demo_sent:
  "case rfold link_step demo_sending (link_new demo_conn demo_far) of Inl e \<Rightarrow> False | Inr s \<Rightarrow>
    wire (ep_conn (s True)) = [1, 2, 3] \<and> ep_sent (s True) = [1, 2, 3, 4, 5] \<and> ep_seen (s False) = [] \<and>
    content (inputBuffer (ep_conn (s False))) = [] \<and> inputBuffer (ep_conn (s False)) = inputBuffer demo_far" "guards demo_link_guard link_step demo_sending (link_new demo_conn demo_far)"
  by code_simp+

theorem end_to_end_witness:
  "\<exists>s. rfold link_step (demo_sending @ demo_receiving) (link_new demo_conn demo_far) = Inr s \<and> ep_sent (s True) = [1, 2, 3, 4, 5] \<and>
    ep_got (s False) = [1] \<and> ep_seen (s False) = [1, 2] \<and>
    ep_got (s False) @ content (inputBuffer (ep_conn (s False))) @ in_flight False s @ content (outputBuffer (ep_conn (s True))) = [1, 2, 3, 4, 5]"
proof -
  let ?l = "link_new demo_conn demo_far"
  have far: "TcpConnection_new 6 = Inr demo_far" using TcpConnection_new_ok [of 6] by (auto simp: demo_far_def ok_iff)
  obtain t where t: "rfold link_step demo_sending ?l = Inr t" "wire (ep_conn (t True)) = [1, 2, 3]" "ep_sent (t True) = [1, 2, 3, 4, 5]"
    "ep_seen (t False) = []" "content (inputBuffer (ep_conn (t False))) = []" "inputBuffer (ep_conn (t False)) = inputBuffer demo_far"
    using demo_sent(1) by (auto split: sum.splits)
  have g1: "guards link_guard link_step demo_sending ?l"
    using demo_sent(2) by (rule guards_weaken) (auto simp: demo_sending_def demo_write room_for_def)
  have inv: "link_inv t" using tcp_link.run_ok [OF link_inv_new [OF demo_conn_new far] g1] t(1) by simp
  then have got: "ep_got (t False) = []" using t(4) by (simp add: link_inv_def end_inv_def)
  let ?b = "inputBuffer (ep_conn (t False))" and ?e = "Readable_c (\<lambda>cap. Inr (take cap [1, 2])) (Time 0)"
  have b: "buffer_inv ?b" using inv by (simp add: link_inv_def end_inv_def tc_inv_def)
  then have "0 \<le> writeAbleBytes ?b" using writeAble_eq [of ?b] buffer_invD [of ?b] by simp
  then have "2 \<le> readv_cap ?b" by (auto simp: readv_cap_def extrabuf_size_def le_nat_iff)
  then have r: "take (readv_cap ?b) [1, 2] = [1, 2 :: byte]" by simp
  have len: "length (buf ?b) = 1032" using new_input_length [OF far] t(6) by simp
  have g2: "link_guard (OnConn False ?e) t"
    using r len t by (simp add: tcp_read_def in_flight_def readv_contract_def)
  from link_step_ok [OF inv g2] obtain u where u: "link_step (OnConn False ?e) t = Inr u" "link_inv u" by (auto simp: ok_iff)
  then have u': "ep_seen (u False) = [1, 2]" "ep_got (u False) = []" "ep_sent (u True) = [1, 2, 3, 4, 5]" using t r got by (auto simp: rbind_eq_Inr)
  then have c: "content (inputBuffer (ep_conn (u False))) = [1, 2]" using u(2) by (simp add: link_inv_def end_inv_def)
  then have g3: "link_guard (Take False 1) u" by simp
  from link_step_ok [OF u(2) g3] obtain v where v: "link_step (Take False 1) u = Inr v" by (auto simp: ok_iff)
  have "buffer_inv (inputBuffer (ep_conn (u False)))" using u(2) by (simp add: link_inv_def end_inv_def tc_inv_def)
  then have v': "ep_sent (v True) = [1, 2, 3, 4, 5]" "ep_got (v False) = [1]" "ep_seen (v False) = [1, 2]"
    using v u' c retrieveAsString_ok [of "inputBuffer (ep_conn (u False))" 1] by (auto simp: rbind_eq_Inr ok_iff)
  have g: "guards link_guard link_step (demo_sending @ demo_receiving) ?l"
    using g1 g2 g3 t(1) u(1) v by (simp add: guards_append demo_receiving_def del: link_step.simps link_guard.simps)
  have run: "rfold link_step (demo_sending @ demo_receiving) ?l = Inr v"
    using t(1) u(1) v by (simp add: rfold_append demo_receiving_def del: link_step.simps)
  then have "\<forall>d. ep_got (v d) @ content (inputBuffer (ep_conn (v d))) @ in_flight d v @ content (outputBuffer (ep_conn (v (\<not> d)))) =
      ep_sent (v (\<not> d))" using end_to_end [OF demo_conn_new far g] by simp
  from spec [OF this, of False] show ?thesis using run v' by simp
qed

end
