(* ===== verification/SockAddr.thy ===== *)
theory SockAddr
  imports Formatting
begin

text \<open>
  \<^verbatim>\<open>src/netlib/net/SockFunc\<close>, \<^verbatim>\<open>SockAddr\<close> and \<^verbatim>\<open>Socket\<close>: socket addresses, their text, and the wrappers of the socket calls
  that do more than pass their arguments on.

  The members of \<open>sockaddr_in\<close> are machine words as they stand in memory on a little endian host, so that the byte order
  conversions are byte swaps. \<open>inet_ntop\<close> is written out for IPv4; \<open>inet_aton\<close>, \<open>fcntl\<close>, \<open>accept\<close>, \<open>getsockname\<close> and
  \<open>gethostbyname_r\<close> are parameters. A failing call is \<open>Inl errno\<close>; \<open>errno\<close> is passed through where the source reads it
  later.
\<close>

unbundle bit_operations_syntax

section \<open>Model\<close>

record sockaddr_in =
  sin_family :: "16 word"
  sin_port :: "16 word"
  s_addr :: "32 word"

definition AF_INET :: "16 word" where "AF_INET = 2"
definition INADDR_ANY :: "32 word" where "INADDR_ANY = 0"
definition INADDR_LOOPBACK :: "32 word" where "INADDR_LOOPBACK = 0x7F000001"
definition INET_ADDRSTRLEN :: nat where "INET_ADDRSTRLEN = 16"

definition zero_sockaddr :: sockaddr_in where
  "zero_sockaddr = \<lparr>sin_family = 0, sin_port = 0, s_addr = 0\<rparr>"

subsection \<open>SockFunc\<close>

definition networkToHost16 :: "16 word \<Rightarrow> 16 word" where
  "networkToHost16 port = bswap 2 port"

definition hostToNetwork16 :: "16 word \<Rightarrow> 16 word" where
  "hostToNetwork16 por = bswap 2 por"

definition hostToNetwork32 :: "32 word \<Rightarrow> 32 word" where
  "hostToNetwork32 t = bswap 4 t"

text \<open>\<open>inet_aton\<close> leaves the address alone when it cannot read the text.\<close>

definition fromIp :: "(string \<Rightarrow> 32 word option) \<Rightarrow> string \<Rightarrow> 32 word \<Rightarrow> 32 word" where
  "fromIp inet_aton ip addr = (case inet_aton ip of None \<Rightarrow> addr | Some a \<Rightarrow> a)"

definition inet_ntop :: "32 word \<Rightarrow> string" where
  "inet_ntop a =
    (let b = map (\<lambda>x. dec_nat (unat x)) (mem_bytes 4 a)
     in b ! 0 @ ''.'' @ b ! 1 @ ''.'' @ b ! 2 @ ''.'' @ b ! 3)"

definition sf_toIp :: "string \<Rightarrow> nat \<Rightarrow> sockaddr_in \<Rightarrow> string res" where
  "sf_toIp buf cap addr =
    (if sin_family addr = AF_INET
     then if INET_ADDRSTRLEN \<le> cap then Inr (inet_ntop (s_addr addr)) else Inl AssertFail
     else Inr buf)"

definition sf_toIpPort :: "string \<Rightarrow> nat \<Rightarrow> sockaddr_in \<Rightarrow> string res" where
  "sf_toIpPort buf cap addr =
    rbind (sf_toIp buf cap addr) (\<lambda>buf.
    let end = length buf; port = networkToHost16 (sin_port addr)
    in if end < cap then Inr (buf @ snd (snprintf (cap - end) ('':'' @ dec_nat (unat port)))) else Inl AssertFail)"

text \<open>\<open>getLocalAddr\<close> and \<open>getpeerAddr\<close>: the zeroed structure stays when the call fails.\<close>

definition getLocalAddr :: "(int \<Rightarrow> sockaddr_in option) \<Rightarrow> int \<Rightarrow> sockaddr_in" where
  "getLocalAddr getsockname sockFd = (case getsockname sockFd of None \<Rightarrow> zero_sockaddr | Some a \<Rightarrow> a)"

definition getpeerAddr :: "(int \<Rightarrow> sockaddr_in option) \<Rightarrow> int \<Rightarrow> sockaddr_in" where
  "getpeerAddr getpeername sockFd = (case getpeername sockFd of None \<Rightarrow> zero_sockaddr | Some a \<Rightarrow> a)"

definition isSelfConnect :: "(int \<Rightarrow> sockaddr_in option) \<Rightarrow> (int \<Rightarrow> sockaddr_in option) \<Rightarrow> int \<Rightarrow> bool" where
  "isSelfConnect getsockname getpeername sockFd =
    (let localAddr = getLocalAddr getsockname sockFd; peerAddr = getpeerAddr getpeername sockFd
     in if sin_family localAddr = AF_INET
        then s_addr localAddr = s_addr peerAddr \<and> sin_port localAddr = sin_port peerAddr
        else False)"

definition getSocketError :: "(int \<Rightarrow> int + int) \<Rightarrow> int \<Rightarrow> int" where
  "getSocketError getsockopt fd = (case getsockopt fd of Inl e \<Rightarrow> e | Inr optval \<Rightarrow> optval)"

text \<open>\<open>LOG_SYSFATAL\<close> aborts.\<close>

definition createNoblockingOrDie :: "int \<Rightarrow> int res" where
  "createNoblockingOrDie sockFd = (if sockFd < 0 then Inl Abort else Inr sockFd)"

definition O_NONBLOCK :: "32 word" where "O_NONBLOCK = 0x800"
definition O_CLOEXEC :: "32 word" where "O_CLOEXEC = 0x80000"
definition EBADF :: int where "EBADF = 9"
definition EMFILE :: int where "EMFILE = 24"

text \<open>\<open>getfl\<close> and \<open>setfl\<close> are \<open>fcntl\<close> with \<open>F_GETFL\<close> and \<open>F_SETFL\<close>; the results are the flags that are set, if any, and
  \<open>errno\<close>.\<close>

record fcntl_calls =
  getfl :: "int \<Rightarrow> int + 32 word"
  setfl :: "int \<Rightarrow> 32 word \<Rightarrow> int option"

definition setNoBlockAndCloseOnExec :: "fcntl_calls \<Rightarrow> int \<Rightarrow> int \<Rightarrow> 32 word option \<times> int" where
  "setNoBlockAndCloseOnExec F fd errno =
    (let (flags, errno) = (case getfl F fd of Inl e \<Rightarrow> (- 1, e) | Inr flags \<Rightarrow> (flags, errno));
         flags = flags OR O_NONBLOCK;
         flags = flags OR O_CLOEXEC
     in case setfl F fd flags of None \<Rightarrow> (Some flags, errno) | Some e \<Rightarrow> (None, e))"

definition sf_accept :: "fcntl_calls \<Rightarrow> int + int \<times> sockaddr_in \<Rightarrow> sockaddr_in \<Rightarrow> int \<times> sockaddr_in \<times> int" where
  "sf_accept F acc addr =
    (let (newFd, addr, errno) = (case acc of Inl e \<Rightarrow> (- 1, addr, e) | Inr (fd, a) \<Rightarrow> (fd, a, 0));
         (_, errno) = setNoBlockAndCloseOnExec F newFd errno
     in (newFd, addr, errno))"

definition Socket_accept :: "fcntl_calls \<Rightarrow> int + int \<times> sockaddr_in \<Rightarrow> sockaddr_in \<Rightarrow> int \<times> sockaddr_in \<times> int" where
  "Socket_accept F acc peerAddr =
    (let (newFd, addr, errno) = sf_accept F acc zero_sockaddr
     in (newFd, if 0 \<le> newFd then addr else peerAddr, errno))"

subsection \<open>SockAddr\<close>

definition SockAddr_port :: "16 word \<Rightarrow> bool \<Rightarrow> sockaddr_in" where
  "SockAddr_port port loopback =
    zero_sockaddr\<lparr>sin_family := AF_INET,
      s_addr := hostToNetwork32 (if loopback then INADDR_LOOPBACK else INADDR_ANY),
      sin_port := hostToNetwork16 port\<rparr>"

definition SockAddr_ip :: "(string \<Rightarrow> 32 word option) \<Rightarrow> string \<Rightarrow> 16 word \<Rightarrow> sockaddr_in" where
  "SockAddr_ip inet_aton ip port =
    (let a = zero_sockaddr\<lparr>sin_family := AF_INET, sin_port := hostToNetwork16 port\<rparr>
     in a\<lparr>s_addr := fromIp inet_aton ip (s_addr a)\<rparr>)"

definition toIpPort :: "sockaddr_in \<Rightarrow> string res" where
  "toIpPort a = sf_toIpPort [] 64 a"

definition toIp :: "sockaddr_in \<Rightarrow> string res" where
  "toIp a = sf_toIp [] 64 a"

definition tpPort :: "sockaddr_in \<Rightarrow> 16 word" where
  "tpPort a = networkToHost16 (sin_port a)"

text \<open>\<open>he\<close> is what \<open>gethostbyname_r\<close> found: address type, length of the address and the address.\<close>

definition resolve :: "int \<Rightarrow> (16 word \<times> int \<times> 32 word) option \<Rightarrow> sockaddr_in \<Rightarrow> (bool \<times> sockaddr_in) res" where
  "resolve ret he addr =
    (case he of
       Some (h_addrtype, h_length, h_addr) \<Rightarrow>
         if ret = 0
         then if h_addrtype = AF_INET \<and> h_length = 4 then Inr (True, addr\<lparr>s_addr := h_addr\<rparr>) else Inl AssertFail
         else Inr (False, addr)
     | None \<Rightarrow> Inr (False, addr))"

section \<open>Specification\<close>

text \<open>Dotted decimal text of four bytes, and \<^verbatim>\<open>inet(3)\<close>: \<open>inet_aton\<close> reads it into network byte order.\<close>

definition dotted :: "byte list \<Rightarrow> string" where
  "dotted bs = dec_nat (unat (bs ! 0)) @ ''.'' @ dec_nat (unat (bs ! 1)) @ ''.'' @ dec_nat (unat (bs ! 2)) @ ''.'' @
    dec_nat (unat (bs ! 3))"

definition aton_contract :: "(string \<Rightarrow> 32 word option) \<Rightarrow> bool" where
  "aton_contract inet_aton \<longleftrightarrow> (\<forall>bs. length bs = 4 \<longrightarrow> inet_aton (dotted bs) = Some (of_mem bs))"

text \<open>\<^verbatim>\<open>fcntl(2)\<close> fails with \<open>EBADF\<close> on a negative descriptor.\<close>

definition fcntl_contract :: "fcntl_calls \<Rightarrow> bool" where
  "fcntl_contract F \<longleftrightarrow> (\<forall>fd flags. fd < 0 \<longrightarrow> getfl F fd = Inl EBADF \<and> setfl F fd flags = Some EBADF)"

section \<open>Lemmas\<close>

lemma inet_ntop_dotted: "inet_ntop a = dotted (mem_bytes 4 a)"
  by (simp add: inet_ntop_def dotted_def)

lemma length_byte_text: "length (dec_nat (unat (b :: byte))) \<le> 3"
  using length_dec_nat_le [of "unat b" 3] unsigned_less [of b, where 'a = nat] by simp

lemma length_dotted: "length (dotted bs) \<le> 15"
  using length_byte_text [of "bs ! 0"] length_byte_text [of "bs ! 1"] length_byte_text [of "bs ! 2"] length_byte_text [of "bs ! 3"]
  by (simp add: dotted_def)

lemma length_port_text: "length (dec_nat (unat (p :: 16 word))) \<le> 5"
  using length_dec_nat_le [of "unat p" 5] unsigned_less [of p, where 'a = nat] by simp

text \<open>A failed \<open>accept\<close> leaves \<open>EBADF\<close> behind.\<close>

lemma accept_failed:
  assumes "fcntl_contract F"
  shows "Socket_accept F (Inl e) peer = (- 1, peer, EBADF)"
  using assms by (simp add: Socket_accept_def sf_accept_def setNoBlockAndCloseOnExec_def fcntl_contract_def Let_def)

lemma toIpPort_text:
  assumes "sin_family a = AF_INET"
  shows "toIpPort a = Inr (dotted (mem_bytes 4 (s_addr a)) @ '':'' @ dec_nat (unat (tpPort a)))"
proof -
  let ?s = "dotted (mem_bytes 4 (s_addr a))" and ?p = "'':'' @ dec_nat (unat (tpPort a))"
  have "length ?s \<le> 15" "length ?p \<le> 6" using length_dotted length_port_text [of "tpPort a"] by simp_all
  then have "take (64 - length ?s - 1) ?p = ?p" by (intro take_all) linarith
  then show ?thesis
    using assms \<open>length ?s \<le> 15\<close>
    by (simp add: toIpPort_def sf_toIpPort_def sf_toIp_def INET_ADDRSTRLEN_def inet_ntop_dotted snprintf_def tpPort_def Let_def)
qed

section \<open>Properties\<close>

text \<open>C35: An address made from dotted decimal text and a port is printed as the same text and port, for all addresses and ports,
  within the buffers of the class; and the port reads back. The addresses made from a port alone are the wildcard and the
  loopback address.\<close>

theorem sockaddr_roundtrip:
  assumes "aton_contract inet_aton" and "length bs = 4"
  shows "toIp (SockAddr_ip inet_aton (dotted bs) port) = Inr (dotted bs) \<and>
    toIpPort (SockAddr_ip inet_aton (dotted bs) port) = Inr (dotted bs @ '':'' @ dec_nat (unat port)) \<and>
    tpPort (SockAddr_ip inet_aton (dotted bs) port) = port \<and>
    toIp (SockAddr_port port False) = Inr ''0.0.0.0'' \<and> toIp (SockAddr_port port True) = Inr ''127.0.0.1'' \<and>
    tpPort (SockAddr_port port loopback) = port"
proof -
  let ?a = "SockAddr_ip inet_aton (dotted bs) port"
  have a: "sin_family ?a = AF_INET" "s_addr ?a = of_mem bs" "tpPort ?a = port"
    using assms by (simp_all add: SockAddr_ip_def fromIp_def aton_contract_def tpPort_def networkToHost16_def hostToNetwork16_def Let_def)
  have ip: "toIp b = Inr (dotted (mem_bytes 4 (s_addr b)))" if "sin_family b = AF_INET" for b
    using that by (simp add: toIp_def sf_toIp_def INET_ADDRSTRLEN_def inet_ntop_dotted)
  have any: "dotted (mem_bytes 4 (hostToNetwork32 INADDR_ANY)) = ''0.0.0.0''"
    "dotted (mem_bytes 4 (hostToNetwork32 INADDR_LOOPBACK)) = ''127.0.0.1''" by code_simp+
  show ?thesis
    using a ip [of ?a] toIpPort_text [of ?a] ip [of "SockAddr_port port False"] ip [of "SockAddr_port port True"] any assms(2)
    by (simp add: SockAddr_port_def tpPort_def networkToHost16_def hostToNetwork16_def)
qed

text \<open>A reader of dotted decimal text that satisfies the contract.\<close>

fun split_dots :: "string \<Rightarrow> string list" where
  "split_dots [] = [[]]"
| "split_dots (c # cs) =
    (if c = CHR ''.'' then [] # split_dots cs
     else case split_dots cs of [] \<Rightarrow> [[c]] | w # ws \<Rightarrow> (c # w) # ws)"

definition demo_aton :: "string \<Rightarrow> 32 word option" where
  "demo_aton s = (let ws = split_dots s in if length ws = 4 then Some (of_mem (map (\<lambda>w. of_nat (read_dec w)) ws)) else None)"

lemma split_dots_append: "CHR ''.'' \<notin> set w \<Longrightarrow> split_dots (w @ CHR ''.'' # r) = w # split_dots r"
  by (induction w) auto

lemma split_dots_single: "CHR ''.'' \<notin> set w \<Longrightarrow> split_dots w = [w]"
  by (induction w) auto

lemma dec_nat_no_dot: "CHR ''.'' \<notin> set (dec_nat n)"
  by (rule dec_nat_no) simp

lemma demo_aton_contract: "aton_contract demo_aton"
proof -
  have "map (\<lambda>i. bs ! i) [0, 1, 2, 3] = bs" if "length bs = 4" for bs :: "byte list"
    using that by (auto simp: numeral_eq_Suc length_Suc_conv)
  then show ?thesis
    by (simp add: aton_contract_def demo_aton_def dotted_def split_dots_append split_dots_single dec_nat_no_dot Let_def)
qed

theorem sockaddr_roundtrip_witness:
  "toIpPort (SockAddr_ip demo_aton (dotted [192, 168, 0, 7]) 80) = Inr ''192.168.0.7:80''"
proof -
  have "dotted [192, 168, 0, 7] @ '':'' @ dec_nat (unat (80 :: 16 word)) = ''192.168.0.7:80''" by code_simp
  then show ?thesis using sockaddr_roundtrip [OF demo_aton_contract, of "[192, 168, 0, 7]" 80] by simp
qed

end
