(* ===== verification/Sockets.thy ===== *)
theory Sockets
  imports SockAddr
begin

text \<open>
  The rest of \<^verbatim>\<open>src/netlib/net/SockFunc.cc\<close> and \<^verbatim>\<open>Socket.cc\<close>: the calls that change a socket. The kernel is a parameter: \<open>'k\<close> is its state and
  \<open>socket_calls\<close> has the system calls, each with the value it returns. \<open>sockopt_contract\<close> is what the manual pages promise of
  \<open>setsockopt\<close>: it sets one option of one socket, or fails and changes nothing.
\<close>

unbundle bit_operations_syntax

section \<open>Model\<close>

record tcp_info =
  tcpi_rto :: "32 word"
  tcpi_ato :: "32 word"
  tcpi_snd_mss :: "32 word"
  tcpi_rcv_mss :: "32 word"
  tcpi_lost :: "32 word"
  tcpi_retrans :: "32 word"
  tcpi_rtt :: "32 word"
  tcpi_rttvar :: "32 word"
  tcpi_snd_ssthresh :: "32 word"
  tcpi_snd_cwnd :: "32 word"
  tcpi_total_retrans :: "32 word"

record 'k socket_calls =
  k_socket :: "int \<Rightarrow> 32 word \<Rightarrow> int \<Rightarrow> 'k \<Rightarrow> int \<times> 'k"
  k_bind :: "int \<Rightarrow> sockaddr_in \<Rightarrow> 'k \<Rightarrow> int \<times> 'k"
  k_listen :: "int \<Rightarrow> int \<Rightarrow> 'k \<Rightarrow> int \<times> 'k"
  k_shutdown :: "int \<Rightarrow> int \<Rightarrow> 'k \<Rightarrow> int \<times> 'k"
  k_close :: "int \<Rightarrow> 'k \<Rightarrow> int \<times> 'k"
  k_connect :: "int \<Rightarrow> sockaddr_in \<Rightarrow> 'k \<Rightarrow> int \<times> 'k"
  k_setsockopt :: "int \<Rightarrow> int \<Rightarrow> int \<Rightarrow> int \<Rightarrow> 'k \<Rightarrow> int \<times> 'k"
  k_tcp_info :: "int \<Rightarrow> 'k \<Rightarrow> tcp_info option"

text \<open>The constants of Linux on x86-64.\<close>

definition SOCK_STREAM :: "32 word" where "SOCK_STREAM = 1"
definition SOCK_NONBLOCK :: "32 word" where "SOCK_NONBLOCK = 0x800"
definition SOCK_CLOEXEC :: "32 word" where "SOCK_CLOEXEC = 0x80000"
definition IPPROTO_TCP :: int where "IPPROTO_TCP = 6"
definition SOMAXCONN :: int where "SOMAXCONN = 128"
definition SHUT_WR :: int where "SHUT_WR = 1"
definition SOL_SOCKET :: int where "SOL_SOCKET = 1"
definition SO_REUSEADDR :: int where "SO_REUSEADDR = 2"
definition SO_KEEPALIVE :: int where "SO_KEEPALIVE = 9"
definition SO_REUSEPORT :: int where "SO_REUSEPORT = 15"
definition TCP_NODELAY :: int where "TCP_NODELAY = 1"

lemmas option_consts = IPPROTO_TCP_def SOL_SOCKET_def SO_REUSEADDR_def SO_KEEPALIVE_def SO_REUSEPORT_def TCP_NODELAY_def

subsection \<open>SockFunc\<close>

definition createSocketFd :: "'k socket_calls \<Rightarrow> int \<Rightarrow> 'k \<Rightarrow> int \<times> 'k" where
  "createSocketFd K family k = k_socket K family (SOCK_STREAM OR SOCK_NONBLOCK OR SOCK_CLOEXEC) IPPROTO_TCP k"

definition sf_close :: "'k socket_calls \<Rightarrow> int \<Rightarrow> 'k \<Rightarrow> 'k" where
  "sf_close K fd k = snd (k_close K fd k)"

definition sf_bind :: "'k socket_calls \<Rightarrow> int \<Rightarrow> sockaddr_in \<Rightarrow> 'k \<Rightarrow> 'k" where
  "sf_bind K fd addr k = snd (k_bind K fd addr k)"

definition sf_listen :: "'k socket_calls \<Rightarrow> int \<Rightarrow> 'k \<Rightarrow> 'k" where
  "sf_listen K fd k = snd (k_listen K fd SOMAXCONN k)"

definition sf_shutdownWrite :: "'k socket_calls \<Rightarrow> int \<Rightarrow> 'k \<Rightarrow> 'k" where
  "sf_shutdownWrite K fd k = snd (k_shutdown K fd SHUT_WR k)"

definition sf_connect :: "'k socket_calls \<Rightarrow> int \<Rightarrow> sockaddr_in \<Rightarrow> 'k \<Rightarrow> int \<times> 'k" where
  "sf_connect K sockFd addr k = k_connect K sockFd addr k"

subsection \<open>Socket\<close>

text \<open>A \<open>Socket\<close> is its descriptor, which it closes in the end.\<close>

definition Socket_delete :: "'k socket_calls \<Rightarrow> int \<Rightarrow> 'k \<Rightarrow> 'k" where
  "Socket_delete K sockFd k = sf_close K sockFd k"

definition bindSockAddr :: "'k socket_calls \<Rightarrow> int \<Rightarrow> sockaddr_in \<Rightarrow> 'k \<Rightarrow> 'k" where
  "bindSockAddr K sockFd localAddr k = sf_bind K sockFd localAddr k"

definition Socket_listen :: "'k socket_calls \<Rightarrow> int \<Rightarrow> 'k \<Rightarrow> 'k" where
  "Socket_listen K sockFd k = sf_listen K sockFd k"

definition Socket_shutdownWrite :: "'k socket_calls \<Rightarrow> int \<Rightarrow> 'k \<Rightarrow> 'k" where
  "Socket_shutdownWrite K sockFd k = sf_shutdownWrite K sockFd k"

definition setKeepAlive :: "'k socket_calls \<Rightarrow> int \<Rightarrow> bool \<Rightarrow> 'k \<Rightarrow> 'k" where
  "setKeepAlive K sockFd on k = snd (k_setsockopt K sockFd SOL_SOCKET SO_KEEPALIVE (if on then 1 else 0) k)"

definition setReuseAddr :: "'k socket_calls \<Rightarrow> int \<Rightarrow> bool \<Rightarrow> 'k \<Rightarrow> 'k" where
  "setReuseAddr K sockFd on k = snd (k_setsockopt K sockFd SOL_SOCKET SO_REUSEADDR (if on then 1 else 0) k)"

text \<open>The flag says whether the error is logged.\<close>

definition setReusePort :: "'k socket_calls \<Rightarrow> int \<Rightarrow> bool \<Rightarrow> 'k \<Rightarrow> bool \<times> 'k" where
  "setReusePort K sockFd on k =
    (let (ret, k) = k_setsockopt K sockFd SOL_SOCKET SO_REUSEPORT (if on then 1 else 0) k in (ret < 0 \<and> on, k))"

definition setTcpNoDelay :: "'k socket_calls \<Rightarrow> int \<Rightarrow> bool \<Rightarrow> 'k \<Rightarrow> 'k" where
  "setTcpNoDelay K sockFd on k = snd (k_setsockopt K sockFd IPPROTO_TCP TCP_NODELAY (if on then 1 else 0) k)"

definition getTcpInfo :: "'k socket_calls \<Rightarrow> int \<Rightarrow> 'k \<Rightarrow> tcp_info option" where
  "getTcpInfo K sockFd k = k_tcp_info K sockFd k"

text \<open>\<open>printf\<close> of labels that are each followed by a \<^verbatim>\<open>%u\<close>: a conversion without an argument is undefined.\<close>

fun printf_u :: "string list \<Rightarrow> 32 word list \<Rightarrow> string res" where
  "printf_u [] args = Inr []"
| "printf_u (l # ls) [] = Inl OutOfRange"
| "printf_u (l # ls) (a # args) = rbind (printf_u ls args) (\<lambda>s. Inr (l @ dec_nat (unat a) @ s))"

definition tcp_info_labels :: "string list" where
  "tcp_info_labels = [''unrecovered='', '' rto='', '' ato='', '' snd_mss='', '' rec_mss='', '' lost='', '' retrans='', '' rtt='', '' rttvar='',
    '' ssthread='', '' cwnd='', '' total_retrans='']"

text \<open>The result and the text of the buffer.\<close>

definition getTcpInfoString :: "'k socket_calls \<Rightarrow> int \<Rightarrow> nat \<Rightarrow> string \<Rightarrow> 'k \<Rightarrow> (bool \<times> string) res" where
  "getTcpInfoString K sockFd len buf k =
    (case getTcpInfo K sockFd k of
       None \<Rightarrow> Inr (False, buf)
     | Some tcpi \<Rightarrow>
         rbind (printf_u tcp_info_labels
           [tcpi_rto tcpi, tcpi_ato tcpi, tcpi_snd_mss tcpi, tcpi_rcv_mss tcpi, tcpi_lost tcpi, tcpi_retrans tcpi, tcpi_rtt tcpi,
            tcpi_rttvar tcpi, tcpi_snd_ssthresh tcpi, tcpi_snd_cwnd tcpi, tcpi_total_retrans tcpi]) (\<lambda>s.
         Inr (True, snd (snprintf len s))))"

definition tc_getTcpInfoString :: "'k socket_calls \<Rightarrow> int \<Rightarrow> 'k \<Rightarrow> string res" where
  "tc_getTcpInfoString K sockFd k = rbind (getTcpInfoString K sockFd 1024 [] k) (\<lambda>(ok, buf). Inr buf)"

section \<open>Specification\<close>

definition sockopt_contract :: "'k socket_calls \<Rightarrow> ('k \<Rightarrow> int \<Rightarrow> int \<times> int \<Rightarrow> int) \<Rightarrow> bool" where
  "sockopt_contract K opt \<longleftrightarrow> (\<forall>fd level name v k r k'. k_setsockopt K fd level name v k = (r, k') \<longrightarrow>
    (r = 0 \<longrightarrow> opt k' = (opt k)(fd := (opt k fd)((level, name) := v))) \<and> (r \<noteq> 0 \<longrightarrow> k' = k))"

text \<open>The options a program sets on a socket, in any order.\<close>

datatype sock_option = KeepAlive | ReuseAddr | ReusePort | TcpNoDelay

fun set_option :: "'k socket_calls \<Rightarrow> int \<Rightarrow> sock_option \<times> bool \<Rightarrow> 'k \<Rightarrow> 'k" where
  "set_option K fd (KeepAlive, on) k = setKeepAlive K fd on k"
| "set_option K fd (ReuseAddr, on) k = setReuseAddr K fd on k"
| "set_option K fd (ReusePort, on) k = snd (setReusePort K fd on k)"
| "set_option K fd (TcpNoDelay, on) k = setTcpNoDelay K fd on k"

fun option_key :: "sock_option \<Rightarrow> int \<times> int" where
  "option_key KeepAlive = (SOL_SOCKET, SO_KEEPALIVE)"
| "option_key ReuseAddr = (SOL_SOCKET, SO_REUSEADDR)"
| "option_key ReusePort = (SOL_SOCKET, SO_REUSEPORT)"
| "option_key TcpNoDelay = (IPPROTO_TCP, TCP_NODELAY)"

text \<open>A kernel that accepts every option.\<close>

definition accepts_options :: "'k socket_calls \<Rightarrow> bool" where
  "accepts_options K \<longleftrightarrow> (\<forall>fd level name v k. fst (k_setsockopt K fd level name v k) = 0)"

section \<open>Lemmas\<close>

lemma option_key_inj: "option_key o1 = option_key o2 \<longleftrightarrow> o1 = o2"
  by (cases o1; cases o2) (simp_all add: option_consts)

lemma set_option_opt:
  assumes "sockopt_contract K opt" and "accepts_options K"
  shows "opt (set_option K fd (x, on) k) = (opt k)(fd := (opt k fd)(option_key x := if on then 1 else 0))"
proof -
  have "opt (snd (k_setsockopt K fd level name v k)) = (opt k)(fd := (opt k fd)((level, name) := v))" for level name v
    using assms unfolding sockopt_contract_def accepts_options_def by (metis prod.collapse)
  then show ?thesis by (cases x) (simp_all add: setKeepAlive_def setReuseAddr_def setReusePort_def setTcpNoDelay_def split_beta)
qed

lemma set_options_opt:
  assumes "sockopt_contract K opt" and "accepts_options K"
  shows "opt (fold (set_option K fd) xs k) g c =
    (if g = fd then case map_of (map (\<lambda>(x, on). (option_key x, on)) (rev xs)) c of Some on \<Rightarrow> if on then 1 else 0 | None \<Rightarrow> opt k fd c else opt k g c)"
proof (induction xs rule: rev_induct)
  case Nil
  then show ?case by simp
next
  case (snoc y ys)
  then show ?case using set_option_opt [OF assms] by (cases y) auto
qed

lemma map_of_key: "map_of (map (\<lambda>(x, on). (option_key x, on)) xs) (option_key x) = map_of xs x"
  by (induction xs) (auto simp: option_key_inj)

lemma printf_u_short: "length args < length ls \<Longrightarrow> printf_u ls args = Inl OutOfRange"
proof (induction ls args rule: printf_u.induct)
  case (3 l ls a args)
  then show ?case by simp
qed simp_all

section \<open>Properties\<close>

text \<open>The options of a socket read back as they were set last, whichever of them are set and in which order, and no other option and no
  other socket is touched.\<close>

theorem socket_options_roundtrip:
  assumes "sockopt_contract K opt" and "accepts_options K"
  shows "opt (fold (set_option K fd) xs k) fd (option_key x) =
      (case map_of (rev xs) x of Some on \<Rightarrow> if on then 1 else 0 | None \<Rightarrow> opt k fd (option_key x))"
    and "c \<notin> range option_key \<or> g \<noteq> fd \<Longrightarrow> opt (fold (set_option K fd) xs k) g c = opt k g c"
proof -
  show "opt (fold (set_option K fd) xs k) fd (option_key x) =
      (case map_of (rev xs) x of Some on \<Rightarrow> if on then 1 else 0 | None \<Rightarrow> opt k fd (option_key x))"
    by (simp add: set_options_opt [OF assms] map_of_key)
  assume c: "c \<notin> range option_key \<or> g \<noteq> fd"
  have "map_of (map (\<lambda>(x, on). (option_key x, on)) (rev xs)) c = None" if "c \<notin> range option_key"
    using that by (auto simp: map_of_eq_None_iff)
  then show "opt (fold (set_option K fd) xs k) g c = opt k g c" using c by (auto simp: set_options_opt [OF assms])
qed

text \<open>The text of the TCP information is undefined whenever there is information: the format has twelve conversions for eleven arguments.\<close>

theorem tcp_info_string_undefined:
  "getTcpInfoString K fd len buf k = (if getTcpInfo K fd k = None then Inr (False, buf) else Inl OutOfRange)"
  by (auto simp: getTcpInfoString_def printf_u_short tcp_info_labels_def split: option.splits)

end
