(* ===== verification/Acceptor.thy ===== *)
theory Acceptor
  imports TcpConnection SockAddr
begin

text \<open>
  \<^verbatim>\<open>src/netlib/net/Acceptor.h\<close> and \<^verbatim>\<open>Acceptor.cc\<close>: the listening socket of a server.

  \<open>idleFd\<close> is the spare descriptor that is given up when the process has no descriptors left. \<open>given\<close> are the calls of the
  new-connection callback and \<open>ac_closed\<close> the descriptors closed. The outcomes of the system calls are arguments.
\<close>

section \<open>Model\<close>

record Acceptor =
  ac_fd :: int
  ac_chnnel :: Chnnel
  listening :: bool
  idleFd :: int
  newConnectionSet :: bool
  ac_inLoop :: bool
  given :: "(int \<times> sockaddr_in) list"
  ac_closed :: "int list"
  reuseAddr :: bool
  reusePort :: bool
  boundTo :: "sockaddr_in option"

definition ac_assertInLoopThread :: "Acceptor \<Rightarrow> unit res" where
  "ac_assertInLoopThread a = (if ac_inLoop a then Inr () else Inl Abort)"

definition Acceptor_new :: "int \<Rightarrow> int \<Rightarrow> sockaddr_in \<Rightarrow> bool \<Rightarrow> Acceptor res" where
  "Acceptor_new sockFd nullFd listenAddr reuseport =
    rbind (createNoblockingOrDie sockFd) (\<lambda>fd.
    if 0 < nullFd
    then Inr \<lparr>ac_fd = fd, ac_chnnel = setReadCallBack (Chnnel_new fd), listening = False, idleFd = nullFd,
      newConnectionSet = False, ac_inLoop = True, given = [], ac_closed = [], reuseAddr = True, reusePort = reuseport,
      boundTo = Some listenAddr\<rparr>
    else Inl AssertFail)"

definition setNewConnectionCallBack :: "Acceptor \<Rightarrow> Acceptor" where
  "setNewConnectionCallBack a = a\<lparr>newConnectionSet := True\<rparr>"

definition Acceptor_delete :: "Acceptor \<Rightarrow> Acceptor res" where
  "Acceptor_delete a =
    rbind (chan_unregister (chan_set (\<lambda>e. cNonEvent) (ac_chnnel a))) (\<lambda>ch.
    Inr (a\<lparr>ac_chnnel := ch, ac_closed := ac_closed a @ [idleFd a]\<rparr>))"

definition ac_listen :: "Acceptor \<Rightarrow> Acceptor res" where
  "ac_listen a =
    rbind (ac_assertInLoopThread a) (\<lambda>_.
    Inr (a\<lparr>listening := True, ac_chnnel := chan_set (\<lambda>e. e OR cReadEvent) (ac_chnnel a)\<rparr>))"

text \<open>\<open>acc\<close> is the outcome of \<open>accept\<close>; \<open>acc2\<close> and \<open>nullFd\<close> are what \<open>accept\<close> and \<open>open\<close> return when the spare descriptor is
  used.\<close>

definition ac_handleRead :: "fcntl_calls \<Rightarrow> int + int \<times> sockaddr_in \<Rightarrow> int \<Rightarrow> int \<Rightarrow> Acceptor \<Rightarrow> Acceptor res" where
  "ac_handleRead F acc acc2 nullFd a =
    rbind (ac_assertInLoopThread a) (\<lambda>_.
    let (connFd, peerAddr, errno) = Socket_accept F acc (SockAddr_port 0 False)
    in if 0 \<le> connFd
       then Inr (if newConnectionSet a then a\<lparr>given := given a @ [(connFd, peerAddr)]\<rparr>
                 else a\<lparr>ac_closed := ac_closed a @ [connFd]\<rparr>)
       else if errno = EMFILE
       then Inr (a\<lparr>ac_closed := ac_closed a @ [idleFd a, acc2], idleFd := nullFd\<rparr>)
       else Inr a)"

section \<open>Properties\<close>

text \<open>C37: An accepted connection is given to the callback once, with its address, or closed when there is none. But the spare
  descriptor is never used: when \<open>accept\<close> fails because the process has no descriptors left, \<open>netlib::accept\<close> calls
  \<open>fcntl\<close> on the descriptor -1 before it returns, so that \<open>errno\<close> is \<open>EBADF\<close> when \<open>handleRead\<close> compares it with \<open>EMFILE\<close>;
  the connection stays in the queue and the socket readable.\<close>

theorem emfile_never_handled:
  assumes "fcntl_contract F" and "ac_inLoop a"
  shows "ac_handleRead F (Inl EMFILE) acc2 nullFd a = Inr a \<and>
    (0 \<le> fd \<longrightarrow> ac_handleRead F (Inr (fd, peer)) acc2 nullFd a =
      Inr (if newConnectionSet a then a\<lparr>given := given a @ [(fd, peer)]\<rparr> else a\<lparr>ac_closed := ac_closed a @ [fd]\<rparr>))"
proof -
  have "ac_handleRead F (Inl EMFILE) acc2 nullFd a = Inr a"
    using assms accept_failed [OF assms(1)] by (simp add: ac_handleRead_def ac_assertInLoopThread_def EBADF_def EMFILE_def)
  moreover have "\<exists>e. Socket_accept F (Inr (fd, peer)) (SockAddr_port 0 False) = (fd, if 0 \<le> fd then peer else SockAddr_port 0 False, e)"
    by (cases "setNoBlockAndCloseOnExec F fd 0") (simp add: Socket_accept_def sf_accept_def Let_def)
  ultimately show ?thesis using assms(2) by (auto simp: ac_handleRead_def ac_assertInLoopThread_def)
qed

definition demo_fcntl :: fcntl_calls where
  "demo_fcntl = \<lparr>getfl = (\<lambda>fd. if fd < 0 then Inl EBADF else Inr 2), setfl = (\<lambda>fd flags. if fd < 0 then Some EBADF else None)\<rparr>"

definition demo_acceptor :: Acceptor where
  "demo_acceptor = projr (Acceptor_new 3 4 (SockAddr_port 80 False) False)"

theorem emfile_never_handled_witness:
  "ac_handleRead demo_fcntl (Inl EMFILE) 9 10 demo_acceptor = Inr demo_acceptor"
proof -
  have "fcntl_contract demo_fcntl" by (simp add: fcntl_contract_def demo_fcntl_def)
  moreover have "ac_inLoop demo_acceptor" by (simp add: demo_acceptor_def Acceptor_new_def createNoblockingOrDie_def)
  ultimately show ?thesis using emfile_never_handled by blast
qed

end
