(* ===== verification/ConnectionLife.thy ===== *)
theory ConnectionLife
  imports TcpConnection
begin

text \<open>
  The life of a connection as its owners, the server and the client, see it: which operations may run between its being
  established and closed (\<open>is_conn_op\<close>), whether an operation has called the close callback (\<open>calls_close\<close>), and that it
  does so exactly when it closes the connection.
\<close>

section \<open>Definitions\<close>

fun is_conn_op :: "tc_event \<Rightarrow> bool" where
  "is_conn_op (Established n) = False"
| "is_conn_op Destroyed = False"
| "is_conn_op e = True"

definition calls_close :: "TcpConnection \<Rightarrow> TcpConnection \<Rightarrow> bool" where
  "calls_close t t' \<longleftrightarrow> CloseCallBack_c \<in> set (drop (length (called t)) (called t'))"

section \<open>Lemmas\<close>

definition lives :: "TcpConnection \<Rightarrow> TcpConnection \<Rightarrow> bool" where
  "lives c c' \<longleftrightarrow> tc_state c' \<noteq> cDisconnected \<and> (\<exists>ks. called c' = called c @ ks \<and> CloseCallBack_c \<notin> set ks)"

definition ends :: "TcpConnection \<Rightarrow> TcpConnection \<Rightarrow> bool" where
  "ends c c' \<longleftrightarrow> tc_state c' = cDisconnected \<and> isNoneEvent (tc_chnnel c') \<and> ch_flag (tc_chnnel c') \<noteq> cNew \<and>
    (\<exists>ks. called c' = called c @ ks \<and> CloseCallBack_c \<in> set ks)"

lemma lives_same: "tc_state c' \<noteq> cDisconnected \<Longrightarrow> called c' = called c \<Longrightarrow> lives c c'"
  by (simp add: lives_def)

lemma handleClose_ends: "handleClose True c = Inr c' \<Longrightarrow> ends c c'"
  by (auto simp: handleClose_def rbind_eq_Inr tc_call_def ends_def isNoneEvent_def)

lemma write_direct_life:
  "write_direct w m c = (n, b, c') \<Longrightarrow> tc_state c' = tc_state c \<and> called c' = called c"
  by (auto simp: write_direct_def tc_write_def tc_queueInLoop_def split: if_splits sum.splits)

lemma sendInLoop_life: "sendInLoop w m c = Inr c' \<Longrightarrow> tc_state c' = tc_state c \<and> called c' = called c"
  by (cases "write_direct w m c")
    (auto simp: sendInLoop_def rbind_eq_Inr Let_def tc_queueInLoop_def dest!: write_direct_life split: if_splits)

lemma handleWrite_life:
  assumes "handleWrite w c = Inr c'"
  shows "tc_state c' = tc_state c \<and> called c' = called c"
proof (cases "isWriting (tc_chnnel c)")
  case True
  then obtain data where d: "read_at (readerIndex (outputBuffer c)) (readAbleBytes (outputBuffer c)) (outputBuffer c) = Inr data"
    using assms by (auto simp: handleWrite_def rbind_eq_Inr)
  show ?thesis
    using assms True d by (cases "w (length data)")
      (auto simp: handleWrite_def tc_write_def rbind_eq_Inr Let_def tc_queueInLoop_def shutdownInLoop_def split: if_splits)
qed (use assms in \<open>auto simp: handleWrite_def rbind_eq_Inr\<close>)

lemma read_life:
  "startReadInLoop c = Inr c' \<Longrightarrow> tc_state c' = tc_state c \<and> called c' = called c"
  "stopReadInLoop c = Inr c' \<Longrightarrow> tc_state c' = tc_state c \<and> called c' = called c"
  "shutdownInLoop c = Inr c' \<Longrightarrow> tc_state c' = tc_state c \<and> called c' = called c"
  by (auto simp: startReadInLoop_def stopReadInLoop_def shutdownInLoop_def rbind_eq_Inr split: if_splits)

lemma handleRead_life:
  assumes "tc_handleRead True rv t c = Inr c'" and "tc_state c \<noteq> cDisconnected"
  shows "lives c c' \<or> ends c c'"
proof -
  obtain n e b where r: "readFd rv (inputBuffer c) = Inr (n, e, b)" using assms(1) by (auto simp: tc_handleRead_def rbind_eq_Inr)
  have k: "ends (c\<lparr>inputBuffer := b\<rparr>) c' \<Longrightarrow> ends c c'" by (simp add: ends_def)
  show ?thesis
    using assms r k handleClose_ends [of "c\<lparr>inputBuffer := b\<rparr>" c']
    by (auto simp: tc_handleRead_def rbind_eq_Inr Let_def tc_call_def lives_def split: if_splits)
qed

lemma posted_life:
  assumes "run_posted True w f c = Inr c'" and "tc_state c \<noteq> cDisconnected"
  shows "lives c c' \<or> ends c c'"
proof (cases f)
  case (SendInLoop m)
  then show ?thesis using assms sendInLoop_life by (auto intro: lives_same)
next
  case ShutdownInLoop
  then show ?thesis using assms read_life(3) by (auto intro: lives_same)
next
  case ForceCloseInLoop
  then show ?thesis using assms handleClose_ends
    by (auto simp: forceCloseInLoop_def rbind_eq_Inr intro: lives_same split: if_splits)
next
  case StartReadInLoop
  then show ?thesis using assms read_life(1) by (auto intro: lives_same)
next
  case StopReadInLoop
  then show ?thesis using assms read_life(2) by (auto intro: lives_same)
next
  case WriteCompleteCallBack_f
  then show ?thesis using assms by (auto simp: lives_def tc_call_def)
next
  case (HightWaterMarkCallBack_f n)
  then show ?thesis using assms by (auto simp: lives_def tc_call_def)
qed

lemma on_thread_life:
  assumes "on_thread l f c = Inr c'" and "\<And>d d'. f d = Inr d' \<Longrightarrow> tc_state d = tc_state c \<Longrightarrow> called d = called c \<Longrightarrow>
    tc_state d' \<noteq> cDisconnected \<and> called d' = called d"
  shows "lives c c'"
  using assms by (fastforce simp: on_thread_def rbind_eq_Inr intro: lives_same)

lemma shutdown_lives:
  assumes "tc_step True (Shutdown l) c = Inr c'" and "tc_state c = cConnected \<or> tc_state c = cDisconnecting"
  shows "lives c c'"
proof -
  have "tc_state c \<noteq> cDisconnected" using assms(2) by auto
  then show ?thesis using assms(1)
    by (intro on_thread_life [of l tc_shutdown])
      (auto simp: tc_shutdown_def tc_queueInLoop_def Let_def dest: read_life split: if_splits)
qed

lemma tc_step_life:
  assumes "tc_step True e c = Inr c'" and "is_conn_op e" and "tc_state c = cConnected \<or> tc_state c = cDisconnecting"
  shows "lives c c' \<or> ends c c'"
proof -
  have nd: "tc_state c \<noteq> cDisconnected" using assms(3) by auto
  show ?thesis
  proof (cases e)
    case (Send l m w)
    then have "lives c c'" using assms(1) nd
      by (intro on_thread_life [of l "send_string w m"])
        (auto simp: send_string_def tc_queueInLoop_def dest: sendInLoop_life split: if_splits)
    then show ?thesis ..
  next
    case (Writable w)
    then show ?thesis using assms(1) nd handleWrite_life by (auto intro: lives_same)
  next
    case (Readable_c rv t)
    then show ?thesis using assms(1) nd handleRead_life by simp
  next
    case HangUp
    then show ?thesis using assms(1) handleClose_ends by simp
  next
    case (Shutdown l)
    then show ?thesis using assms(1,3) shutdown_lives by simp
  next
    case (ForceClose l)
    then show ?thesis using assms(1) nd by (auto simp: forceClose_def tc_queueInLoop_def lives_def split: if_splits)
  next
    case (DelayedForceClose l d)
    then show ?thesis using assms(1) nd by (auto simp: forceCloseWithDelay_def lives_def split: if_splits)
  next
    case (StartRead l)
    then have "lives c c'" using assms(1) nd
      by (intro on_thread_life [of l startRead])
        (auto simp: startRead_def tc_queueInLoop_def dest: read_life split: if_splits)
    then show ?thesis ..
  next
    case (StopRead l)
    then have "lives c c'" using assms(1) nd
      by (intro on_thread_life [of l stopRead])
        (auto simp: stopRead_def tc_queueInLoop_def dest: read_life split: if_splits)
    then show ?thesis ..
  next
    case (RunPosted w)
    show ?thesis
    proof (cases "posted c")
      case (Cons f fs)
      then have "lives (c\<lparr>posted := fs\<rparr>) c' \<or> ends (c\<lparr>posted := fs\<rparr>) c'"
        using assms(1) RunPosted nd posted_life [of w f "c\<lparr>posted := fs\<rparr>" c'] by simp
      then show ?thesis by (simp add: lives_def ends_def)
    qed (use RunPosted assms(1) nd in \<open>simp add: lives_same\<close>)
  next
    case Consume
    then show ?thesis using assms(1) nd by (auto simp: defaultMessageCallBack_def lives_def)
  qed (use assms(2) in simp_all)
qed

lemma lives_no_close: "lives c c' \<Longrightarrow> \<not> calls_close c c'"
  by (auto simp: lives_def calls_close_def)

lemma ends_close: "ends c c' \<Longrightarrow> calls_close c c'"
  by (auto simp: ends_def calls_close_def)

text \<open>Its two ends, which its owner posts to the loop.\<close>

lemma here_inv: "tc_inv t \<Longrightarrow> t\<lparr>inLoop_c := True\<rparr> = t"
  by (simp add: tc_inv_def)

lemma established_life:
  assumes "tc_inv t" and "tc_state t = cConnecting"
  shows "ok (\<lambda>t'. tc_inv t' \<and> tc_state t' = cConnected) (connectEstablished p t)"
  using tc_step_ok [OF assms(1), of "Established p"] assms
  by (auto simp: ok_iff grows_def connectEstablished_def rbind_eq_Inr tc_call_def)

lemma destroyed_life:
  assumes "tc_inv t" and "tc_state t = cDisconnected" and "isNoneEvent (tc_chnnel t)" and "ch_flag (tc_chnnel t) \<noteq> cNew"
  shows "ok (\<lambda>t'. tc_inv t' \<and> tc_state t' = cDisconnected \<and> isNoneEvent (tc_chnnel t') \<and> ch_flag (tc_chnnel t') = cNew) (conncetDestoryed t)"
  using assms by (simp add: conncetDestoryed_def tc_inv_loop chan_unregister_def setFlag_def isNoneEvent_def tc_inv_def)

end
