(* ===== verification/EventLoopThreadPool.thy ===== *)
theory EventLoopThreadPool
  imports Formatting
begin

text \<open>
  \<^verbatim>\<open>src/netlib/net/EventLoopThreadPool.h\<close> and \<^verbatim>\<open>EventLoopThreadPool.cc\<close>: one event loop per thread, chosen in turn.

  Loops are named by numbers. \<open>loop_of i\<close> is the loop that \<open>EventLoopThread::startLoop\<close> returns for the \<open>i\<close>-th thread;
  \<open>pool_threads\<close> are the names of the threads started and \<open>inited\<close> the loops the initialisation callback was called with.
\<close>

section \<open>Model\<close>

record EventLoopThreadPool =
  baseLoop :: nat
  pool_name :: string
  numThreads :: int
  pool_next :: int
  pool_started :: bool
  loops :: "nat list"
  pool_threads :: "string list"
  inited :: "nat list"

definition EventLoopThreadPool_new :: "nat \<Rightarrow> string \<Rightarrow> EventLoopThreadPool" where
  "EventLoopThreadPool_new base name = \<lparr>baseLoop = base, pool_name = name, numThreads = 0, pool_next = 0, pool_started = False,
    loops = [], pool_threads = [], inited = []\<rparr>"

definition setNumThreads :: "int \<Rightarrow> EventLoopThreadPool \<Rightarrow> EventLoopThreadPool" where
  "setNumThreads nums p = p\<lparr>numThreads := nums\<rparr>"

definition pool_assertInLoopThread :: "nat \<Rightarrow> EventLoopThreadPool \<Rightarrow> unit res" where
  "pool_assertInLoopThread cur p = (if cur = baseLoop p then Inr () else Inl Abort)"

text \<open>The body of the loop of \<open>start\<close>; the callback runs in the new thread before \<open>startLoop\<close> returns.\<close>

definition start_thread :: "(nat \<Rightarrow> nat) \<Rightarrow> bool \<Rightarrow> nat \<Rightarrow> EventLoopThreadPool \<Rightarrow> EventLoopThreadPool" where
  "start_thread loop_of cb i p =
    (let buf = snd (snprintf (length (pool_name p) + 32) (pool_name p @ dec_nat i))
     in p\<lparr>pool_threads := pool_threads p @ [buf], inited := inited p @ (if cb then [loop_of i] else []),
          loops := loops p @ [loop_of i]\<rparr>)"

definition pool_start :: "(nat \<Rightarrow> nat) \<Rightarrow> bool \<Rightarrow> nat \<Rightarrow> EventLoopThreadPool \<Rightarrow> EventLoopThreadPool res" where
  "pool_start loop_of cb cur p =
    (if pool_started p then Inl AssertFail else
     rbind (pool_assertInLoopThread cur p) (\<lambda>_.
     let p = fold (start_thread loop_of cb) [0..<nat (numThreads p)] (p\<lparr>pool_started := True\<rparr>)
     in Inr (if numThreads p = 0 \<and> cb then p\<lparr>inited := inited p @ [baseLoop p]\<rparr> else p)))"

definition getNextLoop :: "nat \<Rightarrow> EventLoopThreadPool \<Rightarrow> (nat \<times> EventLoopThreadPool) res" where
  "getNextLoop cur p =
    rbind (pool_assertInLoopThread cur p) (\<lambda>_.
    if \<not> pool_started p then Inl AssertFail
    else if loops p \<noteq> []
    then if 0 \<le> pool_next p \<and> nat (pool_next p) < length (loops p)
         then let loop = loops p ! nat (pool_next p);
                  n = pool_next p + 1
              in Inr (loop, p\<lparr>pool_next := if int (length (loops p)) \<le> n then 0 else n\<rparr>)
         else Inl OutOfRange
    else Inr (baseLoop p, p))"

definition getLoopForHash :: "nat \<Rightarrow> 64 word \<Rightarrow> EventLoopThreadPool \<Rightarrow> nat res" where
  "getLoopForHash cur hashCode p =
    rbind (pool_assertInLoopThread cur p) (\<lambda>_.
    if \<not> pool_started p then Inl AssertFail
    else Inr (if loops p \<noteq> [] then loops p ! (unat hashCode mod length (loops p)) else baseLoop p))"

definition getAllLoops :: "nat \<Rightarrow> EventLoopThreadPool \<Rightarrow> nat list res" where
  "getAllLoops cur p =
    rbind (pool_assertInLoopThread cur p) (\<lambda>_.
    if \<not> pool_started p then Inl AssertFail
    else Inr (if loops p = [] then [baseLoop p] else loops p))"

section \<open>Specification\<close>

text \<open>Successive calls of \<open>getNextLoop\<close>.\<close>

fun next_loops :: "nat \<Rightarrow> nat \<Rightarrow> EventLoopThreadPool \<Rightarrow> (nat list \<times> EventLoopThreadPool) res" where
  "next_loops 0 cur p = Inr ([], p)"
| "next_loops (Suc k) cur p =
    rbind (getNextLoop cur p) (\<lambda>(l, p). rbind (next_loops k cur p) (\<lambda>(ls, p). Inr (l # ls, p)))"

definition pool_loops :: "EventLoopThreadPool \<Rightarrow> nat list" where
  "pool_loops p = (if loops p = [] then [baseLoop p] else loops p)"

definition pool_inv :: "EventLoopThreadPool \<Rightarrow> bool" where
  "pool_inv p \<longleftrightarrow> pool_started p \<and> 0 \<le> pool_next p \<and> pool_next p < int (length (pool_loops p)) \<and>
    (loops p = [] \<longrightarrow> pool_next p = 0)"

section \<open>Lemmas\<close>

lemma pool_loops_nonempty [simp]: "pool_loops p \<noteq> []"
  by (simp add: pool_loops_def)

lemma getNextLoop_ok:
  assumes "pool_inv p" and "cur = baseLoop p"
  shows "getNextLoop cur p = Inr (pool_loops p ! nat (pool_next p),
    p\<lparr>pool_next := (pool_next p + 1) mod int (length (pool_loops p))\<rparr>)"
proof (cases "loops p = []")
  case True
  then show ?thesis using assms by (simp add: getNextLoop_def pool_assertInLoopThread_def pool_inv_def pool_loops_def)
next
  case False
  then have "nat (pool_next p) < length (loops p)" "0 \<le> pool_next p" "pool_started p"
    using assms(1) by (auto simp: pool_inv_def pool_loops_def)
  moreover have "(pool_next p + 1) mod int (length (loops p)) = (if int (length (loops p)) \<le> pool_next p + 1 then 0 else pool_next p + 1)"
  proof (cases "int (length (loops p)) \<le> pool_next p + 1")
    case True
    then have "pool_next p + 1 = int (length (loops p))" using \<open>nat (pool_next p) < _\<close> \<open>0 \<le> pool_next p\<close> by linarith
    then show ?thesis by simp
  qed (use \<open>0 \<le> pool_next p\<close> in simp)
  ultimately show ?thesis
    using False assms(2) by (simp add: getNextLoop_def pool_assertInLoopThread_def pool_loops_def Let_def)
qed

lemma pool_inv_next:
  assumes "pool_inv p"
  shows "pool_inv (p\<lparr>pool_next := (pool_next p + 1) mod int (length (pool_loops p))\<rparr>)"
  using assms by (auto simp: pool_inv_def pool_loops_def)

lemma next_loops_ok:
  "pool_inv p \<Longrightarrow> cur = baseLoop p \<Longrightarrow>
    \<exists>p'. next_loops k cur p =
      Inr (map (\<lambda>j. pool_loops p ! ((nat (pool_next p) + j) mod length (pool_loops p))) [0..<k], p') \<and> pool_inv p'"
proof (induction k arbitrary: p)
  case 0
  then show ?case by simp
next
  case (Suc k)
  let ?n = "length (pool_loops p)" and ?i = "nat (pool_next p)"
  let ?q = "p\<lparr>pool_next := (pool_next p + 1) mod int ?n\<rparr>"
  have i: "?i < ?n" "pool_next p = int ?i" using Suc.prems(1) by (auto simp: pool_inv_def)
  have q: "pool_inv ?q" "baseLoop ?q = baseLoop p" "pool_loops ?q = pool_loops p"
    using pool_inv_next [OF Suc.prems(1)] by (simp_all add: pool_loops_def)
  have "(pool_next p + 1) mod int ?n = int (Suc ?i mod ?n)"
    using i(2) by (metis of_nat_Suc add.commute zmod_int)
  then have n: "nat (pool_next ?q) = Suc ?i mod ?n" by simp
  from Suc.IH [OF q(1)] q(2) Suc.prems(2) obtain p' where
    "next_loops k cur ?q = Inr (map (\<lambda>j. pool_loops p ! ((Suc ?i mod ?n + j) mod ?n)) [0..<k], p')" "pool_inv p'"
    unfolding q(3) n by auto
  moreover have "(Suc ?i mod ?n + j) mod ?n = (?i + Suc j) mod ?n" for j by (simp add: mod_add_left_eq)
  moreover have "map (\<lambda>j. pool_loops p ! ((?i + j) mod ?n)) [0..<Suc k]
      = pool_loops p ! ?i # map (\<lambda>j. pool_loops p ! ((?i + Suc j) mod ?n)) [0..<k]"
    using i(1) by (simp add: upt_conv_Cons map_Suc_upt [symmetric] del: upt_Suc map_Suc_upt)
  ultimately show ?case using getNextLoop_ok [OF Suc.prems] by simp
qed

lemma fold_start_thread:
  "fold (start_thread loop_of cb) is p =
    p\<lparr>pool_threads := pool_threads p @ map (\<lambda>i. snd (snprintf (length (pool_name p) + 32) (pool_name p @ dec_nat i))) is,
      inited := inited p @ (if cb then map loop_of is else []), loops := loops p @ map loop_of is\<rparr>"
  by (induction "is" arbitrary: p) (simp_all add: start_thread_def Let_def)

lemma pool_start_ok:
  assumes "\<not> pool_started p" and "cur = baseLoop p" and "loops p = []" and "pool_next p = 0"
  shows "\<exists>p'. pool_start loop_of cb cur p = Inr p' \<and> pool_inv p' \<and> baseLoop p' = baseLoop p \<and>
    loops p' = map loop_of [0..<nat (numThreads p)] \<and>
    inited p' = inited p @ (if cb then if numThreads p = 0 then [baseLoop p] else loops p' else [])"
  using assms by (auto simp: pool_start_def pool_assertInLoopThread_def fold_start_thread pool_inv_def pool_loops_def Let_def)

section \<open>Properties\<close>

text \<open>C38: A pool of \<open>n\<close> threads serves them in turn: the \<open>j\<close>-th call of \<open>getNextLoop\<close> after \<open>start\<close> returns the loop of thread
  \<open>j mod n\<close>, so any \<open>n\<close> consecutive calls use every thread once; without threads every call returns the base loop. The
  initialisation callback is called once per loop, and a hash code always selects the same loop of those listed.\<close>

theorem pool_round_robin:
  assumes "0 \<le> n"
  shows "\<exists>p p'. pool_start loop_of True base (setNumThreads n (EventLoopThreadPool_new base name)) = Inr p \<and>
    next_loops k base p = Inr (map (\<lambda>j. if n = 0 then base else loop_of (j mod nat n)) [0..<k], p') \<and>
    getAllLoops base p = Inr (inited p) \<and> inited p = (if n = 0 then [base] else map loop_of [0..<nat n]) \<and>
    getLoopForHash base h p = Inr (inited p ! (unat h mod length (inited p)))"
proof -
  obtain p where p: "pool_start loop_of True base (setNumThreads n (EventLoopThreadPool_new base name)) = Inr p"
    "pool_inv p" "baseLoop p = base" "loops p = map loop_of [0..<nat n]" "inited p = (if n = 0 then [base] else loops p)"
    "pool_next p = 0"
    using assms by (auto simp: pool_start_def pool_assertInLoopThread_def fold_start_thread pool_inv_def pool_loops_def
        Let_def setNumThreads_def EventLoopThreadPool_new_def)
  have l: "pool_loops p = (if n = 0 then [base] else map loop_of [0..<nat n])" "inited p = pool_loops p"
    using p(3-5) assms by (auto simp: pool_loops_def)
  obtain p' where "next_loops k base p = Inr (map (\<lambda>j. pool_loops p ! (j mod length (pool_loops p))) [0..<k], p')"
    using next_loops_ok [OF p(2), of base k] p(3,6) by auto
  moreover have "pool_loops p ! (j mod length (pool_loops p)) = (if n = 0 then base else loop_of (j mod nat n))" for j
    using l(1) assms by simp
  moreover have "getAllLoops base p = Inr (inited p)" "getLoopForHash base h p = Inr (inited p ! (unat h mod length (inited p)))"
    using p(2,3) l(2) by (auto simp: getAllLoops_def getLoopForHash_def pool_assertInLoopThread_def pool_inv_def pool_loops_def)
  ultimately show ?thesis using p(1) l by auto
qed

theorem pool_round_robin_witness:
  "\<exists>p p'. pool_start (\<lambda>i. i + 10) True 1 (setNumThreads 3 (EventLoopThreadPool_new 1 ''io'')) = Inr p \<and>
    next_loops 5 1 p = Inr ([10, 11, 12, 10, 11], p')"
proof -
  have "map (\<lambda>j. if (3 :: int) = 0 then 1 else j mod nat 3 + 10) [0..<5] = [10, 11, 12, 10, 11 :: nat]" by code_simp
  with pool_round_robin [of 3 "\<lambda>i. i + 10" 1 "''io''" 5 0] show ?thesis by auto
qed

end
