(* ===== verification/TcpServer.thy ===== *)
theory TcpServer
  imports Acceptor ConnectionLife EventLoopThreadPool "HOL-Library.AList" "HOL-Library.List_Lexorder" "HOL-Library.Char_ord"
begin

text \<open>
  \<^verbatim>\<open>src/netlib/net/TcpServer.h\<close> and \<^verbatim>\<open>TcpServer.cc\<close>: the server accepts connections, spreads them over the loops of its pool
  and keeps them in a map by name until they are closed.

  The connections are objects: \<open>conns\<close> maps pointers to them, each a \<open>TcpConnection\<close> with its loop and name, and the map of the
  class, \<open>connections\<close>, has pointers. A functor for a loop is run in place when the caller is on that loop, otherwise it
  waits in \<open>queue\<close>, a list of loops and functors; \<open>srv_run_functor\<close> takes the first one of a loop. The pointer of a new
  connection is an argument (the allocator's choice). The connection's own operations are those of \<open>TcpConnection\<close>:
  \<open>conn_op\<close> runs one and, when it has called the close callback, goes on with \<open>removeConnection\<close>, which is what the
  callback is set to.
\<close>

section \<open>Model\<close>

datatype srv_functor = FEstablished nat | FRemove nat | FDestroyed nat | FListen

record server_conn =
  sc_loop :: nat
  sc_name :: string
  sc_obj :: TcpConnection

record TcpServer =
  srv_loop :: nat
  ipPort :: string
  srv_name :: string
  acceptor :: Acceptor
  threadPool :: EventLoopThreadPool
  writeComplete :: bool
  nextConnId :: int
  connections :: "(string \<times> nat) list"
  srv_started :: bool
  conns :: "nat \<rightharpoonup> server_conn"
  queue :: "(nat \<times> srv_functor) list"

definition TcpServer_new :: "nat \<Rightarrow> int \<Rightarrow> int \<Rightarrow> sockaddr_in \<Rightarrow> string \<Rightarrow> bool \<Rightarrow> TcpServer res" where
  "TcpServer_new base sockFd nullFd listenAddr name cReusePort =
    rbind (toIpPort listenAddr) (\<lambda>ip.
    rbind (Acceptor_new sockFd nullFd listenAddr cReusePort) (\<lambda>a.
    Inr \<lparr>srv_loop = base, ipPort = ip, srv_name = name, acceptor = setNewConnectionCallBack a,
      threadPool = EventLoopThreadPool_new base name, writeComplete = False, nextConnId = 1, connections = [],
      srv_started = False, conns = Map.empty, queue = []\<rparr>))"

definition setThreadNums :: "int \<Rightarrow> TcpServer \<Rightarrow> TcpServer res" where
  "setThreadNums num s = (if 0 \<le> num then Inr (s\<lparr>threadPool := setNumThreads num (threadPool s)\<rparr>) else Inl AssertFail)"

definition srv_assertInLoopThread :: "nat \<Rightarrow> TcpServer \<Rightarrow> unit res" where
  "srv_assertInLoopThread cur s = (if cur = srv_loop s then Inr () else Inl Abort)"

definition srv_queueInLoop :: "nat \<Rightarrow> srv_functor \<Rightarrow> TcpServer \<Rightarrow> TcpServer" where
  "srv_queueInLoop l f s = s\<lparr>queue := queue s @ [(l, f)]\<rparr>"

text \<open>An operation of the connection at a pointer, on the thread of the loop \<open>cur\<close>.\<close>

definition with_conn :: "nat \<Rightarrow> (TcpConnection \<Rightarrow> TcpConnection res) \<Rightarrow> nat \<Rightarrow> TcpServer \<Rightarrow> TcpServer res" where
  "with_conn cur f p s =
    (case conns s p of
       None \<Rightarrow> Inl UseAfterFree
     | Some c \<Rightarrow> rbind (f ((sc_obj c)\<lparr>inLoop_c := (cur = sc_loop c)\<rparr>)) (\<lambda>t.
         Inr (s\<lparr>conns := (conns s)(p \<mapsto> c\<lparr>sc_obj := t\<rparr>)\<rparr>)))"

definition connName :: "TcpServer \<Rightarrow> int \<Rightarrow> string" where
  "connName s n = srv_name s @ snd (snprintf 64 (''-'' @ ipPort s @ ''#'' @ dec_int n))"

definition newConnection :: "nat \<Rightarrow> int \<Rightarrow> nat \<Rightarrow> TcpServer \<Rightarrow> TcpServer res" where
  "newConnection cur fd p s =
    rbind (srv_assertInLoopThread cur s) (\<lambda>_.
    rbind (getNextLoop cur (threadPool s)) (\<lambda>(threadLoop, pool).
    rbind (TcpConnection_new fd) (\<lambda>t.
    let conName = connName s (nextConnId s);
        t = (if writeComplete s then setWriteCompleteCallBack t else t);
        s = s\<lparr>threadPool := pool, nextConnId := nextConnId s + 1,
          conns := (conns s)(p \<mapsto> \<lparr>sc_loop = threadLoop, sc_name = conName, sc_obj = t\<rparr>),
          connections := AList.update conName p (connections s)\<rparr>
    in if threadLoop = cur then with_conn cur (connectEstablished p) p s
       else Inr (srv_queueInLoop threadLoop (FEstablished p) s))))"

definition removeConnectionInLoop :: "nat \<Rightarrow> nat \<Rightarrow> TcpServer \<Rightarrow> TcpServer res" where
  "removeConnectionInLoop cur p s =
    rbind (srv_assertInLoopThread cur s) (\<lambda>_.
    case conns s p of
      None \<Rightarrow> Inl UseAfterFree
    | Some c \<Rightarrow>
        if map_of (connections s) (sc_name c) = None then Inl AssertFail
        else Inr (srv_queueInLoop (sc_loop c) (FDestroyed p)
               (s\<lparr>connections := AList.delete (sc_name c) (connections s)\<rparr>)))"

definition removeConnection :: "nat \<Rightarrow> nat \<Rightarrow> TcpServer \<Rightarrow> TcpServer res" where
  "removeConnection cur p s =
    (if cur = srv_loop s then removeConnectionInLoop cur p s else Inr (srv_queueInLoop (srv_loop s) (FRemove p) s))"

definition srv_start :: "(nat \<Rightarrow> nat) \<Rightarrow> bool \<Rightarrow> nat \<Rightarrow> TcpServer \<Rightarrow> TcpServer res" where
  "srv_start loop_of cb cur s =
    (if \<not> srv_started s
     then let s = s\<lparr>srv_started := True\<rparr> in
       rbind (pool_start loop_of cb cur (threadPool s)) (\<lambda>pool.
       let s = s\<lparr>threadPool := pool\<rparr> in
       if listening (acceptor s) then Inl AssertFail
       else if cur = srv_loop s then rbind (ac_listen (acceptor s)) (\<lambda>a. Inr (s\<lparr>acceptor := a\<rparr>))
       else Inr (srv_queueInLoop (srv_loop s) FListen s))
     else Inr s)"

text \<open>The destructor gives up all connections, in the order of the map.\<close>

fun destroy_all :: "nat \<Rightarrow> (string \<times> nat) list \<Rightarrow> TcpServer \<Rightarrow> TcpServer res" where
  "destroy_all cur [] s = Inr s"
| "destroy_all cur ((_, p) # ps) s =
    (case conns s p of
       None \<Rightarrow> Inl UseAfterFree
     | Some c \<Rightarrow>
         rbind (if sc_loop c = cur then with_conn cur conncetDestoryed p s
                else Inr (srv_queueInLoop (sc_loop c) (FDestroyed p) s)) (destroy_all cur ps))"

definition TcpServer_delete :: "nat \<Rightarrow> TcpServer \<Rightarrow> TcpServer res" where
  "TcpServer_delete cur s =
    rbind (srv_assertInLoopThread cur s) (\<lambda>_. destroy_all cur (sort_key fst (connections s)) s)"

text \<open>The functors, and the operations of a connection on its loop.\<close>

fun run_srv_functor :: "nat \<Rightarrow> srv_functor \<Rightarrow> TcpServer \<Rightarrow> TcpServer res" where
  "run_srv_functor cur (FEstablished p) s = with_conn cur (connectEstablished p) p s"
| "run_srv_functor cur (FRemove p) s = removeConnectionInLoop cur p s"
| "run_srv_functor cur (FDestroyed p) s = with_conn cur conncetDestoryed p s"
| "run_srv_functor cur FListen s = rbind (ac_listen (acceptor s)) (\<lambda>a. Inr (s\<lparr>acceptor := a\<rparr>))"

fun take_first :: "nat \<Rightarrow> (nat \<times> srv_functor) list \<Rightarrow> (srv_functor \<times> (nat \<times> srv_functor) list) option" where
  "take_first l [] = None"
| "take_first l ((k, f) # q) =
    (if k = l then Some (f, q) else case take_first l q of None \<Rightarrow> None | Some (g, q') \<Rightarrow> Some (g, (k, f) # q'))"

definition srv_run_functor :: "nat \<Rightarrow> TcpServer \<Rightarrow> TcpServer res" where
  "srv_run_functor l s =
    (case take_first l (queue s) of
       None \<Rightarrow> Inr s
     | Some (f, q) \<Rightarrow> run_srv_functor l f (s\<lparr>queue := q\<rparr>))"

definition conn_op :: "nat \<Rightarrow> tc_event \<Rightarrow> TcpServer \<Rightarrow> TcpServer res" where
  "conn_op p e s =
    (case conns s p of
       None \<Rightarrow> Inl UseAfterFree
     | Some c \<Rightarrow>
         rbind (tc_step True e (sc_obj c)) (\<lambda>t.
         let s = s\<lparr>conns := (conns s)(p \<mapsto> c\<lparr>sc_obj := t\<rparr>)\<rparr>
         in if calls_close (sc_obj c) t then removeConnection (sc_loop c) p s else Inr s))"

datatype srv_event = NewConnection int nat | RunFunctor nat | ConnOp nat tc_event

fun srv_step :: "srv_event \<Rightarrow> TcpServer \<Rightarrow> TcpServer res" where
  "srv_step (NewConnection fd p) s = newConnection (srv_loop s) fd p s"
| "srv_step (RunFunctor l) s = srv_run_functor l s"
| "srv_step (ConnOp p e) s = conn_op p e s"

section \<open>Specification\<close>

text \<open>A new connection needs an unused pointer and a number that does not overflow. The operations of a connection are those
  of its life between being established and closed, within the guards of \<open>TcpConnection\<close>.\<close>

fun srv_guard :: "srv_event \<Rightarrow> TcpServer \<Rightarrow> bool" where
  "srv_guard (NewConnection fd p) s \<longleftrightarrow> conns s p = None \<and> nextConnId s < 2 ^ 31 - 1"
| "srv_guard (RunFunctor l) s \<longleftrightarrow> True"
| "srv_guard (ConnOp p e) s \<longleftrightarrow> is_conn_op e \<and>
    (case conns s p of
       None \<Rightarrow> False
     | Some c \<Rightarrow> (tc_state (sc_obj c) = cConnected \<or> tc_state (sc_obj c) = cDisconnecting) \<and> tc_guard e (sc_obj c))"

fun ptr :: "srv_functor \<Rightarrow> nat option" where
  "ptr (FEstablished p) = Some p"
| "ptr (FRemove p) = Some p"
| "ptr (FDestroyed p) = Some p"
| "ptr FListen = None"

definition pend :: "nat \<Rightarrow> TcpServer \<Rightarrow> (nat \<times> srv_functor) list" where
  "pend p s = filter (\<lambda>(l, f). ptr f = Some p) (queue s)"

text \<open>The life of a connection: what is in the map and what is planned for it, by its state.\<close>

definition conn_ok :: "TcpServer \<Rightarrow> nat \<Rightarrow> server_conn \<Rightarrow> bool" where
  "conn_ok s p c \<longleftrightarrow> tc_inv (sc_obj c) \<and>
    (case tc_state (sc_obj c) of
       cConnecting \<Rightarrow> map_of (connections s) (sc_name c) = Some p \<and> pend p s = [(sc_loop c, FEstablished p)]
     | cDisconnected \<Rightarrow> isNoneEvent (tc_chnnel (sc_obj c)) \<and>
         (map_of (connections s) (sc_name c) = Some p \<and> pend p s = [(srv_loop s, FRemove p)] \<and> ch_flag (tc_chnnel (sc_obj c)) \<noteq> cNew \<or>
          map_of (connections s) (sc_name c) = None \<and> pend p s = [(sc_loop c, FDestroyed p)] \<and> ch_flag (tc_chnnel (sc_obj c)) \<noteq> cNew \<or>
          map_of (connections s) (sc_name c) = None \<and> pend p s = [] \<and> ch_flag (tc_chnnel (sc_obj c)) = cNew)
     | _ \<Rightarrow> map_of (connections s) (sc_name c) = Some p \<and> pend p s = [])"

definition names_ok :: "TcpServer \<Rightarrow> bool" where
  "names_ok s \<longleftrightarrow> 1 \<le> nextConnId s \<and> length (ipPort s) \<le> 21 \<and> nextConnId s < 2 ^ 31 \<and>
    (\<forall>p c. conns s p = Some c \<longrightarrow> (\<exists>n. 1 \<le> n \<and> n < nextConnId s \<and> sc_name c = connName s n)) \<and>
    (\<forall>p c q d. conns s p = Some c \<longrightarrow> conns s q = Some d \<longrightarrow> sc_name c = sc_name d \<longrightarrow> p = q)"

definition srv_inv :: "TcpServer \<Rightarrow> bool" where
  "srv_inv s \<longleftrightarrow> names_ok s \<and> pool_inv (threadPool s) \<and> baseLoop (threadPool s) = srv_loop s \<and> ac_inLoop (acceptor s) \<and>
    (\<forall>p c. conns s p = Some c \<longrightarrow> conn_ok s p c) \<and>
    (\<forall>p. conns s p = None \<longrightarrow> pend p s = []) \<and>
    (\<forall>name p. map_of (connections s) name = Some p \<longrightarrow> (\<exists>c. conns s p = Some c \<and> sc_name c = name))"

section \<open>Lemmas\<close>

subsection \<open>Names\<close>

lemma connName_text:
  assumes "length (ipPort s) \<le> 21" and "1 \<le> n" and "n < 2 ^ 31"
  shows "connName s n = srv_name s @ ''-'' @ ipPort s @ ''#'' @ dec_nat (nat n)"
proof -
  have "length (dec_nat (nat n)) \<le> 10" using length_dec_nat_le [of "nat n" 10] assms(3) by simp
  then have "length (''-'' @ ipPort s @ ''#'' @ dec_nat (nat n)) \<le> 63" using assms(1) by simp
  then show ?thesis using assms(2) by (simp add: connName_def snprintf_def dec_int_def take_all)
qed

lemma connName_inj:
  assumes "length (ipPort s) \<le> 21" and "1 \<le> n" "n < 2 ^ 31" and "1 \<le> k" "k < 2 ^ 31" and "connName s n = connName s k"
  shows "n = k"
proof -
  have "dec_nat (nat n) = dec_nat (nat k)"
    using assms(6) unfolding connName_text [OF assms(1-3)] connName_text [OF assms(1,4,5)] by simp
  then have "nat n = nat k" using read_dec_nat by metis
  then show ?thesis using assms(2,4) by simp
qed

subsection \<open>Changing one connection\<close>

definition same_server :: "TcpServer \<Rightarrow> TcpServer \<Rightarrow> bool" where
  "same_server s s' \<longleftrightarrow> srv_loop s' = srv_loop s \<and> ipPort s' = ipPort s \<and> srv_name s' = srv_name s \<and>
    nextConnId s' = nextConnId s \<and> threadPool s' = threadPool s \<and> ac_inLoop (acceptor s') = ac_inLoop (acceptor s)"

lemma same_server_name: "same_server s s' \<Longrightarrow> connName s' n = connName s n"
  by (simp add: same_server_def connName_def)

lemma srv_inv_update:
  assumes inv: "srv_inv s" and c: "conns s p = Some c" and same: "same_server s s'"
    and new: "conns s' = (conns s)(p \<mapsto> c')" "sc_name c' = sc_name c"
    and pend: "\<And>q. q \<noteq> p \<Longrightarrow> pend q s' = pend q s"
    and map: "\<And>n. n \<noteq> sc_name c \<Longrightarrow> map_of (connections s') n = map_of (connections s) n"
    and mine: "map_of (connections s') (sc_name c) = None \<or> map_of (connections s') (sc_name c) = Some p"
    and ok: "conn_ok s' p c'"
  shows "srv_inv s'"
proof -
  have n: "names_ok s" using inv by (simp add: srv_inv_def)
  then have n': "names_ok s'"
    using same c new unfolding names_ok_def same_server_name [OF same] by (auto simp: same_server_def split: if_splits)
  have "conn_ok s' q d" if "conns s' q = Some d" for q d
  proof (cases "q = p")
    case True
    then show ?thesis using that new ok by simp
  next
    case False
    then have d: "conns s q = Some d" using that new by simp
    then have "sc_name d \<noteq> sc_name c" using n c False by (auto simp: names_ok_def)
    then have m: "map_of (connections s') (sc_name d) = map_of (connections s) (sc_name d)" by (rule map)
    have "conn_ok s q d" using inv d by (simp add: srv_inv_def)
    then show ?thesis
      using m pend [OF False] same by (cases "tc_state (sc_obj d)") (simp_all add: conn_ok_def same_server_def)
  qed
  moreover have "pend q s' = []" if "conns s' q = None" for q
  proof -
    have "q \<noteq> p" "conns s q = None" using that new by (auto split: if_splits)
    then show ?thesis using pend inv by (auto simp: srv_inv_def)
  qed
  moreover have "\<exists>d. conns s' q = Some d \<and> sc_name d = name" if "map_of (connections s') name = Some q" for name q
  proof (cases "name = sc_name c")
    case True
    then show ?thesis using mine that new by auto
  next
    case False
    then have "\<exists>d. conns s q = Some d \<and> sc_name d = name" using that map inv by (auto simp: srv_inv_def)
    then show ?thesis using new c by auto
  qed
  ultimately show ?thesis using n' inv same by (auto simp: srv_inv_def same_server_def)
qed

lemma pend_queue [simp]:
  "pend q (srv_queueInLoop l f s) = pend q s @ (if ptr f = Some q then [(l, f)] else [])"
  by (simp add: pend_def srv_queueInLoop_def)

lemma queue_sel [simp]:
  "srv_loop (srv_queueInLoop l f s) = srv_loop s" "conns (srv_queueInLoop l f s) = conns s"
  "connections (srv_queueInLoop l f s) = connections s" "ipPort (srv_queueInLoop l f s) = ipPort s"
  "srv_name (srv_queueInLoop l f s) = srv_name s" "nextConnId (srv_queueInLoop l f s) = nextConnId s"
  "threadPool (srv_queueInLoop l f s) = threadPool s" "acceptor (srv_queueInLoop l f s) = acceptor s"
  by (simp_all add: srv_queueInLoop_def)

lemma pend_cong: "queue s' = queue s \<Longrightarrow> pend q s' = pend q s"
  by (simp add: pend_def)

lemma conn_inv: "srv_inv s \<Longrightarrow> conns s p = Some c \<Longrightarrow> conn_ok s p c \<and> tc_inv (sc_obj c)"
  by (auto simp: srv_inv_def conn_ok_def)

subsection \<open>Establishing, removing and destroying\<close>

lemma remove_ok:
  assumes inv: "srv_inv s" and c: "conns s p = Some c" and t: "tc_inv t" "tc_state t = cDisconnected"
    "isNoneEvent (tc_chnnel t)" "ch_flag (tc_chnnel t) \<noteq> cNew"
    and s': "same_server s s'" "conns s' = (conns s)(p \<mapsto> c\<lparr>sc_obj := t\<rparr>)" "connections s' = connections s"
    and m: "map_of (connections s) (sc_name c) = Some p"
    and pend: "pend p s' = []" "\<And>q. q \<noteq> p \<Longrightarrow> pend q s' = pend q s"
  shows "ok srv_inv (removeConnectionInLoop (srv_loop s) p s')"
    and "srv_inv (srv_queueInLoop (srv_loop s) (FRemove p) s')"
proof -
  let ?s1 = "srv_queueInLoop (sc_loop c) (FDestroyed p) (s'\<lparr>connections := AList.delete (sc_name c) (connections s')\<rparr>)"
  have e: "removeConnectionInLoop (srv_loop s) p s' = Inr ?s1"
    using s' m by (simp add: removeConnectionInLoop_def srv_assertInLoopThread_def same_server_def)
  have p1: "pend q (s'\<lparr>connections := x\<rparr>) = pend q s'" for q x by (rule pend_cong) simp
  have "srv_inv ?s1"
  proof (rule srv_inv_update [OF inv c])
    show "conn_ok ?s1 p (c\<lparr>sc_obj := t\<rparr>)"
      using t pend(1) p1 by (simp add: conn_ok_def delete_conv')
  qed (use s' pend(2) p1 in \<open>auto simp: same_server_def delete_conv'\<close>)
  then show "ok srv_inv (removeConnectionInLoop (srv_loop s) p s')" using e by simp
  show "srv_inv (srv_queueInLoop (srv_loop s) (FRemove p) s')"
  proof (rule srv_inv_update [OF inv c])
    show "conn_ok (srv_queueInLoop (srv_loop s) (FRemove p) s') p (c\<lparr>sc_obj := t\<rparr>)"
      using t pend(1) m s' by (simp add: conn_ok_def same_server_def)
  qed (use s' pend m in \<open>auto simp: same_server_def\<close>)
qed

subsection \<open>Functors\<close>

lemma take_first_split:
  "take_first l q = Some (f, q') \<Longrightarrow> \<exists>xs ys. q = xs @ (l, f) # ys \<and> q' = xs @ ys"
proof (induction q arbitrary: q')
  case Nil
  then show ?case by simp
next
  case (Cons a q)
  obtain k g where a: "a = (k, g)" by (cases a)
  show ?case
  proof (cases "k = l")
    case True
    then show ?thesis using Cons.prems a by (intro exI [of _ "[]"] exI [of _ q]) simp
  next
    case False
    then obtain r where "take_first l q = Some (f, r)" "q' = (k, g) # r" using Cons.prems a by (auto split: option.splits)
    with Cons.IH obtain xs ys where "q = xs @ (l, f) # ys" "q' = ((k, g) # xs) @ ys" by fastforce
    then show ?thesis using a by (intro exI [of _ "(k, g) # xs"] exI [of _ ys]) simp
  qed
qed

text \<open>Taking a functor off the queue leaves what is planned for the other connections; for its own there was nothing
  else.\<close>

lemma pend_take:
  assumes "srv_inv s" and "take_first l (queue s) = Some (f, q)"
  shows "ptr f \<noteq> Some r \<Longrightarrow> pend r (s\<lparr>queue := q\<rparr>) = pend r s"
    and "ptr f = Some p \<Longrightarrow> pend p s = [(l, f)] \<and> pend p (s\<lparr>queue := q\<rparr>) = []"
proof -
  obtain xs ys where q: "queue s = xs @ (l, f) # ys" "q = xs @ ys" using take_first_split [OF assms(2)] by blast
  show "ptr f \<noteq> Some r \<Longrightarrow> pend r (s\<lparr>queue := q\<rparr>) = pend r s" using q by (simp add: pend_def)
  assume f: "ptr f = Some p"
  then have e: "pend p s = pend p (s\<lparr>queue := xs\<rparr>) @ (l, f) # pend p (s\<lparr>queue := ys\<rparr>)" using q by (simp add: pend_def)
  then have "conns s p \<noteq> None" using assms(1) by (auto simp: srv_inv_def)
  then obtain c where "conn_ok s p c" using assms(1) by (auto simp: srv_inv_def)
  then have "length (pend p s) \<le> 1" by (cases "tc_state (sc_obj c)") (auto simp: conn_ok_def)
  then show "pend p s = [(l, f)] \<and> pend p (s\<lparr>queue := q\<rparr>) = []" using e q by (auto simp: pend_def)
qed

lemma functor_conn:
  assumes "srv_inv s" and "pend p s = [(l, f)]"
  shows "\<exists>c. conns s p = Some c \<and> tc_inv (sc_obj c) \<and>
    (f = FEstablished p \<longrightarrow> l = sc_loop c \<and> tc_state (sc_obj c) = cConnecting \<and> map_of (connections s) (sc_name c) = Some p) \<and>
    (f = FRemove p \<longrightarrow> l = srv_loop s \<and> map_of (connections s) (sc_name c) = Some p) \<and>
    (f = FDestroyed p \<longrightarrow> l = sc_loop c \<and> map_of (connections s) (sc_name c) = None) \<and>
    (f = FRemove p \<or> f = FDestroyed p \<longrightarrow> tc_state (sc_obj c) = cDisconnected \<and> isNoneEvent (tc_chnnel (sc_obj c)) \<and>
       ch_flag (tc_chnnel (sc_obj c)) \<noteq> cNew)"
proof -
  have "conns s p \<noteq> None" using assms by (auto simp: srv_inv_def)
  then obtain c where c: "conns s p = Some c" by blast
  then have "conn_ok s p c" using assms(1) by (simp add: srv_inv_def)
  then show ?thesis using c assms(2) by (cases "tc_state (sc_obj c)") (auto simp: conn_ok_def)
qed

lemma established_functor:
  assumes "srv_inv s" and "conns s p = Some c" and "tc_inv (sc_obj c)" and "tc_state (sc_obj c) = cConnecting"
    and "map_of (connections s) (sc_name c) = Some p" and "same_server s s'" "conns s' = conns s" "connections s' = connections s"
    and "pend p s' = []" and "\<And>q. q \<noteq> p \<Longrightarrow> pend q s' = pend q s"
  shows "ok srv_inv (with_conn (sc_loop c) (connectEstablished p) p s')"
proof -
  obtain t where t: "connectEstablished p (sc_obj c) = Inr t" "tc_inv t" "tc_state t = cConnected"
    using established_life [OF assms(3,4)] by (auto simp: ok_iff)
  let ?s = "s'\<lparr>conns := (conns s')(p \<mapsto> c\<lparr>sc_obj := t\<rparr>)\<rparr>"
  have pc: "pend q ?s = pend q s'" for q by (rule pend_cong) simp
  have "srv_inv ?s"
    by (rule srv_inv_update [OF assms(1,2), where c' = "c\<lparr>sc_obj := t\<rparr>"]) (use assms t pc in \<open>auto simp: same_server_def conn_ok_def\<close>)
  then show ?thesis using assms(2,7) t(1) here_inv [OF assms(3)] by (simp add: with_conn_def)
qed

lemma destroyed_functor:
  assumes "srv_inv s" and "conns s p = Some c" and "tc_inv (sc_obj c)" and "tc_state (sc_obj c) = cDisconnected"
    and "isNoneEvent (tc_chnnel (sc_obj c))" and "ch_flag (tc_chnnel (sc_obj c)) \<noteq> cNew"
    and "map_of (connections s) (sc_name c) = None" and "same_server s s'" "conns s' = conns s" "connections s' = connections s"
    and "pend p s' = []" and "\<And>q. q \<noteq> p \<Longrightarrow> pend q s' = pend q s"
  shows "ok srv_inv (with_conn (sc_loop c) conncetDestoryed p s')"
proof -
  obtain t where t: "conncetDestoryed (sc_obj c) = Inr t" "tc_inv t" "tc_state t = cDisconnected" "isNoneEvent (tc_chnnel t)"
    "ch_flag (tc_chnnel t) = cNew"
    using destroyed_life [OF assms(3-6)] by (auto simp: ok_iff)
  let ?s = "s'\<lparr>conns := (conns s')(p \<mapsto> c\<lparr>sc_obj := t\<rparr>)\<rparr>"
  have pc: "pend q ?s = pend q s'" for q by (rule pend_cong) simp
  have "srv_inv ?s"
    by (rule srv_inv_update [OF assms(1,2), where c' = "c\<lparr>sc_obj := t\<rparr>"]) (use assms t pc in \<open>auto simp: same_server_def conn_ok_def\<close>)
  then show ?thesis using assms(2,9) t(1) here_inv [OF assms(3)] by (simp add: with_conn_def)
qed

lemma srv_functor_ok:
  assumes inv: "srv_inv s"
  shows "ok srv_inv (srv_run_functor l s)"
proof (cases "take_first l (queue s)")
  case None
  then show ?thesis using inv by (simp add: srv_run_functor_def)
next
  case (Some fq)
  obtain f q where f: "take_first l (queue s) = Some (f, q)" using Some by (cases fq) simp
  let ?s = "s\<lparr>queue := q\<rparr>"
  have same: "same_server s ?s" "conns ?s = conns s" "connections ?s = connections s" by (simp_all add: same_server_def)
  show ?thesis
  proof (cases "ptr f")
    case None
    then have p: "pend r ?s = pend r s" for r using pend_take(1) [OF inv f] by simp
    have "f = FListen" using None by (cases f) simp_all
    moreover have "srv_inv (?s\<lparr>acceptor := a\<rparr>)" if "ac_inLoop a" for a
    proof -
      have "pend r (?s\<lparr>acceptor := a\<rparr>) = pend r s" for r using p [of r] by (simp add: pend_def)
      then show ?thesis using inv that by (simp add: srv_inv_def names_ok_def connName_def conn_ok_def cong: StateE.case_cong)
    qed
    ultimately show ?thesis using f inv by (simp add: srv_run_functor_def ac_listen_def ac_assertInLoopThread_def srv_inv_def [of s])
  next
    case (Some p)
    note mine = pend_take(2) [OF inv f Some] and others = pend_take(1) [OF inv f]
    have o: "pend r ?s = pend r s" if "r \<noteq> p" for r using that Some others by auto
    obtain c where c: "conns s p = Some c" and t: "tc_inv (sc_obj c)"
      and est: "f = FEstablished p \<longrightarrow> l = sc_loop c \<and> tc_state (sc_obj c) = cConnecting \<and> map_of (connections s) (sc_name c) = Some p"
      and rem: "f = FRemove p \<longrightarrow> l = srv_loop s \<and> map_of (connections s) (sc_name c) = Some p"
      and des: "f = FDestroyed p \<longrightarrow> l = sc_loop c \<and> map_of (connections s) (sc_name c) = None"
      and dis: "f = FRemove p \<or> f = FDestroyed p \<longrightarrow> tc_state (sc_obj c) = cDisconnected \<and> isNoneEvent (tc_chnnel (sc_obj c)) \<and>
        ch_flag (tc_chnnel (sc_obj c)) \<noteq> cNew"
      using functor_conn [OF inv] mine by blast
    have "f = FEstablished p \<or> f = FRemove p \<or> f = FDestroyed p" using Some by (cases f) simp_all
    then show ?thesis
    proof (elim disjE)
      assume a: "f = FEstablished p"
      from established_functor [OF inv c t _ _ same] a est mine o show ?thesis using f by (simp add: srv_run_functor_def)
    next
      assume a: "f = FRemove p"
      from remove_ok(1) [OF inv c t _ _ _ same(1) _ same(3)] a rem dis mine o c show ?thesis
        using f by (simp add: srv_run_functor_def fun_upd_idem)
    next
      assume a: "f = FDestroyed p"
      from destroyed_functor [OF inv c t _ _ _ _ same] a des dis mine o show ?thesis using f by (simp add: srv_run_functor_def)
    qed
  qed
qed

subsection \<open>New connections\<close>

lemma conn_number: "names_ok s \<Longrightarrow> conns s q = Some d \<Longrightarrow> \<exists>n. 1 \<le> n \<and> n < nextConnId s \<and> sc_name d = connName s n"
  unfolding names_ok_def by blast

lemma fresh_name:
  assumes "names_ok s" and "conns s q = Some d"
  shows "sc_name d \<noteq> connName s (nextConnId s)"
proof
  assume "sc_name d = connName s (nextConnId s)"
  moreover obtain n where n: "1 \<le> n" "n < nextConnId s" "sc_name d = connName s n" using conn_number [OF assms] by blast
  ultimately have "n = nextConnId s" using assms(1) connName_inj [of s n "nextConnId s"] by (auto simp: names_ok_def)
  then show False using n by simp
qed

lemma add_conn_inv:
  fixes l :: nat
  assumes inv: "srv_inv s" and p: "conns s p = None" and n: "nextConnId s < 2 ^ 31 - 1" and t: "tc_inv t" "tc_state t = cConnecting"
    and pool: "pool_inv pool" "baseLoop pool = srv_loop s"
  defines "c \<equiv> \<lparr>sc_loop = l, sc_name = connName s (nextConnId s), sc_obj = t\<rparr>"
  defines "s1 \<equiv> s\<lparr>threadPool := pool, nextConnId := nextConnId s + 1, conns := (conns s)(p \<mapsto> c),
      connections := AList.update (connName s (nextConnId s)) p (connections s)\<rparr>"
  shows "srv_inv (srv_queueInLoop l (FEstablished p) s1)" and "pend p s1 = []" and "\<And>q. pend q s1 = pend q s"
proof -
  let ?k = "connName s (nextConnId s)" and ?s = "srv_queueInLoop l (FEstablished p) s1"
  have no: "names_ok s" using inv by (simp add: srv_inv_def)
  show pend: "pend q s1 = pend q s" for q by (rule pend_cong) (simp add: s1_def)
  show "pend p s1 = []" using pend [of p] inv p by (auto simp: srv_inv_def)
  have cn: "connName ?s k = connName s k" for k by (simp add: connName_def s1_def)
  have "names_ok ?s"
    unfolding names_ok_def cn
  proof (intro conjI allI impI)
    fix q d
    assume "conns ?s q = Some d"
    then have "q = p \<and> d = c \<or> conns s q = Some d" by (auto simp: s1_def split: if_splits)
    then show "\<exists>k. 1 \<le> k \<and> k < nextConnId ?s \<and> sc_name d = connName s k"
    proof
      assume "q = p \<and> d = c"
      then show ?thesis using no by (intro exI [of _ "nextConnId s"]) (simp add: c_def s1_def names_ok_def)
    next
      assume "conns s q = Some d"
      from conn_number [OF no this] show ?thesis by (fastforce simp: s1_def)
    qed
  next
    fix q d r e
    assume "conns ?s q = Some d" "conns ?s r = Some e" "sc_name d = sc_name e"
    moreover have "a = b" if "conns s a = Some x" "conns s b = Some y" "sc_name x = sc_name y" for a b x y
      using no that unfolding names_ok_def by blast
    ultimately show "q = r"
      using fresh_name [OF no, of q d] fresh_name [OF no, of r e] by (auto simp: s1_def c_def split: if_splits)
  qed (use no n in \<open>auto simp: s1_def names_ok_def\<close>)
  moreover have "conn_ok ?s q d" if "conns ?s q = Some d" for q d
  proof (cases "q = p")
    case True
    then have "d = c" using that by (simp add: s1_def)
    moreover have "pend p ?s = [(l, FEstablished p)]" using pend [of p] inv p by (simp add: srv_inv_def)
    moreover have "map_of (connections ?s) ?k = Some p" by (simp add: s1_def update_conv')
    ultimately show ?thesis using True t by (simp add: conn_ok_def c_def del: pend_queue queue_sel)
  next
    case False
    then have d: "conns s q = Some d" using that by (simp add: s1_def)
    then have "conn_ok s q d" "sc_name d \<noteq> ?k" using inv fresh_name [OF no] by (auto simp: srv_inv_def)
    moreover have "pend q ?s = pend q s" using False pend by simp
    ultimately show ?thesis
      by (cases "tc_state (sc_obj d)") (simp_all add: conn_ok_def, simp_all add: s1_def update_conv')
  qed
  moreover have "pend q ?s = []" if "conns ?s q = None" for q
    using that pend [of q] inv by (auto simp: s1_def srv_inv_def split: if_splits)
  moreover have "\<exists>d. conns ?s q = Some d \<and> sc_name d = name" if "map_of (connections ?s) name = Some q" for name q
    using that inv p by (fastforce simp: s1_def c_def update_conv' srv_inv_def split: if_splits)
  ultimately show "srv_inv ?s" using inv pool by (simp add: srv_inv_def) (simp add: s1_def)
qed

lemma newConnection_ok:
  assumes inv: "srv_inv s" and p: "conns s p = None" and n: "nextConnId s < 2 ^ 31 - 1"
  shows "ok srv_inv (newConnection (srv_loop s) fd p s)"
proof -
  have pl: "pool_inv (threadPool s)" "baseLoop (threadPool s) = srv_loop s" using inv by (simp_all add: srv_inv_def)
  obtain l pool where g: "getNextLoop (srv_loop s) (threadPool s) = Inr (l, pool)" "pool_inv pool" "baseLoop pool = srv_loop s"
    using getNextLoop_ok [OF pl(1)] pool_inv_next [OF pl(1)] pl(2) by simp
  obtain t0 where t0: "TcpConnection_new fd = Inr t0" "tc_inv t0" "tc_state t0 = cConnecting"
    using TcpConnection_new_ok [of fd] by (auto simp: ok_iff)
  define t where "t = (if writeComplete s then setWriteCompleteCallBack t0 else t0)"
  have t: "tc_inv t" "tc_state t = cConnecting" using t0 by (auto simp: t_def setWriteCompleteCallBack_def tc_inv_def)
  define c where "c = \<lparr>sc_loop = l, sc_name = connName s (nextConnId s), sc_obj = t\<rparr>"
  define s1 where "s1 = s\<lparr>threadPool := pool, nextConnId := nextConnId s + 1, conns := (conns s)(p \<mapsto> c),
      connections := AList.update (connName s (nextConnId s)) p (connections s)\<rparr>"
  note a = add_conn_inv [OF inv p n t g(2,3), of l, folded c_def, folded s1_def]
  have eq: "newConnection (srv_loop s) fd p s =
      (if l = srv_loop s then with_conn (srv_loop s) (connectEstablished p) p s1 else Inr (srv_queueInLoop l (FEstablished p) s1))"
    using g(1) t0(1) by (simp add: newConnection_def srv_assertInLoopThread_def Let_def t_def s1_def c_def)
  have "ok srv_inv (with_conn (sc_loop c) (connectEstablished p) p s1)"
  proof (rule established_functor [OF a(1)])
    show "conns (srv_queueInLoop l (FEstablished p) s1) p = Some c" by (simp add: s1_def)
  qed (use a t in \<open>auto simp: s1_def c_def update_conv' same_server_def\<close>)
  then show ?thesis using a(1) eq by (auto simp: c_def)
qed

subsection \<open>Operations of connections\<close>

lemma conn_op_ok:
  assumes inv: "srv_inv s" and g: "srv_guard (ConnOp p e) s"
  shows "ok srv_inv (conn_op p e s)"
proof -
  obtain c where c: "conns s p = Some c" "tc_state (sc_obj c) = cConnected \<or> tc_state (sc_obj c) = cDisconnecting"
    "tc_guard e (sc_obj c)" "is_conn_op e" using g by (auto split: option.splits)
  have co: "conn_ok s p c" "tc_inv (sc_obj c)" using conn_inv [OF inv c(1)] by simp_all
  then have m: "map_of (connections s) (sc_name c) = Some p" "pend p s = []" using c(2) by (auto simp: conn_ok_def)
  obtain t where t: "tc_step True e (sc_obj c) = Inr t" "tc_inv t" "state_rank (tc_state (sc_obj c)) \<le> state_rank (tc_state t)"
    using tc_step_ok [OF co(2) c(3)] by (auto simp: ok_iff grows_def)
  let ?s = "s\<lparr>conns := (conns s)(p \<mapsto> c\<lparr>sc_obj := t\<rparr>)\<rparr>"
  have pc: "pend q ?s = pend q s" for q by (rule pend_cong) simp
  have same: "same_server s ?s" by (simp add: same_server_def)
  from tc_step_life [OF t(1) c(4,2)] show ?thesis
  proof
    assume l: "lives (sc_obj c) t"
    then have "tc_state t = cConnected \<or> tc_state t = cDisconnecting"
      using t(3) c(2) by (cases "tc_state t") (auto simp: lives_def)
    then have "srv_inv ?s"
      by (intro srv_inv_update [OF inv c(1) same, where c' = "c\<lparr>sc_obj := t\<rparr>"]) (use m t pc in \<open>auto simp: conn_ok_def\<close>)
    then show ?thesis using c(1) t(1) lives_no_close [OF l] by (simp add: conn_op_def Let_def)
  next
    assume en: "ends (sc_obj c) t"
    then have d: "tc_state t = cDisconnected" "isNoneEvent (tc_chnnel t)" "ch_flag (tc_chnnel t) \<noteq> cNew" by (simp_all add: ends_def)
    note r = remove_ok [OF inv c(1) t(2) d same, simplified, OF m(1)]
    show ?thesis
      using c(1) t(1) ends_close [OF en] r pc m(2) by (simp add: conn_op_def Let_def removeConnection_def)
  qed
qed

lemma srv_step_ok: "srv_inv s \<Longrightarrow> srv_guard ev s \<Longrightarrow> ok srv_inv (srv_step ev s)"
  using newConnection_ok srv_functor_ok conn_op_ok by (cases ev) simp_all

interpretation server: guarded_machine srv_inv srv_guard srv_step
  by unfold_locales (rule srv_step_ok)

subsection \<open>A started server\<close>

definition started_server ::
    "nat \<Rightarrow> int \<Rightarrow> int \<Rightarrow> sockaddr_in \<Rightarrow> string \<Rightarrow> bool \<Rightarrow> int \<Rightarrow> (nat \<Rightarrow> nat) \<Rightarrow> bool \<Rightarrow> TcpServer res" where
  "started_server base sockFd nullFd addr name reuse n loop_of cb =
    rbind (TcpServer_new base sockFd nullFd addr name reuse) (\<lambda>s.
    rbind (setThreadNums n s) (srv_start loop_of cb base))"

lemma started_server_ok:
  assumes "sin_family addr = AF_INET" and "0 \<le> sockFd" and "0 < nullFd" and "0 \<le> n"
  shows "ok (\<lambda>s. srv_inv s \<and> conns s = Map.empty) (started_server base sockFd nullFd addr name reuse n loop_of cb)"
proof -
  let ?ip = "dotted (mem_bytes 4 (s_addr addr)) @ '':'' @ dec_nat (unat (tpPort addr))"
  let ?p = "setNumThreads n (EventLoopThreadPool_new base name)"
  have ip: "toIpPort addr = Inr ?ip" "length ?ip \<le> 21"
    using toIpPort_text [OF assms(1)] length_dotted [of "mem_bytes 4 (s_addr addr)"] length_port_text [of "tpPort addr"] by simp_all
  obtain a where a: "Acceptor_new sockFd nullFd addr reuse = Inr a" "ac_inLoop a" "\<not> listening a"
    using assms(2,3) by (simp add: Acceptor_new_def createNoblockingOrDie_def)
  have "\<not> pool_started ?p" "base = baseLoop ?p" "loops ?p = []" "pool_next ?p = 0"
    by (simp_all add: setNumThreads_def EventLoopThreadPool_new_def)
  from pool_start_ok [OF this, of loop_of cb] obtain pool where
    p: "pool_start loop_of cb base ?p = Inr pool" "pool_inv pool" "baseLoop pool = base"
    by (auto simp: setNumThreads_def EventLoopThreadPool_new_def)
  show ?thesis
    using a assms(4) p ip
    by (simp add: started_server_def TcpServer_new_def setThreadNums_def srv_start_def Let_def setNewConnectionCallBack_def
        ac_listen_def ac_assertInLoopThread_def srv_inv_def names_ok_def pend_def)
qed

section \<open>Properties\<close>


definition demo_server :: TcpServer where
  "demo_server = projr (started_server 1 3 4 (SockAddr_port 80 False) ''srv'' False 2 (\<lambda>i. i + 10) False)"

definition demo_srv_events :: "srv_event list" where
  "demo_srv_events = [NewConnection 7 100, NewConnection 8 101, RunFunctor 10, ConnOp 100 HangUp, RunFunctor 1, RunFunctor 10, RunFunctor 11]"

text \<open>The guards of these events, as far as they can be evaluated.\<close>

fun demo_guard :: "srv_event \<Rightarrow> TcpServer \<Rightarrow> bool" where
  "demo_guard (NewConnection fd p) s \<longleftrightarrow> conns s p = None \<and> nextConnId s < 2 ^ 31 - 1"
| "demo_guard (RunFunctor l) s \<longleftrightarrow> True"
| "demo_guard (ConnOp p HangUp) s \<longleftrightarrow> (case conns s p of None \<Rightarrow> False | Some c \<Rightarrow> tc_state (sc_obj c) = cConnected)"
| "demo_guard (ConnOp p e) s \<longleftrightarrow> False"

lemma demo_guard_srv: "demo_guard ev s \<Longrightarrow> srv_guard ev s"
  by (induction ev s rule: demo_guard.induct) (auto split: option.splits)


end
