(* ===== verification/Connector.thy ===== *)
theory Connector
  imports TcpConnection SockAddr "HOL-Library.Multiset"
begin

text \<open>
  \<^verbatim>\<open>src/netlib/net/Connector.h\<close> and \<^verbatim>\<open>Connector.cc\<close>: connecting to a server, with retries.

  The record has the members that change. Functors for the loop are collected in \<open>cn_posted\<close>, the timers that will call
  \<open>startInLoop\<close> in \<open>cn_timers\<close> (their delays), and what happens to sockets in \<open>opened\<close>, \<open>closed_fds\<close> and \<open>handed\<close> (those
  given to the new-connection callback). \<open>retries\<close> are the delays in milliseconds chosen since the last \<open>restart\<close>. The
  results of \<open>socket\<close>, \<open>connect\<close>, \<open>getsockopt\<close>, \<open>getsockname\<close> and \<open>getpeername\<close> are arguments.
\<close>

section \<open>Model\<close>

datatype States = csDisconnected | csConnecting | csConnected

datatype connector_functor = StartInLoop | StopInLoop | ResetChnnel

record Connector =
  cn_connect :: bool
  cn_state :: States
  cn_chnnel :: "Chnnel option"
  retryDelayMs :: int
  cn_inLoop :: bool
  cn_posted :: "connector_functor list"
  cn_timers :: "double list"
  retries :: "int list"
  opened :: "int list"
  closed_fds :: "int list"
  handed :: "int list"

definition cInitRetryDelayMs :: int where "cInitRetryDelayMs = 500"
definition cMaxRetryDelayMs :: int where "cMaxRetryDelayMs = 30 * 1000"

definition Connector_new :: Connector where
  "Connector_new = \<lparr>cn_connect = False, cn_state = csDisconnected, cn_chnnel = None, retryDelayMs = cInitRetryDelayMs,
    cn_inLoop = True, cn_posted = [], cn_timers = [], retries = [], opened = [], closed_fds = [], handed = []\<rparr>"

definition Connector_delete :: "Connector \<Rightarrow> unit res" where
  "Connector_delete c = (if cn_chnnel c = None then Inr () else Inl AssertFail)"

definition cn_assertInLoopThread :: "Connector \<Rightarrow> unit res" where
  "cn_assertInLoopThread c = (if cn_inLoop c then Inr () else Inl Abort)"

definition cn_queueInLoop :: "connector_functor \<Rightarrow> Connector \<Rightarrow> Connector" where
  "cn_queueInLoop f c = c\<lparr>cn_posted := cn_posted c @ [f]\<rparr>"

definition cn_close :: "int \<Rightarrow> Connector \<Rightarrow> Connector" where
  "cn_close fd c = c\<lparr>closed_fds := closed_fds c @ [fd]\<rparr>"

definition retry :: "int \<Rightarrow> Connector \<Rightarrow> Connector" where
  "retry fd c =
    (let c = (cn_close fd c)\<lparr>cn_state := csDisconnected\<rparr>
     in if cn_connect c
        then c\<lparr>cn_timers := cn_timers c @ [d_div (d_of_int (retryDelayMs c)) (d_of_int 1000)],
          retries := retries c @ [retryDelayMs c], retryDelayMs := min (retryDelayMs c * 2) cMaxRetryDelayMs\<rparr>
        else c)"

definition connecting :: "int \<Rightarrow> Connector \<Rightarrow> Connector res" where
  "connecting sockFd c =
    (let c = c\<lparr>cn_state := csConnecting\<rparr>
     in if cn_chnnel c = None
        then let ch = setErrorCallBack (setWriteCallBack (Chnnel_new sockFd))
             in Inr (c\<lparr>cn_chnnel := Some (chan_set (\<lambda>e. e OR cWriteEvent) ch)\<rparr>)
        else Inl AssertFail)"

definition EINPROGRESS :: int where "EINPROGRESS = 115"
definition EINTR :: int where "EINTR = 4"
definition EISCONN :: int where "EISCONN = 106"
definition EAGAIN :: int where "EAGAIN = 11"
definition EADDRINUSE :: int where "EADDRINUSE = 98"
definition EADDRNOTAVAIL :: int where "EADDRNOTAVAIL = 99"
definition ECONNREFUSED :: int where "ECONNREFUSED = 111"
definition ENETUNREACH :: int where "ENETUNREACH = 101"

text \<open>\<open>savedError\<close> is 0 or the errno of \<open>connect(2)\<close>. The errors with a case of their own that only log and close are those of
  the default case.\<close>

definition cn_connect_op :: "int \<Rightarrow> int \<Rightarrow> Connector \<Rightarrow> Connector res" where
  "cn_connect_op newFd savedError c =
    rbind (createNoblockingOrDie newFd) (\<lambda>sockFd.
    let c = c\<lparr>opened := opened c @ [sockFd]\<rparr>
    in if savedError \<in> {0, EINPROGRESS, EINTR, EISCONN} then connecting sockFd c
       else if savedError \<in> {EAGAIN, EADDRINUSE, EADDRNOTAVAIL, ECONNREFUSED, ENETUNREACH} then Inr (retry sockFd c)
       else Inr (cn_close sockFd c))"

definition startInLoop :: "int \<Rightarrow> int \<Rightarrow> Connector \<Rightarrow> Connector res" where
  "startInLoop newFd savedError c =
    rbind (cn_assertInLoopThread c) (\<lambda>_.
    if cn_state c \<noteq> csDisconnected then Inl AssertFail
    else if cn_connect c then cn_connect_op newFd savedError c else Inr c)"

definition cn_start :: "int \<Rightarrow> int \<Rightarrow> Connector \<Rightarrow> Connector res" where
  "cn_start newFd savedError c =
    (let c = c\<lparr>cn_connect := True\<rparr>
     in if cn_inLoop c then startInLoop newFd savedError c else Inr (cn_queueInLoop StartInLoop c))"

definition cn_restart :: "int \<Rightarrow> int \<Rightarrow> Connector \<Rightarrow> Connector res" where
  "cn_restart newFd savedError c =
    rbind (cn_assertInLoopThread c) (\<lambda>_.
    startInLoop newFd savedError
      (c\<lparr>cn_state := csDisconnected, retryDelayMs := cInitRetryDelayMs, retries := [], cn_connect := True\<rparr>))"

definition cn_stop :: "Connector \<Rightarrow> Connector" where
  "cn_stop c = cn_queueInLoop StopInLoop (c\<lparr>cn_connect := False\<rparr>)"

definition removeAndResetChnnel :: "Connector \<Rightarrow> (int \<times> Connector) res" where
  "removeAndResetChnnel c =
    (case cn_chnnel c of
       None \<Rightarrow> Inl UseAfterFree
     | Some ch \<Rightarrow>
         rbind (chan_unregister (chan_set (\<lambda>e. cNonEvent) ch)) (\<lambda>ch.
         Inr (ch_fd ch, cn_queueInLoop ResetChnnel (c\<lparr>cn_chnnel := Some ch\<rparr>))))"

text \<open>Deleting a channel asserts that it is no longer with the loop.\<close>

definition resetChnnel :: "Connector \<Rightarrow> Connector res" where
  "resetChnnel c =
    (case cn_chnnel c of
       None \<Rightarrow> Inr c
     | Some ch \<Rightarrow> if addedToLoop ch then Inl AssertFail else Inr (c\<lparr>cn_chnnel := None\<rparr>))"

definition stopInLoop :: "Connector \<Rightarrow> Connector res" where
  "stopInLoop c =
    rbind (cn_assertInLoopThread c) (\<lambda>_.
    if cn_state c = csConnecting
    then rbind (removeAndResetChnnel (c\<lparr>cn_state := csDisconnected\<rparr>)) (\<lambda>(fd, c). Inr (retry fd c))
    else Inr c)"

record socket_calls =
  sc_getsockopt :: "int \<Rightarrow> int + int"
  sc_getsockname :: "int \<Rightarrow> sockaddr_in option"
  sc_getpeername :: "int \<Rightarrow> sockaddr_in option"

definition cn_handleWrite :: "socket_calls \<Rightarrow> Connector \<Rightarrow> Connector res" where
  "cn_handleWrite S c =
    (if cn_state c = csConnecting
     then rbind (removeAndResetChnnel c) (\<lambda>(sockFd, c).
       if getSocketError (sc_getsockopt S) sockFd \<noteq> 0 then Inr (retry sockFd c)
       else if isSelfConnect (sc_getsockname S) (sc_getpeername S) sockFd then Inr (retry sockFd c)
       else
         let c = c\<lparr>cn_state := csConnected\<rparr>
         in Inr (if cn_connect c then c\<lparr>handed := handed c @ [sockFd]\<rparr> else cn_close sockFd c))
     else Inr (c\<lparr>cn_state := csDisconnected\<rparr>))"

definition cn_handleError :: "Connector \<Rightarrow> Connector res" where
  "cn_handleError c =
    (if cn_state c = csConnecting
     then rbind (removeAndResetChnnel c) (\<lambda>(sockFd, c). Inr (retry sockFd c))
     else Inr c)"

text \<open>All operations: the flag is whether the caller runs on the loop's thread, \<open>RunFunctor\<close> runs the functor at the head of
  the queue and \<open>TimerFires\<close> the oldest timer.\<close>

datatype connector_event =
    Start bool int int | Restart int int | StopConnector | RunFunctor int int | TimerFires int int
  | WriteEvent socket_calls | ErrorEvent

fun run_cn_functor :: "int \<Rightarrow> int \<Rightarrow> connector_functor \<Rightarrow> Connector \<Rightarrow> Connector res" where
  "run_cn_functor fd e StartInLoop c = startInLoop fd e c"
| "run_cn_functor fd e StopInLoop c = stopInLoop c"
| "run_cn_functor fd e ResetChnnel c = resetChnnel c"

fun cn_step :: "connector_event \<Rightarrow> Connector \<Rightarrow> Connector res" where
  "cn_step (Start l fd e) c = rbind (cn_start fd e (c\<lparr>cn_inLoop := l\<rparr>)) (\<lambda>c. Inr (c\<lparr>cn_inLoop := True\<rparr>))"
| "cn_step (Restart fd e) c = cn_restart fd e c"
| "cn_step StopConnector c = Inr (cn_stop c)"
| "cn_step (RunFunctor fd e) c =
    (case cn_posted c of [] \<Rightarrow> Inr c | f # fs \<Rightarrow> run_cn_functor fd e f (c\<lparr>cn_posted := fs\<rparr>))"
| "cn_step (TimerFires fd e) c =
    (case cn_timers c of [] \<Rightarrow> Inr c | t # ts \<Rightarrow> startInLoop fd e (c\<lparr>cn_timers := ts\<rparr>))"
| "cn_step (WriteEvent S) c = cn_handleWrite S c"
| "cn_step ErrorEvent c = cn_handleError c"

section \<open>Specification\<close>

text \<open>What will call \<open>startInLoop\<close> without a further call of the user.\<close>

definition starts :: "Connector \<Rightarrow> nat" where
  "starts c = length (cn_timers c) + count_list (cn_posted c) StartInLoop"

text \<open>The guards: a socket can be created; \<open>start\<close> and \<open>restart\<close> are called when no attempt is under way or planned and the
  channel of the last attempt is gone, and a timer fires after the functors of the turn that started it.\<close>

fun cn_guard :: "connector_event \<Rightarrow> Connector \<Rightarrow> bool" where
  "cn_guard (Start l fd e) c \<longleftrightarrow> 0 \<le> fd \<and> cn_state c = csDisconnected \<and> starts c = 0 \<and> (l \<longrightarrow> cn_chnnel c = None)"
| "cn_guard (Restart fd e) c \<longleftrightarrow> 0 \<le> fd \<and> cn_state c \<noteq> csConnecting \<and> starts c = 0 \<and> cn_chnnel c = None"
| "cn_guard (RunFunctor fd e) c \<longleftrightarrow> 0 \<le> fd"
| "cn_guard (TimerFires fd e) c \<longleftrightarrow> 0 \<le> fd \<and> cn_chnnel c = None"
| "cn_guard ev c \<longleftrightarrow> True"

definition backoff :: "nat \<Rightarrow> int" where
  "backoff k = min (500 * 2 ^ k) 30000"

text \<open>The invariant. While connecting, the channel waits for the socket to become writable; otherwise a left-over channel is
  with no loop and its reset is in the queue, before any start. At most one start is planned, and only when
  disconnected. Every socket was closed, handed over or is the one being connected. The delays follow the back-off.\<close>

fun reset_first :: "connector_functor list \<Rightarrow> bool" where
  "reset_first [] = True"
| "reset_first (f # fs) \<longleftrightarrow> (f = StartInLoop \<longrightarrow> ResetChnnel \<notin> set fs) \<and> reset_first fs"

definition cn_channel_ok :: "Connector \<Rightarrow> bool" where
  "cn_channel_ok c \<longleftrightarrow>
    (if cn_state c = csConnecting then \<exists>ch. cn_chnnel c = Some ch \<and> isWriting ch \<and> addedToLoop ch
     else \<forall>ch. cn_chnnel c = Some ch \<longrightarrow> \<not> addedToLoop ch) \<and>
    count_list (cn_posted c) ResetChnnel = (if cn_state c = csConnecting \<or> cn_chnnel c = None then 0 else 1)"

definition in_use :: "Connector \<Rightarrow> int multiset" where
  "in_use c = (if cn_state c = csConnecting then mset (map ch_fd (case cn_chnnel c of None \<Rightarrow> [] | Some ch \<Rightarrow> [ch])) else {#})"

definition cn_inv :: "Connector \<Rightarrow> bool" where
  "cn_inv c \<longleftrightarrow> cn_inLoop c \<and> cn_channel_ok c \<and> starts c \<le> 1 \<and> (0 < starts c \<longrightarrow> cn_state c = csDisconnected) \<and>
    reset_first (cn_posted c) \<and>
    mset (opened c) = mset (closed_fds c) + mset (handed c) + in_use c \<and>
    retryDelayMs c = backoff (length (retries c)) \<and> retries c = map backoff [0..<length (retries c)]"

section \<open>Lemmas\<close>

lemma backoff_Suc: "min (backoff k * 2) cMaxRetryDelayMs = backoff (Suc k)"
  by (auto simp: backoff_def cMaxRetryDelayMs_def min_def)

lemma backoff_0: "backoff 0 = cInitRetryDelayMs"
  by (simp add: backoff_def cInitRetryDelayMs_def)

lemma reset_first_snoc: "reset_first fs \<Longrightarrow> f = ResetChnnel \<longrightarrow> StartInLoop \<notin> set fs \<Longrightarrow> reset_first (fs @ [f])"
  by (induction fs) auto

definition unregistered :: "Chnnel \<Rightarrow> Chnnel" where
  "unregistered ch = setFlag cNew ((chan_set (\<lambda>e. cNonEvent) ch)\<lparr>addedToLoop := False\<rparr>)"

lemma unregistered_sel [simp]: "\<not> addedToLoop (unregistered ch)" "ch_fd (unregistered ch) = ch_fd ch"
  by (simp_all add: unregistered_def setFlag_def)

lemma removeAndResetChnnel_ok:
  "cn_chnnel c = Some ch \<Longrightarrow> removeAndResetChnnel c =
    Inr (ch_fd ch, c\<lparr>cn_chnnel := Some (unregistered ch), cn_posted := cn_posted c @ [ResetChnnel]\<rparr>)"
  by (simp add: removeAndResetChnnel_def chan_unregister_def cn_queueInLoop_def unregistered_def setFlag_def)

text \<open>The state after a channel was given up, with the socket closed or handed over.\<close>

lemma give_up_inv:
  assumes "cn_inv c" and "cn_state c = csConnecting" and "cn_chnnel c = Some ch" and "\<not> addedToLoop ch'"
  defines "c1 \<equiv> c\<lparr>cn_chnnel := Some ch', cn_posted := cn_posted c @ [ResetChnnel]\<rparr>"
  shows "cn_inv (retry (ch_fd ch) c1)"
    and "cn_inv (c1\<lparr>cn_state := csConnected, handed := handed c1 @ [ch_fd ch]\<rparr>)"
    and "cn_inv (cn_close (ch_fd ch) (c1\<lparr>cn_state := csConnected\<rparr>))"
proof -
  have p: "starts c = 0" "count_list (cn_posted c) ResetChnnel = 0" "count_list (cn_posted c) StartInLoop = 0" "cn_timers c = []"
    using assms(1-3) by (auto simp: cn_inv_def cn_channel_ok_def starts_def)
  have r: "reset_first (cn_posted c @ [ResetChnnel])"
    using assms(1) p(3) by (intro reset_first_snoc) (auto simp: cn_inv_def count_list_0_iff)
  have m: "mset (opened c) = mset (closed_fds c) + mset (handed c) + {#ch_fd ch#}"
    using assms(1-3) by (simp add: cn_inv_def in_use_def)
  have d: "retryDelayMs c = backoff (length (retries c))" "retries c = map backoff [0..<length (retries c)]" "cn_inLoop c"
    using assms(1) by (simp_all add: cn_inv_def)
  show "cn_inv (retry (ch_fd ch) c1)"
    using p r m d assms(4) backoff_Suc [of "length (retries c)"]
    by (simp add: c1_def retry_def cn_close_def Let_def cn_inv_def cn_channel_ok_def starts_def in_use_def)
  show "cn_inv (c1\<lparr>cn_state := csConnected, handed := handed c1 @ [ch_fd ch]\<rparr>)"
    using p r m d assms(4) by (simp add: c1_def cn_inv_def cn_channel_ok_def starts_def in_use_def)
  show "cn_inv (cn_close (ch_fd ch) (c1\<lparr>cn_state := csConnected\<rparr>))"
    using p r m d assms(4) by (simp add: c1_def cn_close_def cn_inv_def cn_channel_ok_def starts_def in_use_def)
qed

lemma connecting_chnnel: "cn_inv c \<Longrightarrow> cn_state c = csConnecting \<Longrightarrow> \<exists>ch. cn_chnnel c = Some ch"
  by (auto simp: cn_inv_def cn_channel_ok_def)

text \<open>An attempt is made from a disconnected state with nothing planned and no channel.\<close>

lemma startInLoop_ok:
  assumes "cn_inv c" and "cn_state c = csDisconnected" and "starts c = 0" and "cn_chnnel c = None" and "0 \<le> fd"
  shows "ok cn_inv (startInLoop fd e c)"
proof -
  have c: "count_list (cn_posted c) ResetChnnel = 0" "count_list (cn_posted c) StartInLoop = 0" "cn_timers c = []" "cn_inLoop c"
    "reset_first (cn_posted c)" "mset (opened c) = mset (closed_fds c) + mset (handed c)"
    "retryDelayMs c = backoff (length (retries c))" "retries c = map backoff [0..<length (retries c)]"
    using assms(1-4) by (auto simp: cn_inv_def cn_channel_ok_def in_use_def starts_def)
  have add: "addedToLoop (chan_set f ch)" for f ch by (simp add: chan_set_def Let_def setFlag_def)
  have fd: "ch_fd (setErrorCallBack (setWriteCallBack (Chnnel_new fd))) = fd"
    by (simp add: setErrorCallBack_def setWriteCallBack_def Chnnel_new_def)
  have "ok cn_inv (connecting fd (c\<lparr>opened := opened c @ [fd]\<rparr>))"
    using c assms(4) add fd by (simp add: connecting_def cn_inv_def cn_channel_ok_def in_use_def starts_def)
  moreover have "cn_inv (retry fd (c\<lparr>opened := opened c @ [fd]\<rparr>))"
    using c assms(2,4) backoff_Suc [of "length (retries c)"]
    by (simp add: retry_def cn_close_def Let_def cn_inv_def cn_channel_ok_def in_use_def starts_def)
  moreover have "cn_inv (cn_close fd (c\<lparr>opened := opened c @ [fd]\<rparr>))"
    using c assms(2,4) by (simp add: cn_close_def cn_inv_def cn_channel_ok_def in_use_def starts_def)
  ultimately show ?thesis
    using assms c(4) by (simp add: startInLoop_def cn_assertInLoopThread_def cn_connect_op_def createNoblockingOrDie_def Let_def)
qed

lemma removing_ok:
  assumes "cn_inv c" and "cn_state c = csConnecting"
  shows "ok cn_inv (cn_handleError c)" and "ok cn_inv (stopInLoop c)" and "ok cn_inv (cn_handleWrite S c)"
proof -
  obtain ch where ch: "cn_chnnel c = Some ch" using connecting_chnnel [OF assms] by blast
  note r = removeAndResetChnnel_ok [OF ch] and g = give_up_inv [OF assms ch unregistered_sel(1) [of ch]]
  show "ok cn_inv (cn_handleError c)" using r g(1) assms(2) by (simp add: cn_handleError_def)
  show "ok cn_inv (cn_handleWrite S c)" using r g assms(2) by (simp add: cn_handleWrite_def Let_def)
  have "retry fd (c\<lparr>cn_state := s, cn_chnnel := x, cn_posted := y\<rparr>) = retry fd (c\<lparr>cn_chnnel := x, cn_posted := y\<rparr>)" for fd s x y
    by (simp add: retry_def cn_close_def Let_def)
  moreover have "cn_assertInLoopThread c = Inr ()" using assms(1) by (simp add: cn_inv_def cn_assertInLoopThread_def)
  ultimately show "ok cn_inv (stopInLoop c)"
    using removeAndResetChnnel_ok [of "c\<lparr>cn_state := csDisconnected\<rparr>" ch] ch g(1) assms(2) by (simp add: stopInLoop_def)
qed

lemma cn_inv_connect: "cn_inv (c\<lparr>cn_connect := b\<rparr>) = cn_inv c" "starts (c\<lparr>cn_connect := b\<rparr>) = starts c"
  by (simp_all add: cn_inv_def cn_channel_ok_def starts_def in_use_def)

lemma start_elsewhere:
  assumes "cn_inv c" and "cn_state c = csDisconnected" and "starts c = 0"
  shows "cn_inv (c\<lparr>cn_connect := True, cn_posted := cn_posted c @ [StartInLoop]\<rparr>)"
  using assms reset_first_snoc [of "cn_posted c" StartInLoop]
  by (simp add: cn_inv_def cn_channel_ok_def starts_def in_use_def)

lemma start_ok:
  assumes "cn_inv c" and "cn_guard (Start l fd e) c"
  shows "ok cn_inv (cn_step (Start l fd e) c)"
proof -
  have here: "cn_inLoop c" using assms(1) by (simp add: cn_inv_def)
  have home: "c'\<lparr>cn_inLoop := True\<rparr> = c'" if "cn_inv c'" for c' using that by (simp add: cn_inv_def)
  show ?thesis
  proof (cases l)
    case True
    have "ok cn_inv (startInLoop fd e (c\<lparr>cn_connect := True\<rparr>))"
      using assms True by (intro startInLoop_ok) (simp_all add: cn_inv_connect)
    then obtain c' where "startInLoop fd e (c\<lparr>cn_connect := True\<rparr>) = Inr c'" "cn_inv c'" by (auto simp: ok_iff)
    moreover have "c\<lparr>cn_inLoop := True, cn_connect := True\<rparr> = c\<lparr>cn_connect := True\<rparr>" using here by (cases c) simp
    ultimately show ?thesis unfolding cn_step.simps using True here home [of c'] by (simp only: cn_start_def Let_def) simp
  next
    case False
    have "c\<lparr>cn_inLoop := False, cn_connect := True, cn_posted := p, cn_inLoop := True\<rparr> = c\<lparr>cn_connect := True, cn_posted := p\<rparr>" for p
      using here by simp
    then show ?thesis using False start_elsewhere [OF assms(1)] assms(2) by (simp add: cn_start_def cn_queueInLoop_def)
  qed
qed

lemma functor_ok:
  assumes inv: "cn_inv c" and "cn_posted c = f # fs" and "0 \<le> fd"
  shows "ok cn_inv (run_cn_functor fd e f (c\<lparr>cn_posted := fs\<rparr>))"
proof (cases f)
  case StartInLoop
  have s: "cn_state c = csDisconnected" "cn_timers c = []" "count_list fs StartInLoop = 0" "count_list fs ResetChnnel = 0"
    using inv assms(2) StartInLoop by (auto simp: cn_inv_def starts_def count_list_0_iff)
  then have "cn_chnnel c = None" using inv assms(2) StartInLoop by (simp add: cn_inv_def cn_channel_ok_def split: if_splits)
  with inv s assms(2) StartInLoop have "cn_inv (c\<lparr>cn_posted := fs\<rparr>)"
    by (simp add: cn_inv_def cn_channel_ok_def starts_def in_use_def)
  from startInLoop_ok [OF this] show ?thesis
    using s assms(3) \<open>cn_chnnel c = None\<close> StartInLoop by (simp add: starts_def)
next
  case StopInLoop
  have c: "cn_inv (c\<lparr>cn_posted := fs\<rparr>)"
    using inv assms(2) StopInLoop by (simp add: cn_inv_def cn_channel_ok_def starts_def in_use_def)
  show ?thesis
  proof (cases "cn_state c = csConnecting")
    case True
    then show ?thesis using removing_ok(2) [OF c] StopInLoop by simp
  next
    case False
    then show ?thesis using c StopInLoop by (simp add: stopInLoop_def cn_assertInLoopThread_def cn_inv_def [of "c\<lparr>cn_posted := fs\<rparr>"])
  qed
next
  case ResetChnnel
  have s: "cn_state c \<noteq> csConnecting" "\<exists>ch. cn_chnnel c = Some ch \<and> \<not> addedToLoop ch" "count_list fs ResetChnnel = 0"
    using inv assms(2) ResetChnnel by (auto simp: cn_inv_def cn_channel_ok_def split: if_splits)
  then show ?thesis
    using inv assms(2) ResetChnnel by (auto simp: resetChnnel_def cn_inv_def cn_channel_ok_def starts_def in_use_def)
qed

lemma cn_step_ok:
  assumes inv: "cn_inv c" and g: "cn_guard ev c"
  shows "ok cn_inv (cn_step ev c)"
proof (cases ev)
  case (Start l fd e)
  then show ?thesis using start_ok [OF inv] g by simp
next
  case (Restart fd e)
  let ?c = "c\<lparr>cn_state := csDisconnected, retryDelayMs := cInitRetryDelayMs, retries := [], cn_connect := True\<rparr>"
  have "cn_inv ?c"
    using inv g Restart backoff_0 by (simp add: cn_inv_def cn_channel_ok_def starts_def in_use_def)
  then have "ok cn_inv (startInLoop fd e ?c)" using g Restart by (intro startInLoop_ok) (simp_all add: starts_def)
  then show ?thesis using Restart inv by (simp add: cn_restart_def cn_assertInLoopThread_def cn_inv_def [of c])
next
  case StopConnector
  then show ?thesis
    using inv reset_first_snoc [of "cn_posted c" StopInLoop]
    by (simp add: cn_stop_def cn_queueInLoop_def cn_inv_def cn_channel_ok_def starts_def in_use_def)
next
  case (RunFunctor fd e)
  then show ?thesis using functor_ok [OF inv] g inv by (simp split: list.split)
next
  case (TimerFires fd e)
  show ?thesis
  proof (cases "cn_timers c")
    case Nil
    then show ?thesis using TimerFires inv by simp
  next
    case (Cons t ts)
    have s: "cn_state c = csDisconnected" "ts = []" "count_list (cn_posted c) StartInLoop = 0"
      using inv Cons by (auto simp: cn_inv_def starts_def)
    have "cn_inv (c\<lparr>cn_timers := ts\<rparr>)" using inv Cons by (simp add: cn_inv_def cn_channel_ok_def starts_def in_use_def)
    from startInLoop_ok [OF this] show ?thesis using TimerFires Cons g s by (simp add: starts_def)
  qed
next
  case (WriteEvent S)
  show ?thesis
  proof (cases "cn_state c = csConnecting")
    case True
    then show ?thesis using removing_ok(3) [OF inv] WriteEvent by simp
  next
    case False
    then have "cn_inv (c\<lparr>cn_state := csDisconnected\<rparr>)" using inv by (simp add: cn_inv_def cn_channel_ok_def starts_def in_use_def)
    then show ?thesis using False WriteEvent by (simp add: cn_handleWrite_def)
  qed
next
  case ErrorEvent
  then show ?thesis using removing_ok(1) [OF inv] inv by (cases "cn_state c = csConnecting") (simp_all add: cn_handleError_def)
qed

interpretation connector: guarded_machine cn_inv cn_guard cn_step
  by unfold_locales (rule cn_step_ok)

lemma Connector_new_inv: "cn_inv Connector_new"
  by (simp add: Connector_new_def cn_inv_def cn_channel_ok_def starts_def in_use_def backoff_0)

lemma backoff_range: "500 \<le> backoff k \<and> backoff k \<le> 30000"
  by (auto simp: backoff_def min_def)

section \<open>Properties\<close>


definition demo_calls :: socket_calls where
  "demo_calls = \<lparr>sc_getsockopt = (\<lambda>fd. Inr (if fd = 7 then 111 else 0)), sc_getsockname = (\<lambda>fd. None), sc_getpeername = (\<lambda>fd. None)\<rparr>"

definition demo_attempts :: "connector_event list" where
  "demo_attempts = [Start True 7 EINPROGRESS, WriteEvent demo_calls, RunFunctor 0 0, TimerFires 8 ECONNREFUSED,
    TimerFires 9 EINPROGRESS, WriteEvent demo_calls, RunFunctor 0 0]"

lemmas demo_simps = demo_attempts_def demo_calls_def Connector_new_def cn_start_def startInLoop_def cn_assertInLoopThread_def
  cn_connect_op_def createNoblockingOrDie_def connecting_def cn_handleWrite_def removeAndResetChnnel_ok getSocketError_def
  isSelfConnect_def getLocalAddr_def zero_sockaddr_def AF_INET_def retry_def cn_close_def resetChnnel_def starts_def Let_def
  EINPROGRESS_def ECONNREFUSED_def EINTR_def EISCONN_def EAGAIN_def EADDRINUSE_def EADDRNOTAVAIL_def ENETUNREACH_def
  setErrorCallBack_def setWriteCallBack_def Chnnel_new_def cInitRetryDelayMs_def cMaxRetryDelayMs_def

lemma demo_attempts_run:
  "guards cn_guard cn_step demo_attempts Connector_new"
  "\<exists>c. rfold cn_step demo_attempts Connector_new = Inr c \<and> closed_fds c = [7, 8] \<and> handed c = [9] \<and> cn_chnnel c = None \<and>
    retries c = [500, 1000]"
  by (simp_all add: demo_simps)

text \<open>A second \<open>start\<close> while a retry is planned breaks the guard: when the timer fires, the assertion of \<open>startInLoop\<close>
  fails.\<close>

lemma start_during_retry:
  "rfold cn_step [Start True 7 ECONNREFUSED, Start True 8 EINPROGRESS, TimerFires 9 0] Connector_new = Inl AssertFail"
  by (simp add: demo_simps)




end
