(* ===== verification/TcpClient.thy ===== *)
theory TcpClient
  imports Connector ConnectionLife
begin

text \<open>
  \<^verbatim>\<open>src/netlib/net/TcpClient.h\<close> and \<^verbatim>\<open>TcpClient.cc\<close>: a client has a connector and at most one connection, and connects again when
  its connection is closed and retrying is enabled.

  The connections made are objects, pointers of \<open>cl_conns\<close>; \<open>connection\<close> is the member of the class. \<open>destroys\<close> are the
  \<open>conncetDestoryed\<close> functors in the queue of the loop. A step of the connector that has called its new-connection
  callback goes on with \<open>NewConnection\<close>, and an operation of the connection that has called the close callback with
  \<open>removeConnection\<close>. All of this runs on the loop's thread; the members shared with other threads are guarded by a mutex.
\<close>

section \<open>Model\<close>

record TcpClient =
  cl_name :: string
  connector :: Connector
  cl_connect :: bool
  cl_retry :: bool
  cl_nextConnId :: int
  cl_writeComplete :: bool
  connection :: "nat option"
  cl_conns :: "nat \<rightharpoonup> TcpConnection"
  connNames :: "nat \<rightharpoonup> string"
  destroys :: "nat list"
  destroyOnClose :: bool

definition TcpClient_new :: "string \<Rightarrow> TcpClient" where
  "TcpClient_new name = \<lparr>cl_name = name, connector = Connector_new, cl_connect = True, cl_retry = False, cl_nextConnId = 1,
    cl_writeComplete = False, connection = None, cl_conns = Map.empty, connNames = Map.empty, destroys = [], destroyOnClose = False\<rparr>"

definition with_connector :: "(Connector \<Rightarrow> Connector res) \<Rightarrow> TcpClient \<Rightarrow> TcpClient res" where
  "with_connector f s = rbind (f (connector s)) (\<lambda>c. Inr (s\<lparr>connector := c\<rparr>))"

definition enableRetry :: "TcpClient \<Rightarrow> TcpClient" where
  "enableRetry s = s\<lparr>cl_retry := True\<rparr>"

text \<open>\<open>l\<close> is whether the caller is on the loop's thread; \<open>fd\<close> and \<open>e\<close> are what \<open>socket\<close> and \<open>connect\<close> return.\<close>

definition cl_connect_op :: "bool \<Rightarrow> int \<Rightarrow> int \<Rightarrow> TcpClient \<Rightarrow> TcpClient res" where
  "cl_connect_op l fd e s = with_connector (cn_step (Start l fd e)) (s\<lparr>cl_connect := True\<rparr>)"

definition cl_stop :: "TcpClient \<Rightarrow> TcpClient" where
  "cl_stop s = s\<lparr>cl_connect := False, connector := cn_stop (connector s)\<rparr>"

definition NewConnection :: "(int \<Rightarrow> sockaddr_in option) \<Rightarrow> int \<Rightarrow> nat \<Rightarrow> TcpClient \<Rightarrow> TcpClient res" where
  "NewConnection getpeername fd p s =
    rbind (toIpPort (getpeerAddr getpeername fd)) (\<lambda>ip.
    let connName = cl_name s @ snd (snprintf 32 (ip @ ''#'' @ dec_int (cl_nextConnId s)));
        s = s\<lparr>cl_nextConnId := cl_nextConnId s + 1\<rparr>
    in rbind (TcpConnection_new fd) (\<lambda>t.
       let t = (if cl_writeComplete s then setWriteCompleteCallBack t else t)
       in rbind (connectEstablished p t) (\<lambda>t.
          Inr (s\<lparr>connection := Some p, cl_conns := (cl_conns s)(p \<mapsto> t), connNames := (connNames s)(p \<mapsto> connName)\<rparr>))))"

text \<open>After the client's destructor the close callback only posts the end of the connection.\<close>

definition cl_removeConnection :: "int \<Rightarrow> int \<Rightarrow> nat \<Rightarrow> TcpClient \<Rightarrow> TcpClient res" where
  "cl_removeConnection fd e p s =
    (if destroyOnClose s then Inr (s\<lparr>destroys := destroys s @ [p]\<rparr>)
     else if connection s \<noteq> Some p then Inl AssertFail
     else
       let s = s\<lparr>connection := None, destroys := destroys s @ [p]\<rparr>
       in if cl_retry s \<and> cl_connect s then with_connector (cn_restart fd e) s else Inr s)"

text \<open>An operation of the connection.\<close>

definition client_conn_op :: "tc_event \<Rightarrow> int \<Rightarrow> int \<Rightarrow> TcpClient \<Rightarrow> TcpClient res" where
  "client_conn_op ev fd e s =
    (case connection s of
       None \<Rightarrow> Inr s
     | Some p \<Rightarrow>
         case cl_conns s p of
           None \<Rightarrow> Inl UseAfterFree
         | Some t \<Rightarrow>
             rbind (tc_step True ev t) (\<lambda>t'.
             let s = s\<lparr>cl_conns := (cl_conns s)(p \<mapsto> t')\<rparr>
             in if calls_close t t' then cl_removeConnection fd e p s else Inr s))"

definition disconnect :: "bool \<Rightarrow> TcpClient \<Rightarrow> TcpClient res" where
  "disconnect l s = client_conn_op (Shutdown l) 0 0 (s\<lparr>cl_connect := False\<rparr>)"

text \<open>The destructor: \<open>unique\<close> is whether the client has the only reference to its connection.\<close>

definition TcpClient_delete :: "bool \<Rightarrow> TcpClient \<Rightarrow> TcpClient res" where
  "TcpClient_delete unique s =
    (case connection s of
       None \<Rightarrow> Inr (s\<lparr>connector := cn_stop (connector s)\<rparr>)
     | Some p \<Rightarrow>
         let s = s\<lparr>destroyOnClose := True\<rparr>
         in if unique
            then case cl_conns s p of
                None \<Rightarrow> Inl UseAfterFree
              | Some t \<Rightarrow> Inr (s\<lparr>cl_conns := (cl_conns s)(p \<mapsto> forceClose t)\<rparr>)
            else Inr s)"

text \<open>A step of the connector, which may have a socket for the client.\<close>

definition connector_op :: "connector_event \<Rightarrow> (int \<Rightarrow> sockaddr_in option) \<Rightarrow> nat \<Rightarrow> TcpClient \<Rightarrow> TcpClient res" where
  "connector_op ev getpeername p s =
    rbind (cn_step ev (connector s)) (\<lambda>c.
    let news = drop (length (handed (connector s))) (handed c); s = s\<lparr>connector := c\<rparr>
    in case news of [] \<Rightarrow> Inr s | fd # _ \<Rightarrow> NewConnection getpeername fd p s)"

definition run_destroy :: "TcpClient \<Rightarrow> TcpClient res" where
  "run_destroy s =
    (case destroys s of
       [] \<Rightarrow> Inr s
     | p # ps \<Rightarrow>
         case cl_conns s p of
           None \<Rightarrow> Inl UseAfterFree
         | Some t \<Rightarrow> rbind (conncetDestoryed t) (\<lambda>t. Inr (s\<lparr>destroys := ps, cl_conns := (cl_conns s)(p \<mapsto> t)\<rparr>)))"

datatype client_event =
    Connect bool int int | Disconnect bool | StopClient | EnableRetry
  | ConnectorStep connector_event "int \<Rightarrow> sockaddr_in option" nat
  | ConnStep tc_event int int | RunDestroy

fun cl_step :: "client_event \<Rightarrow> TcpClient \<Rightarrow> TcpClient res" where
  "cl_step (Connect l fd e) s = cl_connect_op l fd e s"
| "cl_step (Disconnect l) s = disconnect l s"
| "cl_step StopClient s = Inr (cl_stop s)"
| "cl_step EnableRetry s = Inr (enableRetry s)"
| "cl_step (ConnectorStep ev g p) s = connector_op ev g p s"
| "cl_step (ConnStep ev fd e) s = client_conn_op ev fd e s"
| "cl_step RunDestroy s = run_destroy s"

section \<open>Specification\<close>

text \<open>The steps of the connector that are not calls of the user; a socket is reported writable only while its channel is
  registered.\<close>

fun own_step :: "connector_event \<Rightarrow> Connector \<Rightarrow> bool" where
  "own_step (RunFunctor fd e) c \<longleftrightarrow> True"
| "own_step (TimerFires fd e) c \<longleftrightarrow> True"
| "own_step (WriteEvent S) c \<longleftrightarrow> cn_state c = csConnecting"
| "own_step ErrorEvent c \<longleftrightarrow> True"
| "own_step ev c \<longleftrightarrow> False"

fun cl_guard :: "client_event \<Rightarrow> TcpClient \<Rightarrow> bool" where
  "cl_guard (Connect l fd e) s \<longleftrightarrow> cn_guard (Start l fd e) (connector s)"
| "cl_guard (ConnectorStep ev g p) s \<longleftrightarrow> own_step ev (connector s) \<and> cn_guard ev (connector s) \<and> cl_conns s p = None \<and>
    (\<forall>fd. sin_family (getpeerAddr g fd) = AF_INET)"
| "cl_guard (ConnStep ev fd e) s \<longleftrightarrow> is_conn_op ev \<and> 0 \<le> fd \<and> cn_chnnel (connector s) = None \<and>
    (\<forall>p t. connection s = Some p \<longrightarrow> cl_conns s p = Some t \<longrightarrow> tc_guard ev t)"
| "cl_guard ev s \<longleftrightarrow> True"

text \<open>The invariant: the current connection is open and the connector done; every other connection is closed, and its end is
  in the queue once or has run.\<close>

definition closed_conn :: "TcpConnection \<Rightarrow> bool" where
  "closed_conn t \<longleftrightarrow> tc_inv t \<and> tc_state t = cDisconnected \<and> isNoneEvent (tc_chnnel t)"

definition cl_inv :: "TcpClient \<Rightarrow> bool" where
  "cl_inv s \<longleftrightarrow> \<not> destroyOnClose s \<and> cn_inv (connector s) \<and> distinct (destroys s) \<and>
    (\<forall>p. connection s = Some p \<longrightarrow> cn_state (connector s) = csConnected \<and> p \<notin> set (destroys s) \<and>
       (\<exists>t. cl_conns s p = Some t \<and> tc_inv t \<and> (tc_state t = cConnected \<or> tc_state t = cDisconnecting))) \<and>
    (\<forall>p t. cl_conns s p = Some t \<longrightarrow> connection s \<noteq> Some p \<longrightarrow>
       closed_conn t \<and> (ch_flag (tc_chnnel t) \<noteq> cNew \<longleftrightarrow> p \<in> set (destroys s))) \<and>
    (\<forall>p \<in> set (destroys s). cl_conns s p \<noteq> None)"

section \<open>Lemmas\<close>

subsection \<open>What a step of the connector hands over\<close>

lemma handed_retry [simp]: "handed (retry fd c) = handed c" "handed (cn_close fd c) = handed c"
  by (simp_all add: retry_def cn_close_def Let_def)

lemma startInLoop_handed: "startInLoop fd e c = Inr c' \<Longrightarrow> handed c' = handed c"
  by (auto simp: startInLoop_def cn_connect_op_def connecting_def rbind_eq_Inr Let_def split: if_splits)

lemma removeAndReset_handed: "removeAndResetChnnel c = Inr (fd, c') \<Longrightarrow> handed c' = handed c"
  by (auto simp: removeAndResetChnnel_def cn_queueInLoop_def rbind_eq_Inr split: option.splits)

lemma functor_handed:
  assumes "cn_inv c" and "cn_posted c = f # fs" and "run_cn_functor fd e f (c\<lparr>cn_posted := fs\<rparr>) = Inr c'"
  shows "handed c' = handed c \<and> (cn_state c = csConnected \<longrightarrow> cn_state c' = csConnected)"
proof (cases f)
  case StartInLoop
  then have "cn_state c = csDisconnected" using assms(1,2) by (simp add: cn_inv_def starts_def)
  then show ?thesis using StartInLoop assms(3) startInLoop_handed by fastforce
next
  case StopInLoop
  then show ?thesis using assms(3) removeAndReset_handed by (fastforce simp: stopInLoop_def rbind_eq_Inr split: if_splits)
next
  case ResetChnnel
  then show ?thesis using assms(3) by (auto simp: resetChnnel_def split: option.splits if_splits)
qed

lemma connector_handed:
  assumes inv: "cn_inv c" and own: "own_step ev c" and r: "cn_step ev c = Inr c'"
  shows "handed c' = handed c \<and> (cn_state c = csConnected \<longrightarrow> cn_state c' = csConnected) \<or>
    (\<exists>fd. handed c' = handed c @ [fd] \<and> cn_state c' = csConnected \<and> cn_state c = csConnecting)"
proof (cases ev)
  case (RunFunctor fd e)
  then show ?thesis using r functor_handed [OF inv] by (cases "cn_posted c") auto
next
  case (TimerFires fd e)
  show ?thesis
  proof (cases "cn_timers c")
    case (Cons t ts)
    then have "cn_state c = csDisconnected" using inv by (simp add: cn_inv_def starts_def)
    then show ?thesis using Cons TimerFires r startInLoop_handed by fastforce
  qed (use TimerFires r in simp)
next
  case (WriteEvent S)
  then have "cn_state c = csConnecting" using own by simp
  moreover obtain fd c1 where "removeAndResetChnnel c = Inr (fd, c1)" "handed c1 = handed c"
    using WriteEvent r calculation removeAndReset_handed by (auto simp: cn_handleWrite_def rbind_eq_Inr)
  ultimately show ?thesis using WriteEvent r by (auto simp: cn_handleWrite_def Let_def cn_close_def split: if_splits)
next
  case ErrorEvent
  then show ?thesis using r removeAndReset_handed by (fastforce simp: cn_handleError_def rbind_eq_Inr split: if_splits)
qed (use own in simp_all)

subsection \<open>The invariant\<close>

lemma current_conn:
  assumes "cl_inv s" and "connection s = Some p"
  shows "\<exists>t. cl_conns s p = Some t \<and> tc_inv t \<and> (tc_state t = cConnected \<or> tc_state t = cDisconnecting)"
  using assms by (simp add: cl_inv_def)

lemma closed_iff: "closed_conn t \<Longrightarrow> tc_inv t \<and> tc_state t = cDisconnected \<and> isNoneEvent (tc_chnnel t)"
  by (simp add: closed_conn_def)

lemma cl_inv_connector:
  assumes "cl_inv s" and "cn_inv c" and "connection s \<noteq> None \<longrightarrow> cn_state c = csConnected"
  shows "cl_inv (s\<lparr>connector := c\<rparr>)"
  using assms by (auto simp: cl_inv_def)

lemma NewConnection_ok:
  assumes "cl_inv s" and "connection s = None" and "cl_conns s p = None" and "cn_state (connector s) = csConnected"
    and "sin_family (getpeerAddr g fd) = AF_INET"
  shows "ok cl_inv (NewConnection g fd p s)"
proof -
  obtain t0 where t0: "TcpConnection_new fd = Inr t0" "tc_inv t0" "tc_state t0 = cConnecting"
    using TcpConnection_new_ok [of fd] by (auto simp: ok_iff)
  define t1 where "t1 = (if cl_writeComplete s then setWriteCompleteCallBack t0 else t0)"
  have "tc_inv t1" "tc_state t1 = cConnecting" using t0 by (auto simp: t1_def setWriteCompleteCallBack_def tc_inv_def)
  then obtain t where t: "connectEstablished p t1 = Inr t" "tc_inv t" "tc_state t = cConnected"
    using established_life [of t1 p] by (auto simp: ok_iff)
  obtain nm where "NewConnection g fd p s = Inr (s\<lparr>cl_nextConnId := cl_nextConnId s + 1, connection := Some p,
      cl_conns := (cl_conns s)(p \<mapsto> t), connNames := (connNames s)(p \<mapsto> nm)\<rparr>)"
    using toIpPort_text [OF assms(5)] t0(1) t(1) by (simp add: NewConnection_def Let_def t1_def)
  then show ?thesis using assms(1-4) t(2,3) by (auto simp: cl_inv_def)
qed

lemma connector_op_ok:
  assumes inv: "cl_inv s" and g: "cl_guard (ConnectorStep ev g p) s"
  shows "ok cl_inv (connector_op ev g p s)"
proof -
  let ?c = "connector s"
  have cn: "cn_inv ?c" using inv by (simp add: cl_inv_def)
  obtain c where c: "cn_step ev ?c = Inr c" "cn_inv c" using cn_step_ok [OF cn, of ev] g by (auto simp: ok_iff)
  have nc: "connection s \<noteq> None \<Longrightarrow> cn_state ?c = csConnected" using inv by (auto simp: cl_inv_def)
  from connector_handed [OF cn _ c(1)] g consider
      (quiet) "handed c = handed ?c" "cn_state ?c = csConnected \<longrightarrow> cn_state c = csConnected"
    | (new) fd where "handed c = handed ?c @ [fd]" "cn_state c = csConnected" "cn_state ?c = csConnecting" by auto
  then show ?thesis
  proof cases
    case quiet
    then show ?thesis using c nc cl_inv_connector [OF inv c(2)] by (simp add: connector_op_def)
  next
    case new
    then have "connection s = None" using nc by force
    then have "ok cl_inv (NewConnection g fd p (s\<lparr>connector := c\<rparr>))"
      using new(2) g cl_inv_connector [OF inv c(2)] by (intro NewConnection_ok) auto
    then show ?thesis using new(1) c(1) by (simp add: connector_op_def)
  qed
qed

lemma closing_ok:
  assumes inv: "cl_inv s" and p: "connection s = Some p" and t: "tc_inv t" "tc_state t = cDisconnected" "isNoneEvent (tc_chnnel t)"
    "ch_flag (tc_chnnel t) \<noteq> cNew" and fd: "0 \<le> fd" "cn_chnnel (connector s) = None"
  shows "ok cl_inv (cl_removeConnection fd e p (s\<lparr>cl_conns := (cl_conns s)(p \<mapsto> t)\<rparr>))"
proof -
  let ?s = "s\<lparr>cl_conns := (cl_conns s)(p \<mapsto> t), connection := None, destroys := destroys s @ [p]\<rparr>"
  have s: "cl_inv ?s" using inv p t by (auto simp: cl_inv_def closed_conn_def split: if_splits)
  have cn: "cn_inv (connector s)" "cn_state (connector s) = csConnected" using inv p by (auto simp: cl_inv_def)
  then have "starts (connector s) = 0" by (auto simp: cn_inv_def)
  then have "ok cn_inv (cn_restart fd e (connector s))"
    using cn_step_ok [OF cn(1), of "Restart fd e"] cn(2) fd by simp
  then obtain c where c: "cn_restart fd e (connector s) = Inr c" "cn_inv c" by (auto simp: ok_iff)
  have "cl_inv (?s\<lparr>connector := c\<rparr>)" using cl_inv_connector [OF s c(2)] by simp
  moreover have "cl_removeConnection fd e p (s\<lparr>cl_conns := (cl_conns s)(p \<mapsto> t)\<rparr>) =
      (if cl_retry s \<and> cl_connect s then Inr (?s\<lparr>connector := c\<rparr>) else Inr ?s)"
    using inv p c(1) by (simp add: cl_removeConnection_def with_connector_def cl_inv_def Let_def)
  ultimately show ?thesis using s by simp
qed

lemma client_conn_op_ok:
  assumes inv: "cl_inv s" and op: "is_conn_op ev" and fd: "0 \<le> fd \<and> cn_chnnel (connector s) = None \<or> ev = Shutdown l"
    and g: "\<And>p t. connection s = Some p \<Longrightarrow> cl_conns s p = Some t \<Longrightarrow> tc_guard ev t"
  shows "ok cl_inv (client_conn_op ev fd e s)"
proof (cases "connection s")
  case None
  then show ?thesis using inv by (simp add: client_conn_op_def)
next
  case (Some p)
  obtain t where t: "cl_conns s p = Some t" "tc_inv t" "tc_state t = cConnected \<or> tc_state t = cDisconnecting"
    using current_conn [OF inv Some] by blast
  obtain t' where t': "tc_step True ev t = Inr t'" "tc_inv t'" "state_rank (tc_state t) \<le> state_rank (tc_state t')"
    using tc_step_ok [OF t(2) g [OF Some t(1)]] by (auto simp: ok_iff grows_def)
  from tc_step_life [OF t'(1) op t(3)] show ?thesis
  proof
    assume l: "lives t t'"
    then have "tc_state t' = cConnected \<or> tc_state t' = cDisconnecting"
      using t'(3) t(3) by (cases "tc_state t'") (auto simp: lives_def)
    then have "cl_inv (s\<lparr>cl_conns := (cl_conns s)(p \<mapsto> t')\<rparr>)" using inv Some t'(2) by (auto simp: cl_inv_def)
    then show ?thesis using Some t(1) t'(1) lives_no_close [OF l] by (simp add: client_conn_op_def Let_def)
  next
    assume en: "ends t t'"
    have "ev \<noteq> Shutdown l"
    proof
      assume "ev = Shutdown l"
      then have "lives t t'" using shutdown_lives t'(1) t(3) by blast
      then show False using en by (simp add: lives_def ends_def)
    qed
    then show ?thesis
      using closing_ok [OF inv Some t'(2), of fd e] fd en Some t(1) t'(1) ends_close [OF en]
      by (simp add: client_conn_op_def Let_def ends_def)
  qed
qed

lemma run_destroy_ok:
  assumes inv: "cl_inv s"
  shows "ok cl_inv (run_destroy s)"
proof (cases "destroys s")
  case Nil
  then show ?thesis using inv by (simp add: run_destroy_def)
next
  case (Cons p ps)
  then have np: "connection s \<noteq> Some p" "p \<notin> set ps" using inv by (auto simp: cl_inv_def)
  then obtain t where t: "cl_conns s p = Some t" "closed_conn t" "ch_flag (tc_chnnel t) \<noteq> cNew"
    using inv Cons by (auto simp: cl_inv_def)
  then obtain t' where t': "conncetDestoryed t = Inr t'" "closed_conn t'" "ch_flag (tc_chnnel t') = cNew"
    using destroyed_life [of t] by (auto simp: ok_iff closed_conn_def)
  then have "cl_inv (s\<lparr>destroys := ps, cl_conns := (cl_conns s)(p \<mapsto> t')\<rparr>)"
    using inv Cons np by (auto simp: cl_inv_def split: if_splits)
  then show ?thesis using Cons t(1) t'(1) by (simp add: run_destroy_def)
qed

lemma cl_inv_flags [simp]:
  "cl_inv (s\<lparr>cl_connect := b\<rparr>) = cl_inv s" "cl_inv (s\<lparr>cl_retry := b\<rparr>) = cl_inv s"
  by (simp_all add: cl_inv_def)

lemma cl_step_ok:
  assumes inv: "cl_inv s" and g: "cl_guard ev s"
  shows "ok cl_inv (cl_step ev s)"
proof (cases ev)
  case (Connect l fd e)
  then obtain c where c: "cn_step (Start l fd e) (connector s) = Inr c" "cn_inv c"
    using cn_step_ok [of "connector s" "Start l fd e"] inv g by (auto simp: cl_inv_def ok_iff)
  have "connection s = None" using inv g Connect by (auto simp: cl_inv_def)
  then have "cl_inv (s\<lparr>cl_connect := True, connector := c\<rparr>)" using cl_inv_connector [of "s\<lparr>cl_connect := True\<rparr>" c] inv c(2) by simp
  then show ?thesis using Connect c(1) by (simp add: cl_connect_op_def with_connector_def del: cn_step.simps)
next
  case (Disconnect l)
  have "ok cl_inv (client_conn_op (Shutdown l) 0 0 (s\<lparr>cl_connect := False\<rparr>))"
    using inv by (intro client_conn_op_ok [where l = l]) simp_all
  then show ?thesis using Disconnect by (simp add: disconnect_def)
next
  case StopClient
  have "cn_inv (cn_stop (connector s))" using cn_step_ok [of "connector s" StopConnector] inv by (simp add: cl_inv_def)
  moreover have "cn_state (cn_stop (connector s)) = cn_state (connector s)" by (simp add: cn_stop_def cn_queueInLoop_def)
  ultimately have "cl_inv (s\<lparr>cl_connect := False, connector := cn_stop (connector s)\<rparr>)"
    using cl_inv_connector [of "s\<lparr>cl_connect := False\<rparr>" "cn_stop (connector s)"] inv by (auto simp: cl_inv_def)
  then show ?thesis using StopClient by (simp add: cl_stop_def)
next
  case EnableRetry
  then show ?thesis using inv by (simp add: enableRetry_def)
next
  case (ConnectorStep cev gp p)
  then show ?thesis using connector_op_ok [OF inv] g by simp
next
  case (ConnStep tev fd e)
  then show ?thesis using client_conn_op_ok [OF inv, of tev fd] g by simp
next
  case RunDestroy
  then show ?thesis using run_destroy_ok [OF inv] by simp
qed

interpretation client: guarded_machine cl_inv cl_guard cl_step
  by unfold_locales (rule cl_step_ok)

lemma TcpClient_new_inv: "cl_inv (TcpClient_new name)"
  using Connector_new_inv by (simp add: cl_inv_def TcpClient_new_def)

section \<open>Properties\<close>


definition demo_peer :: "int \<Rightarrow> sockaddr_in option" where
  "demo_peer fd = Some (SockAddr_port 80 True)"

definition demo_client_events :: "client_event list" where
  "demo_client_events = [Connect True 7 EINPROGRESS, ConnectorStep (WriteEvent (demo_calls\<lparr>sc_getsockopt := \<lambda>fd. Inr 0\<rparr>)) demo_peer 1,
    ConnectorStep (RunFunctor 0 0) demo_peer 2]"

lemmas client_simps = demo_client_events_def cl_connect_op_def with_connector_def connector_op_def NewConnection_def TcpClient_new_def
  demo_peer_def getpeerAddr_def

lemma demo_client_run:
  "guards cl_guard cl_step demo_client_events (TcpClient_new ''c'')"
proof -
  obtain t where t: "TcpConnection_new 7 = Inr t" "tc_inv t" "tc_state t = cConnecting"
    using TcpConnection_new_ok [of 7] by (auto simp: ok_iff)
  obtain t' where t': "connectEstablished 1 t = Inr t'" using established_life [OF t(2,3), of 1] by (auto simp: ok_iff)
  have a: "toIpPort (SockAddr_port 80 True) =
      Inr (dotted (mem_bytes 4 (s_addr (SockAddr_port 80 True))) @ '':'' @ dec_nat (unat (tpPort (SockAddr_port 80 True))))"
    by (rule toIpPort_text) (simp add: SockAddr_port_def)
  have "sin_family (SockAddr_port 80 True) = 2" by (simp add: SockAddr_port_def AF_INET_def)
  then show ?thesis using t(1) t' a by (simp add: client_simps demo_simps)
qed


text \<open>After its connection has been closed without retrying, the connector of a client is still in the state connected, so
  that calling \<open>connect\<close> again fails the assertion of \<open>startInLoop\<close>.\<close>

lemma connect_again_asserts:
  assumes "cl_inv s" and "cn_state (connector s) = csConnected"
  shows "cl_step (Connect True fd e) s = Inl AssertFail"
  using assms by (simp add: cl_connect_op_def with_connector_def cn_start_def startInLoop_def cn_assertInLoopThread_def)

end
