(* ===== verification/Spec2Isabelle.thy ===== *)
theory Spec2Isabelle
  imports LogPipeline StackTrace EventLoopThread Transport Sockets TcpServer TcpClient
begin

text \<open>
  netlib is a C++ network library in the reactor style: an \<open>EventLoop\<close> per thread waits for events of its channels and runs
  their callbacks, timers and functors queued by other threads; \<open>TcpServer\<close> and \<open>TcpClient\<close> build connections on it;
  a logging front end writes lines through a background thread to rolling files. This development models the two libraries
  \<^verbatim>\<open>src/netlib/base\<close> and \<^verbatim>\<open>src/netlib/net\<close> and proves what makes their components correct.

  \<^bold>\<open>How the parts work together.\<close> An \<open>Acceptor\<close> or a \<open>Connector\<close> obtains a connected socket and hands it to the server
  or the client, which makes a \<open>TcpConnection\<close> for it. The connection owns a \<open>Chnnel\<close>, two \<open>Buffer\<close>s and a state; its
  operations run on the loop's thread, and calls of other threads become functors of the \<open>EventLoop\<close>. The loop asks the
  \<open>Epoller\<close> which channels are active and dispatches their events; the \<open>TimerQueue\<close> is one of these channels. A
  \<open>TcpServer\<close> spreads its connections over the loops of an \<open>EventLoopThreadPool\<close>, whose loops run in \<open>EventLoopThread\<close>s.
  Every component writes log lines through \<open>Logger\<close> and \<open>LogStream\<close>; \<open>AsyncLogging\<close> collects lines and hands them to a
  \<open>LogFile\<close>. \<open>Date\<close>, \<open>Time\<close> and \<open>TimeZone\<close> serve both sides.

  \<^bold>\<open>Conventions.\<close> An operation that can trip an assertion, throw, abort or run into undefined behaviour returns \<open>'a res\<close>, a sum
  with the fault on the left; assertions are taken as compiled in, save where a definition has the argument \<open>ndebug\<close>. Members
  are fields of records, \<open>enum\<close>s are datatypes, widths are written out where they matter (\<open>w word\<close>, \<open>size_t\<close>, \<open>int32\<close>). Names
  are those of the source, also where it misspells, with a prefix where classes share a name. System calls, the C library
  and user callbacks are arguments; what is assumed of them is a named predicate (\<open>write_contract\<close>, \<open>epoll_contract\<close>, \<open>env_ok\<close>)
  with the documented behaviour and an instance in a witness. Threads that share state are interleaved steps,
  with the region between lock and unlock of a mutex as one step (in \<open>EventLoopThread\<close> the lock is a step of its own).

  \<^bold>\<open>The theories.\<close>

  \<^item> \<open>Prelude\<close> (faults, sequencing, machine integers, vectors, the locale \<open>guarded_machine\<close>) and \<open>Formatting\<close> (\<open>printf\<close>
    conversions) are shared. \<open>guarded_machine\<close> is the interface of a state machine with an invariant and the guards its
    users must respect; its lemmas \<open>run_ok\<close>, \<open>run_rel\<close>, \<open>run_simulates\<close> and \<open>run_emits\<close> carry the invariant, relations between
    states, an abstract operation and a growing text over runs. It is interpreted on the models as \<open>buffer_ops\<close>, \<open>conn\<close>, \<open>tcp_link\<close>, \<open>server\<close>,
    \<open>client\<close>, \<open>connector\<close>, \<open>async\<close>, \<open>pipe\<close> and \<open>event_thread\<close>.
  \<^item> \<open>Buffer\<close> (\<^verbatim>\<open>net/Buffer\<close>): the byte vector with its two indices. The locale \<open>byte_stream\<close>, interpreted as \<open>buffer_stream\<close>,
    states the contract of a byte queue. Runs of appends and retrievals are a FIFO queue, runs of all operations a double-ended one, the
    indices stay well formed, and integers are read back.
  \<^item> \<open>Calendar\<close>, \<open>Timestamps\<close>, \<open>TimeZone\<close> (\<^verbatim>\<open>base/Date\<close>, \<^verbatim>\<open>base/Time\<close>, \<^verbatim>\<open>base/TimeZone\<close>): Julian day numbers against the calendar, time stamps
    with the rounding of double arithmetic, zone files and conversions.
  \<^item> \<open>LogStream\<close>, \<open>Logging\<close> (\<^verbatim>\<open>base/LogStream\<close>, \<^verbatim>\<open>base/Logging\<close>, the thread id of \<^verbatim>\<open>base/CurrentThread\<close>): every stream operator and the
    line a log statement makes. \<open>StackTrace\<close> (the rest of \<^verbatim>\<open>base/CurrentThread\<close>, \<^verbatim>\<open>base/Exception\<close>): stack traces with demangled symbols.
  \<^item> \<open>LogFile\<close>, \<open>AsyncLogging\<close> (\<^verbatim>\<open>base/FileUtil\<close>, \<^verbatim>\<open>base/LogFile\<close>, \<^verbatim>\<open>base/AsyncLogging\<close>): the files hold the messages in order, under every
    interleaving of the front ends with the logging thread; what \<open>stop\<close> loses. \<open>LogPipeline\<close> composes the logging side, from
    the log statements of any threads to the text of the files.
  \<^item> \<open>EventLoopThread\<close> (\<^verbatim>\<open>base/Mutex\<close>, \<^verbatim>\<open>base/Condition\<close>, \<^verbatim>\<open>base/CountDownLatch\<close>, \<^verbatim>\<open>base/Thread\<close>, \<^verbatim>\<open>net/EventLoopThread\<close>): starting and
    stopping a thread with a loop, free of deadlock within its discipline, and its races outside.
  \<^item> \<open>TimerQueue\<close> (\<^verbatim>\<open>net/Timer\<close>, \<^verbatim>\<open>net/TimerId\<close>, \<^verbatim>\<open>net/TimerQueue\<close>): timers on an explicit heap; no use after free, timers are armed, cancel is exact.
  \<^item> \<open>Chnnel\<close>, \<open>Epoller\<close>, \<open>EventLoop\<close> (files of the same names): registration mirrors the channels, dispatch, turns of the
    loop, and the queue of functors among several threads (the step relation \<open>el_step\<close> with rule induction over \<open>el_reach\<close>).
  \<^item> \<open>TcpConnection\<close>, \<open>ConnectionLife\<close> (\<^verbatim>\<open>net/TcpConnection\<close>): the byte stream of a connection, its life, half-closing. \<open>Transport\<close> joins two
    connections by a TCP stream, whose documented service is the guard of a read: what one user sends the other receives.
  \<^item> \<open>SockAddr\<close>, \<open>Sockets\<close>, \<open>Acceptor\<close>, \<open>Connector\<close>, \<open>EventLoopThreadPool\<close>, \<open>TcpServer\<close>, \<open>TcpClient\<close> (\<^verbatim>\<open>net/SockFunc\<close>, \<^verbatim>\<open>net/SockAddr\<close>, \<^verbatim>\<open>net/Socket\<close> and the
    files of the same names): addresses, socket options, accepting, connecting with growing delays, round robin, and the two compositions,
    in which every assertion holds and every connection leaves its owner and its loop exactly once.

  \<^bold>\<open>Bounds and guards.\<close> Indices of a buffer are C++ \<open>int\<close>s, so its size stays below \<open>2 ^ 31\<close>; the theorems on appending have this as
  a hypothesis. The time stamps of the theorems on \<open>double\<close>s are below \<open>2 ^ 53\<close> microseconds, where they are exact; those on log lines have years
  of four digits, which the 17 characters of a stamp assert. Loops of the source are recursion with a measure; the one loop that
  may run for ever, writing to a full stream, is a \<open>partial_function\<close>, and returning is proved from the contract of \<open>fwrite\<close>. The guards of the
  machines say what the source leaves to its users; a run outside of them fails an assertion, as the properties on
  errors show for several of them.

  \<^bold>\<open>Findings\<close> that a property proves: a peer that closes trips the assertion of \<open>handleClose\<close>; an unreadable zone file gives a zone that
  says it is valid; \<open>stop\<close> loses messages; the spare descriptor of the acceptor is never used; the destructor of an
  \<open>EventLoopThread\<close> can wait for ever. The lemmas \<open>start_during_retry\<close> and \<open>connect_again_asserts\<close> show two more, of \<open>Connector\<close> and \<open>TcpClient\<close>.

  \<^bold>\<open>Not modelled.\<close> \<open>ProcessInfo\<close> (host name and process id, arguments of \<open>LogFile\<close>), the names threads give
  themselves and what they print before an exception ends the process, the timed wait of \<open>Condition\<close> (the wait of the logging thread is a step that may
  end at any time), \<open>WeakCallBack\<close> and the callback types (no state), the test programs and the files CMake generates.
\<close>

end
